(* ===== verification/Efdb_Prelude.thy ===== *)
theory Efdb_Prelude
  imports Main "HOL-Library.Word" "HOL-Library.Sublist"
begin

unbundle bit_operations_syntax

text \<open>
  Shared vocabulary of the EventfoldDB development: the machine integer types of the Rust
  sources, the parts of the Rust standard library the sources use (fixed-width little-endian
  conversions, slices, saturating addition, decimal and hexadecimal formatting, the question
  mark operator), and the generic lemmas and theorem collections the component theories share.

  Conventions of the whole development. A fallible Rust function returns a value of
  \<open>error + 'a\<close>, with \<open>Inl\<close> for \<open>Err\<close> and \<open>Inr\<close> for \<open>Ok\<close>. A function that may panic returns an
  option whose \<open>None\<close> is the panic. \<open>u8\<close> to \<open>u64\<close> are words, so their arithmetic wraps as it
  does in a release build; \<open>usize\<close> lengths and offsets are \<open>nat\<close>.
\<close>

type_synonym byte = "8 word"
type_synonym u16 = "16 word"
type_synonym u32 = "32 word"
type_synonym u64 = "64 word"
type_synonym bytes = "byte list"

text \<open>A Rust \<open>String\<close> that carries user data is the list of its UTF-8 bytes.\<close>

type_synonym rstring = "byte list"

named_theorems length_simps \<open>lengths of encoded fields and frames\<close>
named_theorems decode_simps \<open>decoders applied to encoded values\<close>
named_theorems inv_intros \<open>operations that keep a component invariant\<close>

subsection \<open>The question mark operator\<close>

definition and_then :: "'e + 'a \<Rightarrow> ('a \<Rightarrow> 'e + 'b) \<Rightarrow> 'e + 'b" where
  "and_then r f = (case r of Inl e \<Rightarrow> Inl e | Inr v \<Rightarrow> f v)"

lemma and_then_simps [simp]:
  "and_then (Inl e) f = Inl e"
  "and_then (Inr v) f = f v"
  by (simp_all add: and_then_def)

lemma and_then_eq_Inr: "and_then r f = Inr y \<longleftrightarrow> (\<exists>v. r = Inr v \<and> f v = Inr y)"
  by (cases r) auto

lemma and_then_eq_Inl: "and_then r f = Inl e \<longleftrightarrow> r = Inl e \<or> (\<exists>v. r = Inr v \<and> f v = Inl e)"
  by (cases r) auto

text \<open>Collecting an iterator of results: the first error wins.\<close>

fun collect_results :: "('e + 'a) list \<Rightarrow> 'e + 'a list" where
  "collect_results [] = Inr []"
| "collect_results (r # rs) = and_then r (\<lambda>v. and_then (collect_results rs) (\<lambda>vs. Inr (v # vs)))"

lemma collect_results_Inr_iff:
  "collect_results rs = Inr vs \<longleftrightarrow> rs = map Inr vs"
  by (induction rs arbitrary: vs) (auto simp: and_then_eq_Inr Cons_eq_map_conv)

lemma collect_results_Inl:
  "collect_results rs = Inl e \<Longrightarrow> Inl e \<in> set rs"
  by (induction rs) (auto simp: and_then_eq_Inl)

subsection \<open>Words and lists\<close>

lemma unat_of_nat_less: "n < 2 ^ LENGTH('a) \<Longrightarrow> unat (of_nat n :: 'a::len word) = n"
  by (simp add: unat_of_nat take_bit_nat_eq_self)

lemma of_nat_inject_less:
  "m < 2 ^ LENGTH('a) \<Longrightarrow> n < 2 ^ LENGTH('a) \<Longrightarrow> (of_nat m :: 'a::len word) = of_nat n \<longleftrightarrow> m = n"
  by (metis unat_of_nat_less)

text \<open>A window that ends before the cut does not see what follows the cut.\<close>

lemma take_window: "k \<le> n \<Longrightarrow> n \<le> length xs \<Longrightarrow> take k (take n xs @ r) = take k xs"
  by (simp add: min_def)

lemma take_drop_window:
  assumes "j + k \<le> n" "n \<le> length xs"
  shows "take k (drop j (take n xs @ r)) = take k (drop j xs)"
  using assms by (auto simp: drop_take min_def)

lemma strict_prefix_append_cases:
  "strict_prefix p (xs @ ys) \<Longrightarrow> strict_prefix p xs \<or> (\<exists>q. p = xs @ q \<and> strict_prefix q ys)"
  by (metis append.right_neutral prefix_append prefix_order.less_imp_le same_prefix_prefix
      strict_prefix_def)

subsection \<open>Little-endian integer conversions\<close>

text \<open>\<open>to_le_bytes\<close> and \<open>from_le_bytes\<close> of the unsigned integer types, least byte first.\<close>

fun le_bytes :: "nat \<Rightarrow> 'a::len word \<Rightarrow> bytes" where
  "le_bytes 0 w = []"
| "le_bytes (Suc n) w = ucast w # le_bytes n (drop_bit 8 w)"

fun le_value :: "bytes \<Rightarrow> 'a::len word" where
  "le_value [] = 0"
| "le_value (b # bs) = ucast b OR push_bit 8 (le_value bs)"

definition u16_to_le :: "u16 \<Rightarrow> bytes" where "u16_to_le w = le_bytes 2 w"
definition u32_to_le :: "u32 \<Rightarrow> bytes" where "u32_to_le w = le_bytes 4 w"
definition u64_to_le :: "u64 \<Rightarrow> bytes" where "u64_to_le w = le_bytes 8 w"

definition u16_from_le :: "bytes \<Rightarrow> u16" where "u16_from_le bs = le_value bs"
definition u32_from_le :: "bytes \<Rightarrow> u32" where "u32_from_le bs = le_value bs"
definition u64_from_le :: "bytes \<Rightarrow> u64" where "u64_from_le bs = le_value bs"

lemma length_le_bytes [simp]: "length (le_bytes n w) = n"
  by (induction n arbitrary: w) auto

lemma bit_le_value:
  "bit (le_value bs :: 'a::len word) k \<longleftrightarrow>
     k < LENGTH('a) \<and> k div 8 < length bs \<and> bit (bs ! (k div 8)) (k mod 8)"
proof (induction bs arbitrary: k)
  case Nil
  then show ?case by simp
next
  case (Cons b bs)
  show ?case
  proof (cases "k < 8")
    case True
    then show ?thesis by (auto simp: bit_simps)
  next
    case False
    then have k: "k div 8 = Suc ((k - 8) div 8)" "k mod 8 = (k - 8) mod 8"
      by (simp_all add: le_div_geq le_mod_geq)
    have "\<not> bit b k" using False by (auto dest: bit_imp_le_length)
    with False show ?thesis by (auto simp: bit_simps Cons.IH k)
  qed
qed

lemma nth_le_bytes: "i < n \<Longrightarrow> le_bytes n w ! i = ucast (drop_bit (8 * i) w)"
proof (induction n arbitrary: w i)
  case (Suc n)
  then show ?case by (cases i) (auto simp: algebra_simps)
qed simp

lemma le_value_le_bytes:
  fixes w :: "'a::len word"
  assumes "LENGTH('a) = 8 * n"
  shows "le_value (le_bytes n w) = w"
proof (rule bit_word_eqI)
  fix k assume k: "k < LENGTH('a)"
  then have "k div 8 < n" using assms by simp
  then show "bit (le_value (le_bytes n w) :: 'a word) k \<longleftrightarrow> bit w k"
    using k by (auto simp: bit_le_value nth_le_bytes bit_simps)
qed

lemma le_bytes_le_value:
  fixes bs :: bytes
  assumes "LENGTH('a::len) = 8 * length bs"
  shows "le_bytes (length bs) (le_value bs :: 'a word) = bs"
proof (rule nth_equalityI)
  fix i assume "i < length (le_bytes (length bs) (le_value bs :: 'a word))"
  then have i: "i < length bs" by simp
  show "le_bytes (length bs) (le_value bs :: 'a word) ! i = bs ! i"
  proof (rule bit_word_eqI)
    fix k assume k: "k < LENGTH(8)"
    then have "8 * i + k < LENGTH('a)" using i assms by simp
    with i k assms show "bit (le_bytes (length bs) (le_value bs :: 'a word) ! i) k \<longleftrightarrow> bit (bs ! i) k"
      by (auto simp: nth_le_bytes bit_simps bit_le_value)
  qed
qed simp

lemma sublist_singleton: "x \<in> set xs \<Longrightarrow> sublist [x] xs"
  by (auto simp: sublist_def dest!: split_list)

lemma sublist_prefix: "sublist xs ys \<Longrightarrow> prefix ys zs \<Longrightarrow> sublist xs zs"
  by (auto intro: sublist_order.order_trans)

subsection \<open>Fixed-width codecs\<close>

text \<open>
  The contract every fixed-width field of the on-disk format rests on: an encoder of constant
  width whose inverse is the decoder, so that every buffer of that width is the encoding of a value. Clients read the field back from the front of a longer
  buffer, and two equal encodings carry equal values.
\<close>

locale fixed_width =
  fixes enc :: "'a \<Rightarrow> bytes" and dec :: "bytes \<Rightarrow> 'a" and width :: nat
  assumes enc_length: "length (enc x) = width"
    and dec_enc: "dec (enc x) = x"
    and enc_dec: "length bs = width \<Longrightarrow> enc (dec bs) = bs"
begin

lemma dec_take: "dec (take width (enc x @ rest)) = x"
  by (simp add: enc_length dec_enc)

lemma enc_inj: "enc x = enc y \<longleftrightarrow> x = y"
  by (metis dec_enc)

lemma drop_enc: "drop width (enc x @ rest) = rest"
  by (simp add: enc_length)

lemma take_enc: "take width (enc x @ rest) = enc x"
  by (simp add: enc_length)

end

interpretation le16: fixed_width u16_to_le u16_from_le 2
  using le_bytes_le_value [where ?'a = 16]
  by unfold_locales (auto simp: u16_to_le_def u16_from_le_def le_value_le_bytes)

interpretation le32: fixed_width u32_to_le u32_from_le 4
  using le_bytes_le_value [where ?'a = 32]
  by unfold_locales (auto simp: u32_to_le_def u32_from_le_def le_value_le_bytes)

interpretation le64: fixed_width u64_to_le u64_from_le 8
  using le_bytes_le_value [where ?'a = 64]
  by unfold_locales (auto simp: u64_to_le_def u64_from_le_def le_value_le_bytes)

declare le16.enc_length [simp, length_simps] le32.enc_length [simp, length_simps]
  le64.enc_length [simp, length_simps]
declare le16.dec_enc [simp, decode_simps] le32.dec_enc [simp, decode_simps]
  le64.dec_enc [simp, decode_simps]

subsection \<open>Systems that come to an end\<close>

text \<open>
  A transition system that can only do a bounded amount of work and is never stuck before it is done.
  Then every run is short and every run can be completed.
\<close>

locale ending_system =
  fixes step :: "'s \<Rightarrow> 's \<Rightarrow> bool" and inv :: "'s \<Rightarrow> bool" and remaining :: "'s \<Rightarrow> nat" and final :: "'s \<Rightarrow> bool"
  assumes advance: "inv s \<Longrightarrow> step s s' \<Longrightarrow> inv s' \<and> remaining s' < remaining s"
    and progress: "inv s \<Longrightarrow> \<not> final s \<Longrightarrow> \<exists>s'. step s s'"
begin

lemma steps_bound: "inv s \<Longrightarrow> (step ^^ k) s s' \<Longrightarrow> inv s' \<and> k + remaining s' \<le> remaining s"
proof (induction k arbitrary: s')
  case (Suc k)
  then obtain t where t: "(step ^^ k) s t" "step t s'" by auto
  from Suc.IH [OF Suc.prems(1) t(1)] advance [OF _ t(2)] show ?case by simp
qed simp

lemma ends: "inv s \<Longrightarrow> \<exists>s'. step\<^sup>*\<^sup>* s s' \<and> final s'"
proof (induction "remaining s" arbitrary: s rule: less_induct)
  case less
  show ?case
  proof (cases "final s")
    case False
    from progress [OF less.prems this] obtain t where t: "step s t" by blast
    from less.hyps advance [OF less.prems t] obtain s' where "step\<^sup>*\<^sup>* t s'" "final s'" by blast
    with t show ?thesis by (meson converse_rtranclp_into_rtranclp)
  qed blast
qed

end

end
