(* ===== verification/Rust_Std.thy ===== *)
theory Rust_Std
  imports Efdb_Prelude
begin

text \<open>
  The parts of the Rust standard library the sources call: slice indexing and \<open>Vec\<close> indexing
  (which panic out of range), \<open>u64::saturating_add\<close>, integer formatting, \<open>str::from_utf8\<close> with its
  error value, and \<open>HashMap::entry(..).or_default()\<close>. A \<open>HashMap\<close> is an association list with
  distinct keys; its order stands for the unspecified iteration order of the real map.
\<close>

subsection \<open>Indexing and saturating arithmetic\<close>

definition slice :: "'a list \<Rightarrow> nat \<Rightarrow> nat \<Rightarrow> 'a list option" where
  "slice xs a b = (if a \<le> b \<and> b \<le> length xs then Some (take (b - a) (drop a xs)) else None)"

definition index :: "'a list \<Rightarrow> nat \<Rightarrow> 'a option" where
  "index xs i = (if i < length xs then Some (xs ! i) else None)"

text \<open>Indexing a vector with every position of a list; one bad position panics the whole map.\<close>

fun index_all :: "'a list \<Rightarrow> nat list \<Rightarrow> 'a list option" where
  "index_all xs [] = Some []"
| "index_all xs (i # is) =
     (case index xs i of None \<Rightarrow> None
      | Some v \<Rightarrow> (case index_all xs is of None \<Rightarrow> None | Some vs \<Rightarrow> Some (v # vs)))"

definition saturating_add :: "u64 \<Rightarrow> u64 \<Rightarrow> u64" where
  "saturating_add a b = (if unat a + unat b < 2 ^ 64 then a + b else - 1)"

lemma unat_saturating_add: "unat (saturating_add a b) = min (unat a + unat b) (2 ^ 64 - 1)"
proof (cases "unat a + unat b < 2 ^ 64")
  case True
  then have "unat (a + b) = unat a + unat b" by (simp add: unat_word_ariths)
  with True show ?thesis by (simp add: saturating_add_def)
next
  case False
  have "unat (- 1 :: u64) = 2 ^ 64 - 1" by (simp add: unsigned_minus_1_eq_mask mask_eq_exp_minus_1)
  with False show ?thesis by (simp add: saturating_add_def)
qed

lemma take_equalityI':
  "min (length xs) m = min (length xs) n \<Longrightarrow> take m xs = take n xs"
  by (metis min.commute take_all_iff take_take nat_le_linear min_def)

lemma index_all_map:
  "\<forall>i \<in> set is. i < length xs \<Longrightarrow> index_all xs is = Some (map ((!) xs) is)"
  by (induction "is") (auto simp: index_def)

lemma index_all_None:
  "i \<in> set is \<Longrightarrow> length xs \<le> i \<Longrightarrow> index_all xs is = None"
  by (induction "is") (auto simp: index_def split: option.splits)

text \<open>
  The clamped window both read paths compute: with an in-memory length below \<open>2 ^ 64\<close> the slice is
  always in range and is the expected sublist.
\<close>

lemma unat_min: "unat (min a b) = min (unat a) (unat (b :: 'a::len word))"
  by (simp add: min_def word_le_nat_alt)

lemma slice_window:
  fixes a count :: u64
  assumes "length xs < 2 ^ 64"
  shows "slice xs (unat (min a (of_nat (length xs))))
           (unat (min (saturating_add a count) (of_nat (length xs))))
         = Some (take (unat count) (drop (unat a) xs))"
proof -
  have len: "unat (of_nat (length xs) :: u64) = length xs"
    using assms by (intro unat_of_nat_less) simp
  have stop: "unat (min (saturating_add a count) (of_nat (length xs)))
              = min (unat a + unat count) (length xs)"
    unfolding unat_min len unat_saturating_add using assms by (simp add: min_def)
  have start: "unat (min a (of_nat (length xs))) = min (unat a) (length xs)"
    unfolding unat_min len by (rule refl)
  show ?thesis
    unfolding start stop slice_def
    by (auto intro!: take_equalityI' simp: min_def)
qed

subsection \<open>Formatting\<close>

definition digit_char :: "nat \<Rightarrow> char" where
  "digit_char d = char_of (48 + d)"

fun dec_str :: "nat \<Rightarrow> string" where
  "dec_str n = (if n < 10 then [digit_char n] else dec_str (n div 10) @ [digit_char (n mod 10)])"

declare dec_str.simps [simp del]

text \<open>\<open>to_string\<close> and \<open>{}\<close> of \<open>u64\<close>.\<close>

definition u64_to_string :: "u64 \<Rightarrow> string" where
  "u64_to_string w = dec_str (unat w)"

fun dec_val :: "string \<Rightarrow> nat \<Rightarrow> nat" where
  "dec_val [] acc = acc"
| "dec_val (c # cs) acc = dec_val cs (10 * acc + (of_char c - 48))"

lemma dec_val_append: "dec_val (xs @ ys) acc = dec_val ys (dec_val xs acc)"
  by (induction xs arbitrary: acc) auto

lemma dec_val_dec_str: "dec_val (dec_str n) 0 = n"
proof (induction n rule: dec_str.induct)
  case (1 n)
  show ?case
  proof (cases "n < 10")
    case True
    then show ?thesis by (subst dec_str.simps) (simp add: digit_char_def)
  next
    case False
    with "1.IH" have "dec_val (dec_str (n div 10)) 0 = n div 10" by simp
    with False show ?thesis
      by (subst dec_str.simps) (simp add: dec_val_append digit_char_def)
  qed
qed

lemma dec_str_inject: "dec_str m = dec_str n \<longleftrightarrow> m = n"
  by (metis dec_val_dec_str)

lemma u64_to_string_inject: "u64_to_string a = u64_to_string b \<longleftrightarrow> a = b"
  by (simp add: u64_to_string_def dec_str_inject word_unat_eq_iff)

text \<open>
  \<open>str::parse::<usize>\<close> on a 64-bit target: an optional plus sign, then decimal digits; the error of
  the first bad character or of the first overflow.
\<close>

datatype int_error = EmptyInt | InvalidDigit | PosOverflow

fun int_error_display :: "int_error \<Rightarrow> string" where
  "int_error_display EmptyInt = ''cannot parse integer from empty string''"
| "int_error_display InvalidDigit = ''invalid digit found in string''"
| "int_error_display PosOverflow = ''number too large to fit in target type''"

fun parse_digits :: "string \<Rightarrow> nat \<Rightarrow> int_error + nat" where
  "parse_digits [] acc = Inr acc"
| "parse_digits (c # cs) acc =
     (let n = of_char c in
      if \<not> (48 \<le> n \<and> n < 58) then Inl InvalidDigit
      else if 2 ^ 64 \<le> 10 * acc + (n - 48) then Inl PosOverflow
      else parse_digits cs (10 * acc + (n - 48)))"

definition parse_usize :: "string \<Rightarrow> int_error + nat" where
  "parse_usize s =
     (if s = [] then Inl EmptyInt
      else if s = ''+'' \<or> s = ''-'' then Inl InvalidDigit
      else parse_digits (if hd s = CHR ''+'' then tl s else s) 0)"

lemma parse_digits_append:
  "parse_digits (xs @ ys) acc = and_then (parse_digits xs acc) (parse_digits ys)"
  by (induction xs arbitrary: acc) (simp_all add: Let_def)

lemma parse_digits_dec_str: "n < 2 ^ 64 \<Longrightarrow> parse_digits (dec_str n) 0 = Inr n"
proof (induction n rule: dec_str.induct)
  case (1 n)
  show ?case
  proof (cases "n < 10")
    case True
    then show ?thesis by (subst dec_str.simps) (simp add: digit_char_def)
  next
    case False
    with 1 have "parse_digits (dec_str (n div 10)) 0 = Inr (n div 10)" by simp
    with False 1(2) show ?thesis
      by (subst dec_str.simps) (simp add: parse_digits_append digit_char_def)
  qed
qed

lemma dec_str_digits: "c \<in> set (dec_str n) \<Longrightarrow> 48 \<le> (of_char c :: nat)"
proof (induction n rule: dec_str.induct)
  case (1 n)
  have d: "48 \<le> (of_char (digit_char (n mod 10)) :: nat)" by (simp add: digit_char_def)
  show ?case
  proof (cases "n < 10")
    case True
    with 1(2) d show ?thesis by (subst (asm) dec_str.simps) simp
  next
    case False
    with 1 d show ?thesis by (subst (asm) (2) dec_str.simps) auto
  qed
qed

lemma dec_str_nonempty: "dec_str n \<noteq> []"
  by (subst dec_str.simps) simp

lemma parse_usize_dec_str: "n < 2 ^ 64 \<Longrightarrow> parse_usize (dec_str n) = Inr n"
proof -
  assume n: "n < 2 ^ 64"
  have "hd (dec_str n) \<noteq> CHR ''+''" "hd (dec_str n) \<noteq> CHR ''-''"
    using dec_str_digits [of "hd (dec_str n)" n] dec_str_nonempty [of n] by auto
  with n show ?thesis
    using dec_str_nonempty [of n] by (auto simp: parse_usize_def parse_digits_dec_str)
qed

text \<open>Hexadecimal digits: \<open>{:02x}\<close> of a byte and \<open>{:#010X}\<close> of a \<open>u32\<close>.\<close>

definition hex_char :: "bool \<Rightarrow> nat \<Rightarrow> char" where
  "hex_char upper d = (if d < 10 then char_of (48 + d)
     else if upper then char_of (55 + d) else char_of (87 + d))"

fun hex_digits :: "bool \<Rightarrow> nat \<Rightarrow> nat \<Rightarrow> string" where
  "hex_digits upper 0 n = []"
| "hex_digits upper (Suc k) n = hex_digits upper k (n div 16) @ [hex_char upper (n mod 16)]"

definition hex_02x :: "byte \<Rightarrow> string" where
  "hex_02x b = hex_digits False 2 (unat b)"

definition hex_010X :: "u32 \<Rightarrow> string" where
  "hex_010X w = ''0x'' @ hex_digits True 8 (unat w)"

subsection \<open>UTF-8 validation\<close>

text \<open>
  \<open>std::str::from_utf8\<close> reports the length of the valid prefix and, unless the input just ends too
  early, the number of bytes of the bad sequence.
\<close>

datatype utf8_error = Utf8Error (valid_up_to: nat) (error_len: "nat option")

definition in_range :: "nat \<Rightarrow> nat \<Rightarrow> byte \<Rightarrow> bool" where
  "in_range lo hi b \<longleftrightarrow> lo \<le> unat b \<and> unat b \<le> hi"

definition is_cont :: "byte \<Rightarrow> bool" where
  "is_cont b \<longleftrightarrow> in_range 128 191 b"

text \<open>The ranges the second byte of a three- and a four-byte sequence may lie in.\<close>

definition second3_ok :: "byte \<Rightarrow> byte \<Rightarrow> bool" where
  "second3_ok a b \<longleftrightarrow>
     (if unat a = 224 then in_range 160 191 b else if unat a = 237 then in_range 128 159 b
      else is_cont b)"

definition second4_ok :: "byte \<Rightarrow> byte \<Rightarrow> bool" where
  "second4_ok a b \<longleftrightarrow>
     (if unat a = 240 then in_range 144 191 b else if unat a = 244 then in_range 128 143 b
      else is_cont b)"

text \<open>
  One character at the front of a byte string: \<open>Inr n\<close> is a valid sequence of \<open>n\<close> bytes, \<open>Inl l\<close> is
  an error with that \<open>error_len\<close>.
\<close>

fun utf8_char :: "byte \<Rightarrow> bytes \<Rightarrow> nat option + nat" where
  "utf8_char a rest =
     (if unat a < 128 then Inr 1
      else if in_range 194 223 a then
        (case rest of [] \<Rightarrow> Inl None
         | b # _ \<Rightarrow> if is_cont b then Inr 2 else Inl (Some 1))
      else if in_range 224 239 a then
        (case rest of [] \<Rightarrow> Inl None
         | b # rest' \<Rightarrow>
             if \<not> second3_ok a b then Inl (Some 1)
             else (case rest' of [] \<Rightarrow> Inl None
                   | c # _ \<Rightarrow> if is_cont c then Inr 3 else Inl (Some 2)))
      else if in_range 240 244 a then
        (case rest of [] \<Rightarrow> Inl None
         | b # rest' \<Rightarrow>
             if \<not> second4_ok a b then Inl (Some 1)
             else (case rest' of [] \<Rightarrow> Inl None
                   | c # rest'' \<Rightarrow>
                       if \<not> is_cont c then Inl (Some 2)
                       else (case rest'' of [] \<Rightarrow> Inl None
                             | d # _ \<Rightarrow> if is_cont d then Inr 4 else Inl (Some 3))))
      else Inl (Some 1))"

declare utf8_char.simps [simp del]

lemma utf8_char_pos: "utf8_char a rest = Inr n \<Longrightarrow> 0 < n \<and> n \<le> Suc (length rest)"
  by (auto simp: utf8_char.simps split: if_splits list.splits)

function utf8_scan :: "nat \<Rightarrow> bytes \<Rightarrow> utf8_error option" where
  "utf8_scan off [] = None"
| "utf8_scan off (a # rest) =
     (case utf8_char a rest of
        Inl l \<Rightarrow> Some (Utf8Error off l)
      | Inr n \<Rightarrow> utf8_scan (off + n) (drop (n - 1) rest))"
  by pat_completeness auto
termination
  by (relation "measure (\<lambda>(off, bs). length bs)") (auto dest: utf8_char_pos)

definition from_utf8 :: "bytes \<Rightarrow> utf8_error + rstring" where
  "from_utf8 bs = (case utf8_scan 0 bs of None \<Rightarrow> Inr bs | Some e \<Rightarrow> Inl e)"

definition utf8_valid :: "bytes \<Rightarrow> bool" where
  "utf8_valid bs \<longleftrightarrow> utf8_scan 0 bs = None"

text \<open>\<open>Display\<close> of \<open>Utf8Error\<close>.\<close>

fun utf8_error_display :: "utf8_error \<Rightarrow> string" where
  "utf8_error_display (Utf8Error off (Some l)) =
     ''invalid utf-8 sequence of '' @ dec_str l @ '' bytes from index '' @ dec_str off"
| "utf8_error_display (Utf8Error off None) =
     ''incomplete utf-8 byte sequence from index '' @ dec_str off"

lemma from_utf8_valid [simp]: "utf8_valid bs \<Longrightarrow> from_utf8 bs = Inr bs"
  by (simp add: utf8_valid_def from_utf8_def)

lemma from_utf8_Inr: "from_utf8 bs = Inr s \<Longrightarrow> s = bs \<and> utf8_valid s"
  by (auto simp: utf8_valid_def from_utf8_def split: option.splits)

lemma utf8_valid_ascii: "\<forall>b \<in> set bs. unat b < 128 \<Longrightarrow> utf8_valid bs"
proof -
  have "utf8_scan off bs = None" if "\<forall>b \<in> set bs. unat b < 128" for off
    using that by (induction bs arbitrary: off) (auto simp: utf8_char.simps)
  then show "\<forall>b \<in> set bs. unat b < 128 \<Longrightarrow> utf8_valid bs"
    by (simp add: utf8_valid_def)
qed

text \<open>The bytes of an ASCII string literal.\<close>

definition ascii :: "string \<Rightarrow> rstring" where
  "ascii s = map (\<lambda>c. of_nat (of_char c)) s"

subsection \<open>Hash maps\<close>

fun hm_entry :: "'k \<Rightarrow> 'v \<Rightarrow> ('v \<Rightarrow> 'v) \<Rightarrow> ('k \<times> 'v) list \<Rightarrow> ('k \<times> 'v) list" where
  "hm_entry k d f [] = [(k, f d)]"
| "hm_entry k d f ((k', v) # m) =
     (if k' = k then (k', f v) # m else (k', v) # hm_entry k d f m)"

lemma map_of_hm_entry:
  "map_of (hm_entry k d f m) =
     (map_of m)(k \<mapsto> f (case map_of m k of None \<Rightarrow> d | Some v \<Rightarrow> v))"
  by (induction k d f m rule: hm_entry.induct) (auto simp: fun_eq_iff)

lemma keys_hm_entry [simp]: "fst ` set (hm_entry k d f m) = insert k (fst ` set m)"
  by (induction k d f m rule: hm_entry.induct) auto

lemma distinct_hm_entry:
  "distinct (map fst m) \<Longrightarrow> distinct (map fst (hm_entry k d f m))"
  by (induction k d f m rule: hm_entry.induct) auto

lemma hm_entry_comp:
  "hm_entry k d g (hm_entry k d f m) = hm_entry k d (g \<circ> f) m"
  by (induction k d f m rule: hm_entry.induct) auto

end
