(* ===== verification/Domain_Types.thy ===== *)
theory Domain_Types
  imports Rust_Std
begin

text \<open>
  The domain types of \<open>src/types.rs\<close> and the error enum of \<open>src/error.rs\<close> with its \<open>Display\<close> strings.

  A \<open>Uuid\<close> of the \<open>uuid\<close> crate is a 128-bit value; \<open>as_bytes\<close> and \<open>from_bytes\<close> are its big-endian
  bytes, as the crate documents for \<open>from_u128\<close>. Its text form is code outside the repository:
  \<open>uuid_str\<close> is a parameter wherever the sources call \<open>to_string\<close>. An \<open>std::io::Error\<close> is
  represented by its display text.
\<close>

type_synonym uuid = "128 word"
type_synonym io_error = string

definition uuid_as_bytes :: "uuid \<Rightarrow> bytes" where
  "uuid_as_bytes u = rev (le_bytes 16 u)"

definition uuid_from_bytes :: "bytes \<Rightarrow> uuid" where
  "uuid_from_bytes bs = le_value (rev bs)"

interpretation uuid_raw: fixed_width uuid_as_bytes uuid_from_bytes 16
proof
  fix bs :: bytes assume "length bs = 16"
  then show "uuid_as_bytes (uuid_from_bytes bs) = bs"
    using le_bytes_le_value [where ?'a = 128, of "rev bs"] by (simp add: uuid_as_bytes_def uuid_from_bytes_def)
qed (simp_all add: uuid_as_bytes_def uuid_from_bytes_def le_value_le_bytes)

declare uuid_raw.enc_length [simp, length_simps] uuid_raw.dec_enc [simp, decode_simps]

subsection \<open>Events\<close>

definition MAX_EVENT_SIZE :: nat where "MAX_EVENT_SIZE = 64 * 1024"

definition MAX_EVENT_TYPE_LEN :: nat where "MAX_EVENT_TYPE_LEN = 256"

record proposed_event =
  pe_event_id :: uuid
  pe_event_type :: rstring
  pe_metadata :: bytes
  pe_payload :: bytes

record recorded_event =
  re_event_id :: uuid
  re_stream_id :: uuid
  re_stream_version :: u64
  re_global_position :: u64
  re_recorded_at :: u64
  re_event_type :: rstring
  re_metadata :: bytes
  re_payload :: bytes

datatype expected_version = Any | NoStream | Exact u64

datatype subscription_message = EventMsg recorded_event | CaughtUp

record stream_info =
  si_stream_id :: uuid
  si_event_count :: u64
  si_latest_version :: u64

subsection \<open>Errors\<close>

datatype error =
    WrongExpectedVersion (expected: string) (actual: string)
  | StreamNotFound uuid
  | Io io_error
  | CorruptRecord (position: u64) (detail: string)
  | InvalidHeader string
  | EventTooLarge (size_bytes: nat) (max_bytes: nat)
  | InvalidArgument string

fun error_display :: "(uuid \<Rightarrow> string) \<Rightarrow> error \<Rightarrow> string" where
  "error_display uuid_str (WrongExpectedVersion e a) =
     ''wrong expected version: expected '' @ e @ '', actual '' @ a"
| "error_display uuid_str (StreamNotFound sid) = ''stream not found: '' @ uuid_str sid"
| "error_display uuid_str (Io m) = ''I/O error: '' @ m"
| "error_display uuid_str (CorruptRecord p d) =
     ''corrupt record at position '' @ u64_to_string p @ '': '' @ d"
| "error_display uuid_str (InvalidHeader m) = ''invalid file header: '' @ m"
| "error_display uuid_str (EventTooLarge s m) =
     ''event too large: '' @ dec_str s @ '' bytes exceeds '' @ dec_str m @ '' byte limit''"
| "error_display uuid_str (InvalidArgument m) = ''invalid argument: '' @ m"

end
