(* ===== verification/Codec.thy ===== *)
theory Codec
  imports Domain_Types
begin

text \<open>
  The binary codec of \<open>src/codec.rs\<close>: the file header, event records, batch headers and batch
  footers. \<open>crc32fast::hash\<close> is code outside the repository: it is the parameter \<open>crc\<close> of every
  definition that calls it, and the theorems hold for every such function. The contract the
  storage engine relies on is the locale \<open>frame_codec\<close>, interpreted for all three frame kinds.
\<close>

type_synonym crc_fn = "bytes \<Rightarrow> u32"

definition MAGIC :: bytes where "MAGIC = [0x45, 0x46, 0x44, 0x42]"
definition FORMAT_VERSION :: u32 where "FORMAT_VERSION = 3"
definition BATCH_HEADER_MAGIC :: bytes where "BATCH_HEADER_MAGIC = [0x45, 0x46, 0x42, 0x42]"
definition BATCH_FOOTER_MAGIC :: bytes where "BATCH_FOOTER_MAGIC = [0x45, 0x46, 0x42, 0x46]"

datatype 'a decode_outcome = Complete 'a nat | Incomplete

record batch_header =
  bh_record_count :: u32
  bh_first_global_pos :: u64

record batch_footer =
  bf_batch_crc :: u32

subsection \<open>File header\<close>

definition encode_header :: bytes where
  "encode_header = MAGIC @ u32_to_le FORMAT_VERSION"

definition decode_header :: "bytes \<Rightarrow> error + u32" where
  "decode_header buf =
     (if take 4 buf \<noteq> MAGIC then Inl (InvalidHeader ''wrong magic bytes: expected EFDB'')
      else let version = u32_from_le (take 4 (drop 4 buf))
           in if version \<noteq> FORMAT_VERSION
              then Inl (InvalidHeader (''unsupported format version: '' @ dec_str (unat version)))
              else Inr version)"

subsection \<open>Event records\<close>

definition FIXED_BODY_SIZE :: nat where
  "FIXED_BODY_SIZE = 8 + 8 + 16 + 8 + 16 + 2 + 4 + 4 + 4"

definition LENGTH_PREFIX_SIZE :: nat where "LENGTH_PREFIX_SIZE = 4"

text \<open>The bytes between the length prefix and the checksum, in the order they are pushed.\<close>

definition record_fields :: "recorded_event \<Rightarrow> bytes" where
  "record_fields e =
     u64_to_le (re_global_position e) @ u64_to_le (re_recorded_at e) @
     uuid_as_bytes (re_stream_id e) @ u64_to_le (re_stream_version e) @
     uuid_as_bytes (re_event_id e) @
     u16_to_le (of_nat (length (re_event_type e))) @ re_event_type e @
     u32_to_le (of_nat (length (re_metadata e))) @ re_metadata e @
     u32_to_le (of_nat (length (re_payload e))) @ re_payload e"

definition encode_record :: "crc_fn \<Rightarrow> recorded_event \<Rightarrow> bytes" where
  "encode_record crc e =
     (let body_len = FIXED_BODY_SIZE + length (re_event_type e) + length (re_metadata e)
                     + length (re_payload e);
          buf = u32_to_le (of_nat body_len) @ record_fields e
      in buf @ u32_to_le (crc (drop LENGTH_PREFIX_SIZE buf)))"

definition corrupt :: "string \<Rightarrow> error" where
  "corrupt d = CorruptRecord 0 d"

text \<open>The \<open>read_bytes!\<close> macro: the next \<open>n\<close> bytes at the cursor, and the advanced cursor.\<close>

definition read_bytes :: "bytes \<Rightarrow> nat \<Rightarrow> nat \<Rightarrow> error + bytes \<times> nat" where
  "read_bytes protected cursor n =
     (if cursor + n > length protected then Inl (corrupt ''unexpected end of record body'')
      else Inr (take n (drop cursor protected), cursor + n))"

definition decode_event_type :: "bytes \<Rightarrow> error + rstring" where
  "decode_event_type et =
     (case from_utf8 et of
        Inl e \<Rightarrow> Inl (corrupt (''invalid UTF-8 in event type: '' @ utf8_error_display e))
      | Inr s \<Rightarrow> Inr s)"

definition decode_fields :: "bytes \<Rightarrow> error + recorded_event" where
  "decode_fields protected =
     and_then (read_bytes protected 0 8) (\<lambda>(gp, c).
     and_then (read_bytes protected c 8) (\<lambda>(ra, c).
     and_then (read_bytes protected c 16) (\<lambda>(sid, c).
     and_then (read_bytes protected c 8) (\<lambda>(sv, c).
     and_then (read_bytes protected c 16) (\<lambda>(eid, c).
     and_then (read_bytes protected c 2) (\<lambda>(etl, c).
     and_then (read_bytes protected c (unat (u16_from_le etl))) (\<lambda>(et, c).
     and_then (decode_event_type et) (\<lambda>event_type.
     and_then (read_bytes protected c 4) (\<lambda>(ml, c).
     and_then (read_bytes protected c (unat (u32_from_le ml))) (\<lambda>(meta, c).
     and_then (read_bytes protected c 4) (\<lambda>(pl, c).
     and_then (read_bytes protected c (unat (u32_from_le pl))) (\<lambda>(pay, c).
       Inr \<lparr>re_event_id = uuid_from_bytes eid, re_stream_id = uuid_from_bytes sid,
            re_stream_version = u64_from_le sv, re_global_position = u64_from_le gp,
            re_recorded_at = u64_from_le ra, re_event_type = event_type,
            re_metadata = meta, re_payload = pay\<rparr>))))))))))))"

definition decode_record :: "crc_fn \<Rightarrow> bytes \<Rightarrow> error + recorded_event decode_outcome" where
  "decode_record crc buf =
     (if length buf < LENGTH_PREFIX_SIZE then Inr Incomplete
      else let record_length = unat (u32_from_le (take 4 buf));
               total = LENGTH_PREFIX_SIZE + record_length
           in if length buf < total then Inr Incomplete
              else let body = take record_length (drop LENGTH_PREFIX_SIZE buf)
                   in if length body < 4
                      then Inl (corrupt ''record body too short for checksum'')
                      else let crc_offset = length body - 4;
                               stored_crc = u32_from_le (drop crc_offset body);
                               computed_crc = crc (take crc_offset body)
                           in if stored_crc \<noteq> computed_crc
                              then Inl (corrupt (''CRC32 mismatch: stored '' @ hex_010X stored_crc
                                                 @ '', computed '' @ hex_010X computed_crc))
                              else and_then (decode_fields (take crc_offset body))
                                     (\<lambda>event. Inr (Complete event total)))"

subsection \<open>Batch headers and footers\<close>

definition BATCH_HEADER_SIZE :: nat where "BATCH_HEADER_SIZE = 16"
definition BATCH_FOOTER_SIZE :: nat where "BATCH_FOOTER_SIZE = 8"

definition encode_batch_header :: "u32 \<Rightarrow> u64 \<Rightarrow> bytes" where
  "encode_batch_header record_count first_global_pos =
     BATCH_HEADER_MAGIC @ u32_to_le record_count @ u64_to_le first_global_pos"

definition decode_batch_header :: "bytes \<Rightarrow> error + batch_header decode_outcome" where
  "decode_batch_header buf =
     (if length buf < BATCH_HEADER_SIZE then Inr Incomplete
      else if take 4 buf \<noteq> BATCH_HEADER_MAGIC then Inl (corrupt ''wrong batch header magic bytes'')
      else Inr (Complete \<lparr>bh_record_count = u32_from_le (take 4 (drop 4 buf)),
                          bh_first_global_pos = u64_from_le (take 8 (drop 8 buf))\<rparr>
                         BATCH_HEADER_SIZE))"

definition encode_batch_footer :: "u32 \<Rightarrow> bytes" where
  "encode_batch_footer batch_crc = BATCH_FOOTER_MAGIC @ u32_to_le batch_crc"

definition decode_batch_footer :: "bytes \<Rightarrow> error + batch_footer decode_outcome" where
  "decode_batch_footer buf =
     (if length buf < BATCH_FOOTER_SIZE then Inr Incomplete
      else if take 4 buf \<noteq> BATCH_FOOTER_MAGIC then Inl (corrupt ''wrong batch footer magic bytes'')
      else Inr (Complete \<lparr>bf_batch_crc = u32_from_le (take 4 (drop 4 buf))\<rparr> BATCH_FOOTER_SIZE))"

subsection \<open>The frame contract\<close>

text \<open>
  What crash recovery needs of a frame format: a complete frame decodes to its value whatever
  follows it, a frame cut short is reported as incomplete, a decoder never consumes bytes it was
  not given, its answer depends on the consumed bytes only, and every failure is a
  \<open>CorruptRecord\<close>.
\<close>

locale frame_codec =
  fixes encode :: "'a \<Rightarrow> bytes" and decode :: "bytes \<Rightarrow> error + 'a decode_outcome"
    and ok :: "'a \<Rightarrow> bool"
  assumes decode_encode: "ok x \<Longrightarrow> decode (encode x @ rest) = Inr (Complete x (length (encode x)))"
    and decode_truncated: "ok x \<Longrightarrow> strict_prefix p (encode x) \<Longrightarrow> decode p = Inr Incomplete"
    and decode_consumed: "decode buf = Inr (Complete y n) \<Longrightarrow> 0 < n \<and> n \<le> length buf"
    and decode_local: "decode buf = Inr (Complete y n) \<Longrightarrow> decode (take n buf @ rest) = Inr (Complete y n)"
    and decode_error: "decode buf = Inl e \<Longrightarrow> \<exists>d. e = CorruptRecord 0 d"
begin

lemma decode_encode_exact: "ok x \<Longrightarrow> decode (encode x) = Inr (Complete x (length (encode x)))"
  using decode_encode [of x "[]"] by simp

lemma encode_nonempty: "ok x \<Longrightarrow> encode x \<noteq> []"
  using decode_encode_exact decode_consumed by fastforce

lemma decode_cong:
  assumes "decode buf = Inr (Complete y c)" and "take c buf' = take c buf"
  shows "decode buf' = Inr (Complete y c)"
proof -
  have "buf' = take c buf @ drop c buf'" using assms(2) by (metis append_take_drop_id)
  then show ?thesis using decode_local [OF assms(1)] by metis
qed

lemma encode_inj: "ok x \<Longrightarrow> ok y \<Longrightarrow> encode x @ r = encode y @ s \<Longrightarrow> x = y"
  using decode_encode [of x r] decode_encode [of y s] by simp

lemma not_strict_prefix: "ok x \<Longrightarrow> ok y \<Longrightarrow> \<not> strict_prefix (encode x) (encode y)"
  using decode_encode_exact decode_truncated by fastforce

end

subsection \<open>Round trips\<close>

definition record_ok :: "recorded_event \<Rightarrow> bool" where
  "record_ok e \<longleftrightarrow> utf8_valid (re_event_type e) \<and> length (re_event_type e) < 2 ^ 16 \<and>
     FIXED_BODY_SIZE + length (re_event_type e) + length (re_metadata e) + length (re_payload e)
       < 2 ^ 32"

lemma length_magic [simp, length_simps]:
  "length MAGIC = 4" "length BATCH_HEADER_MAGIC = 4" "length BATCH_FOOTER_MAGIC = 4"
  by (simp_all add: MAGIC_def BATCH_HEADER_MAGIC_def BATCH_FOOTER_MAGIC_def)

lemma length_encode_header [simp, length_simps]: "length encode_header = 8"
  by (simp add: encode_header_def)

lemma decode_encode_header: "decode_header (encode_header @ rest) = Inr FORMAT_VERSION"
  by (simp add: decode_header_def encode_header_def)

lemma length_record_fields [length_simps]:
  "length (record_fields e) = 66 + length (re_event_type e) + length (re_metadata e)
     + length (re_payload e)"
  by (simp add: record_fields_def)

lemma length_encode_record [length_simps]:
  "length (encode_record crc e) = 74 + length (re_event_type e) + length (re_metadata e)
     + length (re_payload e)"
  by (simp add: encode_record_def Let_def length_record_fields)

lemma length_batch_header [simp, length_simps]: "length (encode_batch_header c p) = 16"
  by (simp add: encode_batch_header_def)

lemma length_batch_footer [simp, length_simps]: "length (encode_batch_footer c) = 8"
  by (simp add: encode_batch_footer_def)

lemma read_bytes_at:
  "c = length pre \<Longrightarrow> n = length x \<Longrightarrow> read_bytes (pre @ x @ post) c n = Inr (x, c + n)"
  by (simp add: read_bytes_def)

lemma decode_fields_record_fields:
  assumes "record_ok e"
  shows "decode_fields (record_fields e) = Inr e"
proof -
  let ?gp = "u64_to_le (re_global_position e)" and ?ra = "u64_to_le (re_recorded_at e)"
  let ?sid = "uuid_as_bytes (re_stream_id e)" and ?sv = "u64_to_le (re_stream_version e)"
  let ?eid = "uuid_as_bytes (re_event_id e)" and ?et = "re_event_type e"
  let ?etl = "u16_to_le (of_nat (length ?et))" and ?ml = "u32_to_le (of_nat (length (re_metadata e)))"
  let ?pl = "u32_to_le (of_nat (length (re_payload e)))"
  have len: "unat (of_nat (length ?et) :: u16) = length ?et"
    "unat (of_nat (length (re_metadata e)) :: u32) = length (re_metadata e)"
    "unat (of_nat (length (re_payload e)) :: u32) = length (re_payload e)"
    using assms by (auto simp: record_ok_def FIXED_BODY_SIZE_def unat_of_nat)
  note at = read_bytes_at [where pre = "[]", simplified]
    read_bytes_at [where pre = ?gp, simplified]
    read_bytes_at [where pre = "?gp @ ?ra", simplified]
    read_bytes_at [where pre = "?gp @ ?ra @ ?sid", simplified]
    read_bytes_at [where pre = "?gp @ ?ra @ ?sid @ ?sv", simplified]
    read_bytes_at [where pre = "?gp @ ?ra @ ?sid @ ?sv @ ?eid", simplified]
    read_bytes_at [where pre = "?gp @ ?ra @ ?sid @ ?sv @ ?eid @ ?etl", simplified]
    read_bytes_at [where pre = "?gp @ ?ra @ ?sid @ ?sv @ ?eid @ ?etl @ ?et", simplified]
    read_bytes_at [where pre = "?gp @ ?ra @ ?sid @ ?sv @ ?eid @ ?etl @ ?et @ ?ml", simplified]
    read_bytes_at [where pre = "?gp @ ?ra @ ?sid @ ?sv @ ?eid @ ?etl @ ?et @ ?ml @ re_metadata e",
      simplified]
    read_bytes_at [where pre = "?gp @ ?ra @ ?sid @ ?sv @ ?eid @ ?etl @ ?et @ ?ml @ re_metadata e @ ?pl"
      and post = "[]", simplified]
  have "utf8_valid ?et" using assms by (simp add: record_ok_def)
  then show ?thesis
    by (simp add: decode_fields_def decode_event_type_def record_fields_def at len)
qed

lemma decode_record_encode:
  assumes "record_ok e"
  shows "decode_record crc (encode_record crc e @ rest)
         = Inr (Complete e (length (encode_record crc e)))"
proof -
  define n where
    "n = FIXED_BODY_SIZE + length (re_event_type e) + length (re_metadata e) + length (re_payload e)"
  have n: "unat (of_nat n :: u32) = n"
    using assms by (intro unat_of_nat_less) (simp add: record_ok_def n_def)
  have m: "length (record_fields e) + 4 = n"
    by (simp add: length_record_fields FIXED_BODY_SIZE_def n_def)
  let ?p = "u32_to_le (of_nat n)" and ?c = "u32_to_le (crc (record_fields e))"
  have enc: "encode_record crc e @ rest = ?p @ (record_fields e @ ?c) @ rest"
    by (simp only: encode_record_def Let_def LENGTH_PREFIX_SIZE_def append_assoc le32.drop_enc
        flip: n_def)
  have "decode_record crc (?p @ (record_fields e @ ?c) @ rest) = Inr (Complete e (4 + n))"
    using n m decode_fields_record_fields [OF assms]
    by (simp add: decode_record_def LENGTH_PREFIX_SIZE_def Let_def)
  then show ?thesis
    using enc m by (simp add: length_encode_record length_record_fields)
qed

text \<open>The only error a decoder raises is \<open>CorruptRecord\<close> with position 0.\<close>

definition corrupt_only :: "error + 'a \<Rightarrow> bool" where
  "corrupt_only r \<longleftrightarrow> (\<forall>e. r = Inl e \<longrightarrow> (\<exists>d. e = CorruptRecord 0 d))"

lemma corrupt_only_and_then:
  "corrupt_only r \<Longrightarrow> (\<And>v. corrupt_only (f v)) \<Longrightarrow> corrupt_only (and_then r f)"
  by (auto simp: corrupt_only_def and_then_eq_Inl)

lemma corrupt_only_read_bytes: "corrupt_only (read_bytes p c n)"
  by (simp add: corrupt_only_def read_bytes_def corrupt_def)

lemma corrupt_only_event_type: "corrupt_only (decode_event_type et)"
  by (auto simp: corrupt_only_def decode_event_type_def corrupt_def split: sum.splits)

lemma corrupt_only_Inr: "corrupt_only (Inr v)"
  by (simp add: corrupt_only_def)

lemma decode_fields_Inl: "decode_fields p = Inl e \<Longrightarrow> \<exists>d. e = CorruptRecord 0 d"
proof -
  have "corrupt_only (decode_fields p)"
    unfolding decode_fields_def split_def
    by (intro corrupt_only_and_then corrupt_only_read_bytes corrupt_only_event_type corrupt_only_Inr)
  then show "decode_fields p = Inl e \<Longrightarrow> \<exists>d. e = CorruptRecord 0 d"
    by (simp add: corrupt_only_def)
qed

lemma decode_record_Inl: "decode_record crc buf = Inl e \<Longrightarrow> \<exists>d. e = CorruptRecord 0 d"
  by (auto simp: decode_record_def Let_def corrupt_def and_then_eq_Inl
      dest: decode_fields_Inl split: if_splits)

lemma decode_record_CompleteD:
  assumes "decode_record crc buf = Inr (Complete e n)"
  shows "n = 4 + unat (u32_from_le (take 4 buf))" and "4 \<le> length buf" and "n \<le> length buf"
  using assms by (auto simp: decode_record_def Let_def and_then_eq_Inr LENGTH_PREFIX_SIZE_def
      split: if_splits)

lemma decode_record_local:
  assumes "decode_record crc buf = Inr (Complete e n)"
  shows "decode_record crc (take n buf @ rest) = Inr (Complete e n)"
proof -
  note d = decode_record_CompleteD [OF assms]
  let ?buf = "take n buf @ rest"
  have "take 4 ?buf = take 4 buf" using d by (simp add: take_window)
  moreover have "take (n - 4) (drop 4 ?buf) = take (n - 4) (drop 4 buf)"
    using d by (intro take_drop_window) auto
  moreover have "n \<le> length ?buf" using d by simp
  ultimately show ?thesis
    using assms d by (auto simp: decode_record_def Let_def LENGTH_PREFIX_SIZE_def split: if_splits)
qed

lemma decode_record_truncated:
  assumes ok: "record_ok e" and p: "strict_prefix p (encode_record crc e)"
  shows "decode_record crc p = Inr Incomplete"
proof (cases "length p < 4")
  case True
  then show ?thesis by (simp add: decode_record_def LENGTH_PREFIX_SIZE_def)
next
  case False
  from p obtain q where q: "encode_record crc e = p @ q" "q \<noteq> []"
    by (auto simp: strict_prefix_def prefix_def)
  from decode_record_encode [OF ok, of crc "[]"]
  have "length (encode_record crc e) = 4 + unat (u32_from_le (take 4 (encode_record crc e)))"
    by (auto dest: decode_record_CompleteD)
  then have "length p < 4 + unat (u32_from_le (take 4 p))"
    using q False by (cases q) auto
  with False show ?thesis by (simp add: decode_record_def LENGTH_PREFIX_SIZE_def Let_def)
qed

interpretation record_frame: frame_codec "encode_record crc" "decode_record crc" record_ok for crc
proof
  fix buf y n assume "decode_record crc buf = Inr (Complete y n)"
  then show "0 < n \<and> n \<le> length buf" by (auto dest: decode_record_CompleteD)
qed (auto intro: decode_record_encode decode_record_truncated decode_record_local decode_record_Inl)

text \<open>Batch headers and footers are fixed-size frames.\<close>

definition batch_header_bytes :: "batch_header \<Rightarrow> bytes" where
  "batch_header_bytes h = encode_batch_header (bh_record_count h) (bh_first_global_pos h)"

definition batch_footer_bytes :: "batch_footer \<Rightarrow> bytes" where
  "batch_footer_bytes f = encode_batch_footer (bf_batch_crc f)"

lemma strict_prefix_length_less: "strict_prefix p xs \<Longrightarrow> length p < length xs"
  by (auto simp: strict_prefix_def prefix_def)

interpretation header_frame: frame_codec batch_header_bytes decode_batch_header "\<lambda>_. True"
proof
  fix x rest
  show "decode_batch_header (batch_header_bytes x @ rest)
        = Inr (Complete x (length (batch_header_bytes x)))"
    by (simp add: decode_batch_header_def batch_header_bytes_def encode_batch_header_def
        BATCH_HEADER_SIZE_def)
next
  fix x p assume "strict_prefix p (batch_header_bytes x)"
  then show "decode_batch_header p = Inr Incomplete"
    by (auto dest: strict_prefix_length_less
        simp: decode_batch_header_def batch_header_bytes_def BATCH_HEADER_SIZE_def)
next
  fix buf y n rest assume d: "decode_batch_header buf = Inr (Complete y n)"
  then have "BATCH_HEADER_SIZE \<le> length buf" "n = BATCH_HEADER_SIZE"
    by (auto simp: decode_batch_header_def split: if_splits)
  with d show "decode_batch_header (take n buf @ rest) = Inr (Complete y n)"
    by (simp add: decode_batch_header_def BATCH_HEADER_SIZE_def take_window take_drop_window del: take_append drop_append
        split: if_splits)
qed (auto simp: decode_batch_header_def BATCH_HEADER_SIZE_def corrupt_def split: if_splits)

interpretation footer_frame: frame_codec batch_footer_bytes decode_batch_footer "\<lambda>_. True"
proof
  fix x rest
  show "decode_batch_footer (batch_footer_bytes x @ rest)
        = Inr (Complete x (length (batch_footer_bytes x)))"
    by (simp add: decode_batch_footer_def batch_footer_bytes_def encode_batch_footer_def
        BATCH_FOOTER_SIZE_def)
next
  fix x p assume "strict_prefix p (batch_footer_bytes x)"
  then show "decode_batch_footer p = Inr Incomplete"
    by (auto dest: strict_prefix_length_less
        simp: decode_batch_footer_def batch_footer_bytes_def BATCH_FOOTER_SIZE_def)
next
  fix buf y n rest assume d: "decode_batch_footer buf = Inr (Complete y n)"
  then have "BATCH_FOOTER_SIZE \<le> length buf" "n = BATCH_FOOTER_SIZE"
    by (auto simp: decode_batch_footer_def split: if_splits)
  with d show "decode_batch_footer (take n buf @ rest) = Inr (Complete y n)"
    by (simp add: decode_batch_footer_def BATCH_FOOTER_SIZE_def take_window take_drop_window del: take_append drop_append
        split: if_splits)
qed (auto simp: decode_batch_footer_def BATCH_FOOTER_SIZE_def corrupt_def split: if_splits)

subsection \<open>Properties\<close>

text \<open>A concrete checksum and a concrete event, for the instances below.\<close>

definition demo_hash :: crc_fn where
  "demo_hash bs = fold (\<lambda>b acc. 31 * acc + ucast b) bs 7"

definition demo_event :: recorded_event where
  "demo_event = \<lparr>re_event_id = 7, re_stream_id = 258, re_stream_version = 0,
     re_global_position = 5, re_recorded_at = 99, re_event_type = ascii ''Ab'',
     re_metadata = [1], re_payload = [2, 3]\<rparr>"

lemma utf8_valid_Ab: "utf8_valid (ascii ''Ab'')"
  by (rule utf8_valid_ascii) (simp add: ascii_def of_char_def)

lemma record_ok_demo: "record_ok demo_event"
  using utf8_valid_Ab by (simp add: record_ok_def demo_event_def FIXED_BODY_SIZE_def ascii_def)

text \<open>
  C22: an encoded event record decodes to the same event whatever bytes follow it in the log, and
  the decoder consumes exactly the encoded bytes.
\<close>

theorem record_roundtrip:
  assumes "record_ok e"
  shows "decode_record crc (encode_record crc e @ rest)
         = Inr (Complete e (length (encode_record crc e)))"
  using assms by (rule record_frame.decode_encode)

theorem record_roundtrip_witness:
  "record_ok demo_event \<and>
   decode_record demo_hash (encode_record demo_hash demo_event @ [1])
     = Inr (Complete demo_event 79)"
  using record_roundtrip [OF record_ok_demo, of demo_hash "[1]"] record_ok_demo
  by (simp add: length_encode_record demo_event_def ascii_def)

text \<open>
  C23: a record cut short anywhere before its last byte is reported as incomplete, never as corrupt
  and never as an event.
\<close>

theorem record_truncated:
  assumes "record_ok e" and "strict_prefix p (encode_record crc e)"
  shows "decode_record crc p = Inr Incomplete"
  using assms by (rule record_frame.decode_truncated)

theorem record_truncated_witness:
  "decode_record demo_hash (butlast (encode_record demo_hash demo_event)) = Inr Incomplete"
proof (rule record_truncated [OF record_ok_demo])
  have "encode_record demo_hash demo_event \<noteq> []"
    using record_frame.encode_nonempty record_ok_demo by blast
  then show "strict_prefix (butlast (encode_record demo_hash demo_event))
        (encode_record demo_hash demo_event)"
    by (metis append_butlast_last_id prefixI strict_prefix_def append_self_conv not_Cons_self2)
qed

lemma read_bytes_Inr:
  assumes "read_bytes p c n = Inr (x, c')"
  shows "length x = n" "c' = c + n" "c' \<le> length p" "take c' p = take c p @ x"
  using assms by (auto simp: read_bytes_def take_add split: if_splits)

lemma decode_event_type_Inr: "decode_event_type et = Inr s \<Longrightarrow> s = et \<and> utf8_valid et"
  by (auto simp: decode_event_type_def dest: from_utf8_Inr split: sum.splits)

lemma unat_less_16: "unat (w :: u16) < 2 ^ 16"
  using unsigned_less [of w, where ?'a = nat] by simp

text \<open>What the decoder reads is what the encoder would write for the event it returns.\<close>

lemma decode_fields_Inr:
  assumes "decode_fields p = Inr e"
  shows "prefix (record_fields e) p \<and> utf8_valid (re_event_type e) \<and> length (re_event_type e) < 2 ^ 16"
proof -
  from assms obtain gp ra sid sv eid etl et ml meta pl pay c1 c2 c3 c4 c5 c6 c7 c8 c9 c10 c11 event_type where
    r: "read_bytes p 0 8 = Inr (gp, c1)" "read_bytes p c1 8 = Inr (ra, c2)" "read_bytes p c2 16 = Inr (sid, c3)"
      "read_bytes p c3 8 = Inr (sv, c4)" "read_bytes p c4 16 = Inr (eid, c5)" "read_bytes p c5 2 = Inr (etl, c6)"
      "read_bytes p c6 (unat (u16_from_le etl)) = Inr (et, c7)" "read_bytes p c7 4 = Inr (ml, c8)"
      "read_bytes p c8 (unat (u32_from_le ml)) = Inr (meta, c9)" "read_bytes p c9 4 = Inr (pl, c10)"
      "read_bytes p c10 (unat (u32_from_le pl)) = Inr (pay, c11)"
    and t: "decode_event_type et = Inr event_type"
    and e: "e = \<lparr>re_event_id = uuid_from_bytes eid, re_stream_id = uuid_from_bytes sid,
            re_stream_version = u64_from_le sv, re_global_position = u64_from_le gp,
            re_recorded_at = u64_from_le ra, re_event_type = event_type,
            re_metadata = meta, re_payload = pay\<rparr>"
    by (auto simp: decode_fields_def and_then_eq_Inr)
  note len = r [THEN read_bytes_Inr(1)] and cat = r [THEN read_bytes_Inr(4)]
  have "take c11 p = record_fields e"
    unfolding cat record_fields_def e using decode_event_type_Inr [OF t] len
    by (simp add: le16.enc_dec le32.enc_dec le64.enc_dec uuid_raw.enc_dec)
  then have "prefix (record_fields e) p" by (metis take_is_prefix)
  moreover have "length et < 2 ^ 16" using len(7) unat_less_16 by simp
  ultimately show ?thesis using decode_event_type_Inr [OF t] e by simp
qed

text \<open>
  C24: the decoder only returns well-formed events. Whatever bytes it accepts, the event has a UTF-8 type
  and fields that fit the widths of the format, so that it can be encoded again; the bytes between the length
  prefix and the checksum start with exactly its fields; the checksum matches them; and no more than the
  buffer is consumed.
\<close>

theorem decoded_record_well_formed:
  assumes "decode_record crc buf = Inr (Complete e n)"
  shows "record_ok e \<and> 8 \<le> n \<and> n \<le> length buf \<and>
    prefix (record_fields e) (take (n - 8) (drop 4 buf)) \<and>
    u32_from_le (take 4 (drop (n - 4) buf)) = crc (take (n - 8) (drop 4 buf))"
proof -
  note d = decode_record_CompleteD [OF assms]
  let ?body = "take (n - 4) (drop 4 buf)"
  from assms d have body: "4 \<le> length ?body"
    and crc: "u32_from_le (drop (length ?body - 4) ?body) = crc (take (length ?body - 4) ?body)"
    and f: "decode_fields (take (length ?body - 4) ?body) = Inr e"
    by (auto simp: decode_record_def Let_def and_then_eq_Inr LENGTH_PREFIX_SIZE_def not_less
        split: if_splits)
  have len: "length ?body = n - 4" using d by simp
  have eq: "drop (n - 8) ?body = take 4 (drop (n - 4) buf)" "take (n - 8) ?body = take (n - 8) (drop 4 buf)"
    using body len by (auto simp: drop_take min_def)
  note fields = decode_fields_Inr [OF f]
  have "n < 4 + 2 ^ 32" using d(1) unsigned_less [of "u32_from_le (take 4 buf)", where ?'a = nat] by simp
  moreover have "length (record_fields e) \<le> n - 8"
    using prefix_length_le [OF conjunct1 [OF fields]] len by simp
  ultimately have "record_ok e"
    using fields body len by (simp add: record_ok_def length_record_fields FIXED_BODY_SIZE_def)
  with crc len body d eq fields show ?thesis by auto
qed

theorem decoded_record_well_formed_witness:
  "decode_record demo_hash (encode_record demo_hash demo_event) = Inr (Complete demo_event 79) \<and>
   prefix (record_fields demo_event) (take 71 (drop 4 (encode_record demo_hash demo_event)))"
proof -
  have d: "decode_record demo_hash (encode_record demo_hash demo_event) = Inr (Complete demo_event 79)"
    using record_frame.decode_encode [OF record_ok_demo, of demo_hash "[]"]
    by (simp add: length_encode_record demo_event_def ascii_def)
  from decoded_record_well_formed [OF d] d show ?thesis by simp
qed

text \<open>
  An eight-byte file header is accepted exactly when it is the one the current version writes;
  any other magic number or version is an \<open>InvalidHeader\<close> error.
\<close>

lemma decode_header_exact:
  assumes "length buf = 8"
  shows "case decode_header buf of
           Inr v \<Rightarrow> buf = encode_header \<and> v = FORMAT_VERSION
         | Inl e \<Rightarrow> buf \<noteq> encode_header \<and> (\<exists>m. e = InvalidHeader m)"
proof -
  have d: "take 4 (drop 4 buf) = drop 4 buf" using assms by simp
  have r: "u32_to_le (u32_from_le (drop 4 buf)) = drop 4 buf"
    using assms le_bytes_le_value [where ?'a = 32, of "drop 4 buf"]
    by (simp add: u32_to_le_def u32_from_le_def)
  have "buf = encode_header" if "take 4 buf = MAGIC" "u32_from_le (drop 4 buf) = FORMAT_VERSION"
    using append_take_drop_id [of 4 buf] r that by (simp add: encode_header_def)
  moreover have "decode_header encode_header = Inr FORMAT_VERSION"
    using decode_encode_header [of "[]"] by simp
  ultimately show ?thesis by (auto simp: decode_header_def Let_def d split: if_splits)
qed

end
