(* ===== verification/Store.thy ===== *)
theory Store
  imports Codec
begin

text \<open>
  The storage engine of \<open>src/store.rs\<close>: the in-memory index \<open>EventLog\<close>, the append-only file, the
  recovery loop of \<open>Store::open\<close>, the reads and \<open>Store::append\<close>.

  The file is its byte content. \<open>crc32fast\<close> is a parameter: \<open>crc_hash\<close> is \<open>crc32fast::hash\<close> and
  \<open>crc_chunks\<close> is the value a \<open>Hasher\<close> finalizes to after one \<open>update\<close> per chunk; \<open>crc_streaming\<close> is the
  documented relation between the two. Every system call that can fail is a field of an I/O
  script (\<open>open_io\<close>, \<open>append_io\<close>): \<open>None\<close> is success, and a failed write says how many bytes
  reached the file.
\<close>

record crc_ops =
  crc_hash :: crc_fn
  crc_chunks :: "bytes list \<Rightarrow> u32"

definition crc_streaming :: "crc_ops \<Rightarrow> bool" where
  "crc_streaming C \<longleftrightarrow> (\<forall>chunks. crc_chunks C chunks = crc_hash C (concat chunks))"

definition HEADER_SIZE :: nat where "HEADER_SIZE = 8"

record event_log =
  el_events :: "recorded_event list"
  el_streams :: "(uuid \<times> u64 list) list"

record store =
  st_file :: bytes
  st_log :: event_log

definition empty_log :: event_log where
  "empty_log = \<lparr>el_events = [], el_streams = []\<rparr>"

record open_io =
  oi_create :: "io_error option"
  oi_header_write :: "(nat \<times> io_error) option"
  oi_header_sync :: "io_error option"
  oi_open_parent :: "io_error option"
  oi_sync_parent :: "io_error option"
  oi_read :: "io_error option"
  oi_reopen :: "io_error option"
  oi_set_len :: "io_error option"
  oi_sync :: "io_error option"

record append_io =
  ai_seek :: "io_error option"
  ai_write :: "(nat \<times> io_error) option"
  ai_sync :: "io_error option"

definition open_io_ok :: open_io where
  "open_io_ok = \<lparr>oi_create = None, oi_header_write = None, oi_header_sync = None,
     oi_open_parent = None, oi_sync_parent = None, oi_read = None, oi_reopen = None,
     oi_set_len = None, oi_sync = None\<rparr>"

definition append_io_ok :: append_io where
  "append_io_ok = \<lparr>ai_seek = None, ai_write = None, ai_sync = None\<rparr>"

subsection \<open>Recovery\<close>

definition has_valid_batch_after :: "bytes \<Rightarrow> nat \<Rightarrow> bool" where
  "has_valid_batch_after data start \<longleftrightarrow>
     list_ex (\<lambda>probe. case decode_batch_header (drop probe data) of
                        Inr (Complete _ _) \<Rightarrow> True | _ \<Rightarrow> False)
       [start + 1 ..< length data]"

datatype records_outcome =
    RecordsOk "recorded_event list" nat
  | RecordsTorn
  | RecordsErr error

fun decode_batch_records ::
  "crc_fn \<Rightarrow> bytes \<Rightarrow> nat \<Rightarrow> nat \<Rightarrow> recorded_event list \<Rightarrow> records_outcome" where
  "decode_batch_records crc data 0 offset batch_events = RecordsOk batch_events offset"
| "decode_batch_records crc data (Suc n) offset batch_events =
     (case decode_record crc (drop offset data) of
        Inr (Complete v consumed) \<Rightarrow>
          decode_batch_records crc data n (offset + consumed) (batch_events @ [v])
      | Inr Incomplete \<Rightarrow> RecordsTorn
      | Inl (CorruptRecord _ _) \<Rightarrow> RecordsTorn
      | Inl e \<Rightarrow> RecordsErr e)"

text \<open>
  One turn of the loop up to the commit: \<open>BatchOk\<close> carries the batch's events and the offset after
  its footer, \<open>BatchTruncate\<close> is a call of \<open>truncate_and_return\<close>, \<open>BatchErr\<close> an error return.
\<close>

datatype batch_outcome =
    BatchOk "recorded_event list" nat
  | BatchTruncate
  | BatchErr error

definition recover_batch :: "crc_ops \<Rightarrow> bytes \<Rightarrow> nat \<Rightarrow> nat \<Rightarrow> batch_outcome" where
  "recover_batch C data n_events batch_start_offset =
     (case decode_batch_header (drop batch_start_offset data) of
        Inr Incomplete \<Rightarrow> BatchTruncate
      | Inl (CorruptRecord _ _) \<Rightarrow>
          if has_valid_batch_after data batch_start_offset
          then BatchErr (CorruptRecord (of_nat n_events)
                 ''mid-file corruption: valid batch follows corrupt data'')
          else BatchTruncate
      | Inl e \<Rightarrow> BatchErr e
      | Inr (Complete header consumed) \<Rightarrow>
          (case decode_batch_records (crc_hash C) data (unat (bh_record_count header))
                  (batch_start_offset + consumed) [] of
             RecordsTorn \<Rightarrow> BatchTruncate
           | RecordsErr e \<Rightarrow> BatchErr e
           | RecordsOk batch_events offset \<Rightarrow>
               (case decode_batch_footer (drop offset data) of
                  Inr Incomplete \<Rightarrow> BatchTruncate
                | Inl (CorruptRecord _ _) \<Rightarrow> BatchTruncate
                | Inl e \<Rightarrow> BatchErr e
                | Inr (Complete footer consumed') \<Rightarrow>
                    let header_plus_records =
                          take (offset + consumed' - BATCH_FOOTER_SIZE - batch_start_offset)
                            (drop batch_start_offset data)
                    in if bf_batch_crc footer \<noteq> crc_hash C header_plus_records then BatchTruncate
                       else BatchOk batch_events (offset + consumed'))))"

definition commit_event :: "recorded_event \<Rightarrow> event_log \<Rightarrow> event_log" where
  "commit_event e log =
     \<lparr>el_events = el_events log @ [e],
      el_streams = hm_entry (re_stream_id e) [] (\<lambda>ps. ps @ [re_global_position e]) (el_streams log)\<rparr>"

datatype recovery =
    Recovered event_log
  | TruncateAt nat event_log
  | RecoveryErr error

lemma decode_batch_records_offset:
  "decode_batch_records crc data n offset acc = RecordsOk es offset' \<Longrightarrow> offset \<le> offset'"
proof (induction n arbitrary: offset acc)
  case (Suc n)
  then show ?case
    by (force split: sum.splits decode_outcome.splits error.splits)
qed simp

lemma recover_batch_progress:
  assumes "recover_batch C data k start = BatchOk es offset'"
  shows "start < offset' \<and> offset' \<le> length data"
proof -
  from assms obtain h c off f c' where
    h: "decode_batch_header (drop start data) = Inr (Complete h c)" and
    r: "decode_batch_records (crc_hash C) data (unat (bh_record_count h)) (start + c) []
          = RecordsOk es off" and
    f: "decode_batch_footer (drop off data) = Inr (Complete f c')" and
    o: "offset' = off + c'"
    by (auto simp: recover_batch_def Let_def
        split: sum.splits decode_outcome.splits error.splits records_outcome.splits if_splits)
  have "start + c \<le> off" using r by (rule decode_batch_records_offset)
  with header_frame.decode_consumed [OF h] footer_frame.decode_consumed [OF f] o
  show ?thesis by auto
qed

function recover_loop :: "crc_ops \<Rightarrow> bytes \<Rightarrow> nat \<Rightarrow> event_log \<Rightarrow> recovery" where
  "recover_loop C data offset log =
     (if drop offset data = [] then Recovered log
      else case recover_batch C data (length (el_events log)) offset of
             BatchTruncate \<Rightarrow> TruncateAt offset log
           | BatchErr e \<Rightarrow> RecoveryErr e
           | BatchOk batch_events offset' \<Rightarrow>
               recover_loop C data offset' (fold commit_event batch_events log))"
  by pat_completeness auto
termination
  by (relation "measure (\<lambda>(C, data, offset, log). length data - offset)")
    (auto dest: recover_batch_progress)

declare recover_loop.simps [simp del]

definition truncate_and_return ::
  "open_io \<Rightarrow> bytes \<Rightarrow> nat \<Rightarrow> event_log \<Rightarrow> bytes option \<times> (error + store)" where
  "truncate_and_return io data truncate_to log =
     (case oi_reopen io of Some e \<Rightarrow> (Some data, Inl (Io e))
      | None \<Rightarrow>
     (case oi_set_len io of Some e \<Rightarrow> (Some data, Inl (Io e))
      | None \<Rightarrow>
     (let file = take truncate_to data in
      case oi_sync io of Some e \<Rightarrow> (Some file, Inl (Io e))
      | None \<Rightarrow> (Some file, Inr \<lparr>st_file = file, st_log = log\<rparr>))))"

definition open_new :: "open_io \<Rightarrow> bytes option \<times> (error + store)" where
  "open_new io =
     (case oi_create io of Some e \<Rightarrow> (None, Inl (Io e))
      | None \<Rightarrow>
     (case oi_header_write io of Some (n, e) \<Rightarrow> (Some (take n encode_header), Inl (Io e))
      | None \<Rightarrow>
     (let file = encode_header in
      case oi_header_sync io of Some e \<Rightarrow> (Some file, Inl (Io e))
      | None \<Rightarrow>
     (case oi_open_parent io of Some e \<Rightarrow> (Some file, Inl (Io e))
      | None \<Rightarrow>
     (case oi_sync_parent io of Some e \<Rightarrow> (Some file, Inl (Io e))
      | None \<Rightarrow> (Some file, Inr \<lparr>st_file = file, st_log = empty_log\<rparr>))))))"

definition open_existing :: "crc_ops \<Rightarrow> open_io \<Rightarrow> bytes \<Rightarrow> bytes option \<times> (error + store)" where
  "open_existing C io data =
     (case oi_read io of Some e \<Rightarrow> (Some data, Inl (Io e))
      | None \<Rightarrow>
      if length data < HEADER_SIZE
      then (Some data, Inl (InvalidHeader
              (''file too short for header: '' @ dec_str (length data) @ '' bytes'')))
      else case decode_header (take HEADER_SIZE data) of
             Inl e \<Rightarrow> (Some data, Inl e)
           | Inr _ \<Rightarrow>
               (case recover_loop C data HEADER_SIZE empty_log of
                  RecoveryErr e \<Rightarrow> (Some data, Inl e)
                | TruncateAt offset log \<Rightarrow> truncate_and_return io data offset log
                | Recovered log \<Rightarrow>
                    (case oi_reopen io of Some e \<Rightarrow> (Some data, Inl (Io e))
                     | None \<Rightarrow> (Some data, Inr \<lparr>st_file = data, st_log = log\<rparr>))))"

text \<open>\<open>Store::open\<close>: the path's content (\<open>None\<close>: no such file) and the result.\<close>

definition store_open :: "crc_ops \<Rightarrow> open_io \<Rightarrow> bytes option \<Rightarrow> bytes option \<times> (error + store)" where
  "store_open C io file =
     (case file of None \<Rightarrow> open_new io | Some data \<Rightarrow> open_existing C io data)"

subsection \<open>Reads\<close>

definition store_stream_version :: "store \<Rightarrow> uuid \<Rightarrow> u64 option" where
  "store_stream_version s sid =
     map_option (\<lambda>ps. of_nat (length ps) - 1) (map_of (el_streams (st_log s)) sid)"

definition store_global_position :: "store \<Rightarrow> u64" where
  "store_global_position s = of_nat (length (el_events (st_log s)))"

definition store_read_all :: "store \<Rightarrow> u64 \<Rightarrow> u64 \<Rightarrow> recorded_event list option" where
  "store_read_all s from_position max_count =
     (let len = of_nat (length (el_events (st_log s))) :: u64;
          start = min from_position len;
          stop = min (saturating_add from_position max_count) len
      in slice (el_events (st_log s)) (unat start) (unat stop))"

definition store_read_stream ::
  "store \<Rightarrow> uuid \<Rightarrow> u64 \<Rightarrow> u64 \<Rightarrow> (error + recorded_event list) option" where
  "store_read_stream s sid from_version max_count =
     (case map_of (el_streams (st_log s)) sid of
        None \<Rightarrow> Some (Inl (StreamNotFound sid))
      | Some ps \<Rightarrow>
          (let len = of_nat (length ps) :: u64;
               start = min from_version len;
               stop = min (saturating_add from_version max_count) len
           in case slice ps (unat start) (unat stop) of
                None \<Rightarrow> None
              | Some window \<Rightarrow>
                  map_option Inr (index_all (el_events (st_log s)) (map unat window))))"

subsection \<open>Append\<close>

text \<open>Step 1: the concurrency check and the next positions.\<close>

definition check_expected_version ::
  "event_log \<Rightarrow> uuid \<Rightarrow> expected_version \<Rightarrow> error + u64 \<times> u64" where
  "check_expected_version log sid ev =
     (let stream_positions = map_of (el_streams log) sid;
          next_global = of_nat (length (el_events log));
          next_stream_version = (case stream_positions of None \<Rightarrow> 0 | Some p \<Rightarrow> of_nat (length p))
      in case ev of
           Any \<Rightarrow> Inr (next_global, next_stream_version)
         | NoStream \<Rightarrow>
             (case stream_positions of
                Some p \<Rightarrow> Inl (WrongExpectedVersion ''NoStream''
                                 (u64_to_string (of_nat (length p) - 1)))
              | None \<Rightarrow> Inr (next_global, next_stream_version))
         | Exact n \<Rightarrow>
             (case stream_positions of
                None \<Rightarrow> Inl (WrongExpectedVersion (u64_to_string n) ''NoStream'')
              | Some p \<Rightarrow>
                  (let current_version = of_nat (length p) - 1
                   in if current_version \<noteq> n
                      then Inl (WrongExpectedVersion (u64_to_string n)
                                  (u64_to_string current_version))
                      else Inr (next_global, next_stream_version))))"

text \<open>Step 2: validation and encoding, in order; the first bad event ends the loop.\<close>

fun build_records ::
  "crc_fn \<Rightarrow> uuid \<Rightarrow> u64 \<Rightarrow> proposed_event list \<Rightarrow> u64 \<Rightarrow> u64
     \<Rightarrow> error + recorded_event list \<times> bytes" where
  "build_records crc sid recorded_at [] next_global next_stream_version = Inr ([], [])"
| "build_records crc sid recorded_at (p # ps) next_global next_stream_version =
     (if pe_event_type p = [] then Inl (InvalidArgument ''event type must not be empty'')
      else if length (pe_event_type p) > MAX_EVENT_TYPE_LEN
      then Inl (InvalidArgument (''event type exceeds '' @ dec_str MAX_EVENT_TYPE_LEN
                  @ '' byte limit: '' @ dec_str (length (pe_event_type p)) @ '' bytes''))
      else let event = \<lparr>re_event_id = pe_event_id p, re_stream_id = sid,
                        re_stream_version = next_stream_version,
                        re_global_position = next_global, re_recorded_at = recorded_at,
                        re_event_type = pe_event_type p, re_metadata = pe_metadata p,
                        re_payload = pe_payload p\<rparr>;
               encoded = encode_record crc event
           in if length encoded > MAX_EVENT_SIZE
              then Inl (EventTooLarge (length encoded) MAX_EVENT_SIZE)
              else and_then (build_records crc sid recorded_at ps (next_global + 1)
                               (next_stream_version + 1))
                     (\<lambda>(recorded, encoded_records).
                        Inr (event # recorded, encoded @ encoded_records)))"

text \<open>Step 3: the batch envelope.\<close>

definition encode_batch :: "crc_ops \<Rightarrow> nat \<Rightarrow> u64 \<Rightarrow> bytes \<Rightarrow> bytes" where
  "encode_batch C n first_global_pos encoded_records =
     (let header = encode_batch_header (of_nat n) first_global_pos;
          footer = encode_batch_footer (crc_chunks C [header, encoded_records])
      in header @ encoded_records @ footer)"

text \<open>Step 5: the index update under the write lock.\<close>

definition update_index :: "uuid \<Rightarrow> recorded_event list \<Rightarrow> event_log \<Rightarrow> event_log" where
  "update_index sid recorded log =
     \<lparr>el_events = el_events log @ recorded,
      el_streams = hm_entry sid [] (\<lambda>ps. ps @ map re_global_position recorded) (el_streams log)\<rparr>"

definition store_append ::
  "crc_ops \<Rightarrow> append_io \<Rightarrow> store \<Rightarrow> uuid \<Rightarrow> expected_version \<Rightarrow> u64 \<Rightarrow> proposed_event list
     \<Rightarrow> store \<times> (error + recorded_event list)" where
  "store_append C io s sid ev recorded_at proposed =
     (case check_expected_version (st_log s) sid ev of
        Inl e \<Rightarrow> (s, Inl e)
      | Inr (next_global, next_stream_version) \<Rightarrow>
     (case build_records (crc_hash C) sid recorded_at proposed next_global next_stream_version of
        Inl e \<Rightarrow> (s, Inl e)
      | Inr (recorded, encoded_records) \<Rightarrow>
     (let batch = encode_batch C (length recorded) next_global encoded_records in
      case ai_seek io of Some e \<Rightarrow> (s, Inl (Io e))
      | None \<Rightarrow>
     (case ai_write io of Some (n, e) \<Rightarrow> (s\<lparr>st_file := st_file s @ take n batch\<rparr>, Inl (Io e))
      | None \<Rightarrow>
     (let s' = s\<lparr>st_file := st_file s @ batch\<rparr> in
      case ai_sync io of Some e \<Rightarrow> (s', Inl (Io e))
      | None \<Rightarrow> (s'\<lparr>st_log := update_index sid recorded (st_log s)\<rparr>, Inr recorded))))))"

definition store_log_file_len :: "io_error option \<Rightarrow> store \<Rightarrow> error + u64" where
  "store_log_file_len metadata_fault s =
     (case metadata_fault of Some e \<Rightarrow> Inl (Io e) | None \<Rightarrow> Inr (of_nat (length (st_file s))))"

subsection \<open>What append builds\<close>

definition mk_recorded :: "uuid \<Rightarrow> u64 \<Rightarrow> proposed_event \<Rightarrow> u64 \<Rightarrow> u64 \<Rightarrow> recorded_event" where
  "mk_recorded sid ts p g v =
     \<lparr>re_event_id = pe_event_id p, re_stream_id = sid, re_stream_version = v,
      re_global_position = g, re_recorded_at = ts, re_event_type = pe_event_type p,
      re_metadata = pe_metadata p, re_payload = pe_payload p\<rparr>"

lemma mk_recorded_sel [simp]:
  "re_event_id (mk_recorded sid ts p g v) = pe_event_id p"
  "re_stream_id (mk_recorded sid ts p g v) = sid"
  "re_stream_version (mk_recorded sid ts p g v) = v"
  "re_global_position (mk_recorded sid ts p g v) = g"
  "re_recorded_at (mk_recorded sid ts p g v) = ts"
  "re_event_type (mk_recorded sid ts p g v) = pe_event_type p"
  "re_metadata (mk_recorded sid ts p g v) = pe_metadata p"
  "re_payload (mk_recorded sid ts p g v) = pe_payload p"
  by (simp_all add: mk_recorded_def)

text \<open>The abstract append: consecutive positions and versions from the given starts.\<close>

fun number_events :: "uuid \<Rightarrow> u64 \<Rightarrow> proposed_event list \<Rightarrow> u64 \<Rightarrow> u64 \<Rightarrow> recorded_event list" where
  "number_events sid ts [] g v = []"
| "number_events sid ts (p # ps) g v =
     mk_recorded sid ts p g v # number_events sid ts ps (g + 1) (v + 1)"

definition event_valid :: "proposed_event \<Rightarrow> bool" where
  "event_valid p \<longleftrightarrow> pe_event_type p \<noteq> [] \<and> length (pe_event_type p) \<le> MAX_EVENT_TYPE_LEN \<and>
     74 + length (pe_event_type p) + length (pe_metadata p) + length (pe_payload p) \<le> MAX_EVENT_SIZE"

lemma length_number_events [simp]: "length (number_events sid ts ps g v) = length ps"
  by (induction ps arbitrary: g v) auto

lemma nth_number_events:
  "i < length ps \<Longrightarrow>
   number_events sid ts ps g v ! i = mk_recorded sid ts (ps ! i) (g + of_nat i) (v + of_nat i)"
proof (induction ps arbitrary: g v i)
  case (Cons p ps)
  then show ?case by (cases i) (auto simp: algebra_simps)
qed simp

lemma number_events_stream: "e \<in> set (number_events sid ts ps g v) \<Longrightarrow> re_stream_id e = sid"
  by (induction ps arbitrary: g v) auto

lemma map_event_id_number_events [simp]:
  "map re_event_id (number_events sid ts ps g v) = map pe_event_id ps"
  by (induction ps arbitrary: g v) auto

lemma build_records_Inr_iff:
  "build_records crc sid ts ps g v = Inr (rs, enc) \<longleftrightarrow>
     (\<forall>p \<in> set ps. event_valid p) \<and> rs = number_events sid ts ps g v \<and>
     enc = concat (map (encode_record crc) rs)"
proof (induction ps arbitrary: g v rs enc)
  case (Cons p ps)
  show ?case
    by (auto simp: Let_def and_then_eq_Inr Cons.IH event_valid_def length_encode_record
        MAX_EVENT_TYPE_LEN_def MAX_EVENT_SIZE_def simp flip: mk_recorded_def split: prod.splits)
qed auto

lemma build_records_Inl_iff:
  "(\<exists>e. build_records crc sid ts ps g v = Inl e) \<longleftrightarrow> (\<exists>p \<in> set ps. \<not> event_valid p)"
proof -
  have "(\<exists>e. build_records crc sid ts ps g v = Inl e) \<longleftrightarrow>
        \<not> (\<exists>rs enc. build_records crc sid ts ps g v = Inr (rs, enc))"
    by (cases "build_records crc sid ts ps g v") auto
  then show ?thesis by (simp add: build_records_Inr_iff)
qed

lemma build_records_Inl_kind:
  "build_records crc sid ts ps g v = Inl e \<Longrightarrow>
   (\<exists>m. e = InvalidArgument m) \<or> (\<exists>n > MAX_EVENT_SIZE. e = EventTooLarge n MAX_EVENT_SIZE)"
  by (induction ps arbitrary: g v) (auto simp: Let_def and_then_eq_Inl split: if_splits)

text \<open>The two sides of the concurrency check.\<close>

definition version_matches :: "event_log \<Rightarrow> uuid \<Rightarrow> expected_version \<Rightarrow> bool" where
  "version_matches log sid ev \<longleftrightarrow>
     (case ev of Any \<Rightarrow> True
      | NoStream \<Rightarrow> map_of (el_streams log) sid = None
      | Exact n \<Rightarrow> (\<exists>ps. map_of (el_streams log) sid = Some ps \<and> of_nat (length ps) - 1 = n))"

definition next_version :: "event_log \<Rightarrow> uuid \<Rightarrow> u64" where
  "next_version log sid = (case map_of (el_streams log) sid of None \<Rightarrow> 0 | Some ps \<Rightarrow> of_nat (length ps))"

lemma check_expected_version_Inr_iff:
  "check_expected_version log sid ev = Inr (g, v) \<longleftrightarrow>
     version_matches log sid ev \<and> g = of_nat (length (el_events log)) \<and> v = next_version log sid"
  by (auto simp: check_expected_version_def version_matches_def next_version_def Let_def
      split: expected_version.splits option.splits)

lemma check_expected_version_Inl:
  "check_expected_version log sid ev = Inl e \<Longrightarrow>
     \<not> version_matches log sid ev \<and> (\<exists>x a. e = WrongExpectedVersion x a)"
  by (auto simp: check_expected_version_def version_matches_def Let_def
      split: expected_version.splits option.splits if_splits)

subsection \<open>The index invariant\<close>

text \<open>
  The stream index holds, for every stream with an event and for no other, the global positions
  of its events in order; every event carries its own index as global position and the number of
  earlier events of its stream as stream version.
\<close>

definition stream_events :: "recorded_event list \<Rightarrow> uuid \<Rightarrow> recorded_event list" where
  "stream_events es sid = filter (\<lambda>e. re_stream_id e = sid) es"

definition numbered :: "recorded_event list \<Rightarrow> bool" where
  "numbered es \<longleftrightarrow>
     (\<forall>i < length es. re_global_position (es ! i) = of_nat i \<and>
        re_stream_version (es ! i) = of_nat (length (stream_events (take i es) (re_stream_id (es ! i)))))"

definition index_ok :: "event_log \<Rightarrow> bool" where
  "index_ok log \<longleftrightarrow> distinct (map fst (el_streams log)) \<and>
     (\<forall>sid. map_of (el_streams log) sid =
        (let ps = map re_global_position (stream_events (el_events log) sid)
         in if ps = [] then None else Some ps))"

definition log_wf :: "event_log \<Rightarrow> bool" where
  "log_wf log \<longleftrightarrow> length (el_events log) < 2 ^ 64 \<and> numbered (el_events log) \<and> index_ok log"

lemma log_wf_empty [simp]: "log_wf empty_log"
  by (simp add: log_wf_def empty_log_def numbered_def index_ok_def stream_events_def)

lemma stream_events_append [simp]:
  "stream_events (es @ fs) sid = stream_events es sid @ stream_events fs sid"
  by (simp add: stream_events_def)

lemma stream_events_same:
  "\<forall>e \<in> set fs. re_stream_id e = sid \<Longrightarrow> stream_events fs sid' = (if sid' = sid then fs else [])"
  by (auto simp: stream_events_def filter_empty_conv filter_id_conv)

lemma next_version_index_ok:
  "index_ok log \<Longrightarrow> next_version log sid = of_nat (length (stream_events (el_events log) sid))"
  by (auto simp: index_ok_def next_version_def Let_def)

lemma numbered_append:
  assumes es: "numbered es"
    and fs: "\<And>i. i < length fs \<Longrightarrow> re_stream_id (fs ! i) = sid \<and>
          re_global_position (fs ! i) = of_nat (length es) + of_nat i \<and>
          re_stream_version (fs ! i) = of_nat (length (stream_events es sid)) + of_nat i"
  shows "numbered (es @ fs)"
  unfolding numbered_def
proof (intro allI impI)
  fix i assume i: "i < length (es @ fs)"
  show "re_global_position ((es @ fs) ! i) = of_nat i \<and>
        re_stream_version ((es @ fs) ! i)
          = of_nat (length (stream_events (take i (es @ fs)) (re_stream_id ((es @ fs) ! i))))"
  proof (cases "i < length es")
    case True
    with es show ?thesis by (simp add: numbered_def nth_append)
  next
    case False
    define j where "j = i - length es"
    have j: "i = length es + j" "j < length fs" using False i by (auto simp: j_def)
    have "\<forall>e \<in> set (take j fs). re_stream_id e = sid"
      using fs j by (auto simp: in_set_conv_nth)
    then have "stream_events (take j fs) sid = take j fs"
      by (simp add: stream_events_def filter_id_conv)
    with j fs [of j] show ?thesis by (simp add: min_def)
  qed
qed

lemma index_ok_update:
  assumes "index_ok log" and "fs \<noteq> []" and "\<forall>e \<in> set fs. re_stream_id e = sid"
  shows "index_ok (update_index sid fs log)"
  using assms(1,2) stream_events_same [OF assms(3)]
  by (auto simp: index_ok_def update_index_def map_of_hm_entry Let_def distinct_hm_entry)

lemma log_wf_update:
  assumes wf: "log_wf log" and ps: "ps \<noteq> []" and len: "length (el_events log) + length ps < 2 ^ 64"
  shows "log_wf (update_index sid
           (number_events sid ts ps (of_nat (length (el_events log))) (next_version log sid)) log)"
proof -
  let ?fs = "number_events sid ts ps (of_nat (length (el_events log))) (next_version log sid)"
  have io: "index_ok log" and nb: "numbered (el_events log)" using wf by (auto simp: log_wf_def)
  have "numbered (el_events log @ ?fs)"
    using nb by (rule numbered_append) (simp add: nth_number_events next_version_index_ok [OF io])
  moreover have "?fs \<noteq> []" using ps by (cases ps) auto
  ultimately show ?thesis
    using io len by (simp add: log_wf_def index_ok_update number_events_stream)
      (simp add: update_index_def)
qed

subsection \<open>Reads on a well-formed index\<close>

definition log_read_stream :: "event_log \<Rightarrow> uuid \<Rightarrow> u64 \<Rightarrow> u64 \<Rightarrow> error + recorded_event list" where
  "log_read_stream log sid a count =
     (let es = stream_events (el_events log) sid in
      if es = [] then Inl (StreamNotFound sid) else Inr (take (unat count) (drop (unat a) es)))"

lemma log_wf_position:
  assumes "log_wf log" and "e \<in> set (el_events log)"
  shows "unat (re_global_position e) < length (el_events log)"
    and "el_events log ! unat (re_global_position e) = e"
proof -
  obtain i where i: "i < length (el_events log)" "e = el_events log ! i"
    using assms(2) by (auto simp: in_set_conv_nth)
  then have "unat (of_nat i :: u64) = i"
    using assms(1) by (intro unat_of_nat_less) (auto simp: log_wf_def)
  with i assms(1) show "unat (re_global_position e) < length (el_events log)"
    and "el_events log ! unat (re_global_position e) = e"
    by (auto simp: log_wf_def numbered_def)
qed

lemma map_of_streams:
  "log_wf log \<Longrightarrow> map_of (el_streams log) sid =
     (let es = stream_events (el_events log) sid
      in if es = [] then None else Some (map re_global_position es))"
  by (simp add: log_wf_def index_ok_def Let_def)

lemma length_stream_events: "length (stream_events es sid) \<le> length es"
  by (simp add: stream_events_def)

lemma index_all_stream:
  assumes wf: "log_wf log" and sub: "set es \<subseteq> set (el_events log)"
  shows "index_all (el_events log) (map (unat \<circ> re_global_position) es) = Some es"
proof -
  have "map ((!) (el_events log)) (map (unat \<circ> re_global_position) es) = es"
    unfolding map_map using sub log_wf_position(2) [OF wf] by (intro map_idI) auto
  moreover have "\<forall>i \<in> set (map (unat \<circ> re_global_position) es). i < length (el_events log)"
    using sub log_wf_position(1) [OF wf] by auto
  ultimately show ?thesis by (simp add: index_all_map)
qed

lemma stream_window_indexed:
  assumes wf: "log_wf log" and ps: "map_of (el_streams log) sid = Some ps"
  shows "slice ps (unat (min a (of_nat (length ps))))
           (unat (min (saturating_add a count) (of_nat (length ps))))
         = Some (map re_global_position
             (take (unat count) (drop (unat a) (stream_events (el_events log) sid))))"
    and "index_all (el_events log)
           (map unat (map re_global_position
             (take (unat count) (drop (unat a) (stream_events (el_events log) sid)))))
         = Some (take (unat count) (drop (unat a) (stream_events (el_events log) sid)))"
proof -
  let ?es = "stream_events (el_events log) sid"
  have p: "ps = map re_global_position ?es"
    using ps map_of_streams [OF wf, of sid] by (auto simp: Let_def split: if_splits)
  have "length ?es < 2 ^ 64"
    using wf length_stream_events [of "el_events log" sid] by (simp add: log_wf_def)
  then show "slice ps (unat (min a (of_nat (length ps))))
           (unat (min (saturating_add a count) (of_nat (length ps))))
         = Some (map re_global_position (take (unat count) (drop (unat a) ?es)))"
    using p by (subst slice_window) (simp_all add: take_map drop_map)
  have "set (take (unat count) (drop (unat a) ?es)) \<subseteq> set (el_events log)"
    by (auto simp: stream_events_def dest!: in_set_takeD in_set_dropD)
  from index_all_stream [OF wf this]
  show "index_all (el_events log)
           (map unat (map re_global_position (take (unat count) (drop (unat a) ?es))))
         = Some (take (unat count) (drop (unat a) ?es))"
    by simp
qed

lemma store_read_all_eq:
  "log_wf (st_log s) \<Longrightarrow>
   store_read_all s a count = Some (take (unat count) (drop (unat a) (el_events (st_log s))))"
  by (simp add: store_read_all_def Let_def slice_window log_wf_def)

lemma store_read_stream_eq:
  assumes "log_wf (st_log s)"
  shows "store_read_stream s sid a count = Some (log_read_stream (st_log s) sid a count)"
proof (cases "map_of (el_streams (st_log s)) sid")
  case None
  then show ?thesis
    using map_of_streams [OF assms, of sid]
    by (auto simp: store_read_stream_def log_read_stream_def Let_def split: if_splits)
next
  case (Some ps)
  then have "stream_events (el_events (st_log s)) sid \<noteq> []"
    using map_of_streams [OF assms, of sid] by (auto simp: Let_def split: if_splits)
  with Some stream_window_indexed [OF assms Some] show ?thesis
    by (simp add: store_read_stream_def log_read_stream_def Let_def)
qed

subsection \<open>Append, branch by branch\<close>

definition batch_bytes :: "crc_ops \<Rightarrow> u64 \<Rightarrow> recorded_event list \<Rightarrow> bytes" where
  "batch_bytes C g rs = encode_batch C (length rs) g (concat (map (encode_record (crc_hash C)) rs))"

definition appended :: "store \<Rightarrow> uuid \<Rightarrow> u64 \<Rightarrow> proposed_event list \<Rightarrow> recorded_event list" where
  "appended s sid ts ps =
     number_events sid ts ps (of_nat (length (el_events (st_log s)))) (next_version (st_log s) sid)"

lemma length_appended [simp]: "length (appended s sid ts ps) = length ps"
  by (simp add: appended_def)

lemma store_append_eq:
  "store_append C io s sid ev ts ps =
     (case check_expected_version (st_log s) sid ev of
        Inl e \<Rightarrow> (s, Inl e)
      | Inr _ \<Rightarrow>
          if \<exists>p \<in> set ps. \<not> event_valid p
          then (s, Inl (projl (build_records (crc_hash C) sid ts ps
                          (of_nat (length (el_events (st_log s)))) (next_version (st_log s) sid))))
          else let batch = batch_bytes C (of_nat (length (el_events (st_log s)))) (appended s sid ts ps)
               in case (ai_seek io, ai_write io, ai_sync io) of
                    (Some e, _, _) \<Rightarrow> (s, Inl (Io e))
                  | (None, Some (n, e), _) \<Rightarrow> (s\<lparr>st_file := st_file s @ take n batch\<rparr>, Inl (Io e))
                  | (None, None, Some e) \<Rightarrow> (s\<lparr>st_file := st_file s @ batch\<rparr>, Inl (Io e))
                  | (None, None, None) \<Rightarrow>
                      (\<lparr>st_file = st_file s @ batch,
                        st_log = update_index sid (appended s sid ts ps) (st_log s)\<rparr>,
                       Inr (appended s sid ts ps)))"
proof (cases "check_expected_version (st_log s) sid ev")
  case (Inr gv)
  let ?g = "of_nat (length (el_events (st_log s)))" and ?v = "next_version (st_log s) sid"
  have gv: "gv = (?g, ?v)"
    using Inr check_expected_version_Inr_iff [of "st_log s" sid ev "fst gv" "snd gv"] by (simp add: prod_eq_iff)
  let ?b = "build_records (crc_hash C) sid ts ps ?g ?v"
  show ?thesis
  proof (cases "\<exists>p \<in> set ps. \<not> event_valid p")
    case True
    then obtain e where "?b = Inl e" using build_records_Inl_iff by blast
    with Inr gv True show ?thesis by (simp add: store_append_def)
  next
    case False
    then have "?b = Inr (appended s sid ts ps, concat (map (encode_record (crc_hash C)) (appended s sid ts ps)))"
      by (simp add: build_records_Inr_iff appended_def)
    with Inr gv False show ?thesis
      by (simp add: store_append_def batch_bytes_def Let_def split: option.splits prod.splits)
  qed
qed (simp add: store_append_def)

lemma store_append_Inr_iff:
  "store_append C io s sid ev ts ps = (s', Inr rs) \<longleftrightarrow>
     version_matches (st_log s) sid ev \<and> (\<forall>p \<in> set ps. event_valid p) \<and>
     ai_seek io = None \<and> ai_write io = None \<and> ai_sync io = None \<and>
     rs = appended s sid ts ps \<and>
     s' = \<lparr>st_file = st_file s @ batch_bytes C (of_nat (length (el_events (st_log s)))) rs,
           st_log = update_index sid rs (st_log s)\<rparr>"
  (is "?L \<longleftrightarrow> ?R")
proof (cases "check_expected_version (st_log s) sid ev")
  case (Inl e)
  then show ?thesis by (auto simp: store_append_def dest: check_expected_version_Inl)
next
  case (Inr gv)
  then have "version_matches (st_log s) sid ev"
    using check_expected_version_Inr_iff [of "st_log s" sid ev "fst gv" "snd gv"] by simp
  with Inr show ?thesis
    by (auto simp: store_append_eq Let_def split: option.splits)
qed

lemma store_append_Inl_log:
  "store_append C io s sid ev ts ps = (s', Inl e) \<Longrightarrow> st_log s' = st_log s"
  by (auto simp: store_append_eq Let_def split: sum.splits option.splits if_splits prod.splits)

subsection \<open>Properties\<close>

definition demo_crc :: crc_ops where
  "demo_crc = \<lparr>crc_hash = demo_hash, crc_chunks = (\<lambda>chunks. demo_hash (concat chunks))\<rparr>"

definition demo_proposed :: "nat \<Rightarrow> proposed_event" where
  "demo_proposed n = \<lparr>pe_event_id = of_nat n, pe_event_type = ascii ''Ab'', pe_metadata = [],
     pe_payload = [2]\<rparr>"

definition demo_store :: store where
  "demo_store = \<lparr>st_file = encode_header, st_log = empty_log\<rparr>"

lemma dec_str_3: "dec_str 3 = ''3''"
  by code_simp

lemma crc_streaming_demo: "crc_streaming demo_crc"
  by (simp add: crc_streaming_def demo_crc_def)

lemma event_valid_demo [simp]: "event_valid (demo_proposed n)"
  by (simp add: event_valid_def demo_proposed_def ascii_def MAX_EVENT_TYPE_LEN_def MAX_EVENT_SIZE_def)

lemma log_wf_demo [simp]: "log_wf (st_log demo_store)"
  by (simp add: demo_store_def)

lemma demo_append:
  "store_append C append_io_ok demo_store 1 Any 9 [demo_proposed 4, demo_proposed 5]
   = (\<lparr>st_file = encode_header @ batch_bytes C 0 (appended demo_store 1 9 [demo_proposed 4, demo_proposed 5]),
       st_log = update_index 1 (appended demo_store 1 9 [demo_proposed 4, demo_proposed 5]) empty_log\<rparr>,
      Inr (appended demo_store 1 9 [demo_proposed 4, demo_proposed 5]))"
  unfolding store_append_Inr_iff
  by (simp add: version_matches_def append_io_ok_def demo_store_def empty_log_def)

lemma wrong_version_result:
  assumes "\<not> version_matches (st_log s) sid ev"
  shows "store_append C io s sid ev ts ps =
    (s, Inl (WrongExpectedVersion
       (case ev of Any \<Rightarrow> [] | NoStream \<Rightarrow> ''NoStream'' | Exact n \<Rightarrow> u64_to_string n)
       (case store_stream_version s sid of None \<Rightarrow> ''NoStream'' | Some v \<Rightarrow> u64_to_string v)))"
  using assms
  by (auto simp: store_append_def check_expected_version_def version_matches_def
      store_stream_version_def Let_def split: expected_version.splits option.splits)

text \<open>
  C12: a successful append gives the batch consecutive global positions from the head of the log and
  consecutive stream versions from the stream's length, keeps the proposed content, stamps every
  event with the given time, and extends the global log by exactly these events.
\<close>

theorem append_assigns_positions:
  assumes "log_wf (st_log s)" and "store_append C io s sid ev ts ps = (s', Inr rs)"
  shows "length rs = length ps \<and> el_events (st_log s') = el_events (st_log s) @ rs \<and>
    (\<forall>i < length ps. rs ! i = \<lparr>re_event_id = pe_event_id (ps ! i), re_stream_id = sid,
       re_stream_version = of_nat (length (stream_events (el_events (st_log s)) sid)) + of_nat i,
       re_global_position = store_global_position s + of_nat i, re_recorded_at = ts,
       re_event_type = pe_event_type (ps ! i), re_metadata = pe_metadata (ps ! i),
       re_payload = pe_payload (ps ! i)\<rparr>)"
proof -
  have "index_ok (st_log s)" using assms(1) by (simp add: log_wf_def)
  with assms(2) show ?thesis
    by (auto simp: store_append_Inr_iff appended_def nth_number_events next_version_index_ok
        store_global_position_def update_index_def mk_recorded_def)
qed

theorem append_assigns_positions_witness:
  "\<exists>s' rs. store_append demo_crc append_io_ok demo_store 1 Any 9 [demo_proposed 4, demo_proposed 5]
       = (s', Inr rs) \<and>
     re_global_position (rs ! 1) = 1 \<and> re_stream_version (rs ! 1) = 1 \<and> length rs = 2"
  using append_assigns_positions [OF log_wf_demo demo_append, of demo_crc] demo_append [of demo_crc]
  by (fastforce simp: demo_store_def empty_log_def store_global_position_def stream_events_def)

text \<open>
  C13: optimistic concurrency. When the stream is not at the expected version the append fails with
  \<open>WrongExpectedVersion\<close> carrying the expectation and the stream's actual version, and neither
  the file nor the index changes.
\<close>

theorem append_rejects_wrong_version:
  assumes "\<not> version_matches (st_log s) sid ev"
  shows "store_append C io s sid ev ts ps =
    (s, Inl (WrongExpectedVersion
       (case ev of Any \<Rightarrow> [] | NoStream \<Rightarrow> ''NoStream'' | Exact n \<Rightarrow> u64_to_string n)
       (case store_stream_version s sid of None \<Rightarrow> ''NoStream'' | Some v \<Rightarrow> u64_to_string v)))"
  using assms by (rule wrong_version_result)

theorem append_rejects_wrong_version_witness:
  "store_append demo_crc append_io_ok demo_store 1 (Exact 3) 9 [demo_proposed 4]
   = (demo_store, Inl (WrongExpectedVersion ''3'' ''NoStream''))"
proof -
  have "\<not> version_matches (st_log demo_store) 1 (Exact 3)"
    by (simp add: version_matches_def demo_store_def empty_log_def)
  from append_rejects_wrong_version [OF this] show ?thesis
    by (simp add: store_stream_version_def demo_store_def empty_log_def u64_to_string_def dec_str_3)
qed

text \<open>
  Batch validation is all or nothing. If any event of the batch has an empty or overlong type or
  an encoded record above the size limit, the append fails with \<open>InvalidArgument\<close> or
  \<open>EventTooLarge\<close> and nothing is written, whatever the position of the bad event in the batch.
\<close>

lemma append_rejects_invalid_batch:
  assumes "version_matches (st_log s) sid ev" and "p \<in> set ps" and "\<not> event_valid p"
  shows "\<exists>e. store_append C io s sid ev ts ps = (s, Inl e) \<and>
    ((\<exists>m. e = InvalidArgument m) \<or> (\<exists>n > MAX_EVENT_SIZE. e = EventTooLarge n MAX_EVENT_SIZE))"
proof -
  obtain g v where c: "check_expected_version (st_log s) sid ev = Inr (g, v)"
    using assms(1) check_expected_version_Inr_iff by blast
  obtain e where "build_records (crc_hash C) sid ts ps g v = Inl e"
    using assms(2,3) build_records_Inl_iff [of "crc_hash C" sid ts ps g v] by blast
  with c build_records_Inl_kind show ?thesis by (fastforce simp: store_append_def)
qed

text \<open>
  A failed write or fsync never changes what readers see: the index is unchanged and the file
  only grew by a prefix of the batch that was being written.
\<close>

lemma append_io_failure:
  assumes "store_append C io s sid ev ts ps = (s', Inl (Io e))"
  shows "st_log s' = st_log s \<and>
    (\<exists>p. st_file s' = st_file s @ p \<and>
         prefix p (batch_bytes C (store_global_position s) (appended s sid ts ps)))"
proof -
  have "st_log s' = st_log s" using assms by (rule store_append_Inl_log)
  moreover have "\<exists>p. st_file s' = st_file s @ p \<and>
         prefix p (batch_bytes C (store_global_position s) (appended s sid ts ps))"
    using assms
    by (auto simp: store_append_eq Let_def store_global_position_def take_is_prefix
        split: sum.splits option.splits if_splits prod.splits)
  ultimately show ?thesis by blast
qed

text \<open>
  Appending a non-empty batch keeps the index well formed whatever the outcome, as long as the
  log stays below \<open>2 ^ 64\<close> events.
\<close>

lemma append_preserves_log_wf:
  assumes "log_wf (st_log s)" and "ps \<noteq> []" and "length (el_events (st_log s)) + length ps < 2 ^ 64"
    and "store_append C io s sid ev ts ps = (s', r)"
  shows "log_wf (st_log s')"
proof (cases r)
  case (Inl e)
  with assms(1,4) show ?thesis by (simp add: store_append_Inl_log)
next
  case (Inr rs)
  with assms(4) have "st_log s' = update_index sid (appended s sid ts ps) (st_log s)"
    by (simp add: store_append_Inr_iff)
  with log_wf_update [OF assms(1-3)] show ?thesis by (simp add: appended_def)
qed

lemma append_read_back:
  assumes "log_wf (st_log s)" and "ps \<noteq> []" and "length (el_events (st_log s)) + length ps < 2 ^ 64"
    and "store_append C io s sid ev ts ps = (s', Inr rs)"
  shows "store_read_stream s' sid (re_stream_version (hd rs)) (of_nat (length rs)) = Some (Inr rs)"
proof -
  let ?n = "length (stream_events (el_events (st_log s)) sid)"
  from assms(4) have rs: "rs = appended s sid ts ps"
    and s': "st_log s' = update_index sid rs (st_log s)"
    by (auto simp: store_append_Inr_iff)
  have wf: "log_wf (st_log s')"
    using log_wf_update [OF assms(1-3)] rs s' by (simp add: appended_def)
  have same: "stream_events rs sid = rs"
    using rs by (auto simp: appended_def stream_events_def filter_id_conv number_events_stream)
  have le: "?n \<le> length (el_events (st_log s))" by (rule length_stream_events)
  have "rs \<noteq> []" using assms(2) rs length_appended [of s sid ts ps] by (intro notI) simp
  moreover have "re_stream_version (hd rs) = of_nat ?n"
    using assms(1,2) rs
    by (cases ps) (simp_all add: appended_def next_version_index_ok log_wf_def)
  moreover have "unat (of_nat ?n :: u64) = ?n" "unat (of_nat (length rs) :: u64) = length rs"
    using le assms(3) rs by (auto intro!: unat_of_nat_less)
  ultimately show ?thesis
    using store_read_stream_eq [OF wf] same s'
    by (simp add: log_read_stream_def update_index_def)
qed

text \<open>
  An append of no events succeeds and leaves a stream with no positions in the index, for which
  \<open>stream_version\<close> is the wrapped value \<open>2 ^ 64 - 1\<close> and a later \<open>NoStream\<close> append is refused.
\<close>

lemma append_empty_batch_ghost_stream:
  assumes "map_of (el_streams (st_log s)) sid = None"
  shows "\<exists>s'. store_append C append_io_ok s sid NoStream ts [] = (s', Inr []) \<and>
    el_events (st_log s') = el_events (st_log s) \<and>
    store_stream_version s' sid = Some (- 1) \<and> \<not> version_matches (st_log s') sid NoStream"
proof -
  have "store_append C append_io_ok s sid NoStream ts []
      = (\<lparr>st_file = st_file s @ batch_bytes C (of_nat (length (el_events (st_log s)))) [],
          st_log = update_index sid [] (st_log s)\<rparr>, Inr [])"
    unfolding store_append_Inr_iff
    using assms by (simp add: version_matches_def append_io_ok_def appended_def)
  then show ?thesis
    using assms
    by (simp add: update_index_def store_stream_version_def map_of_hm_entry version_matches_def)
qed

lemma append_empty_batch_ghost_stream_witness:
  "\<exists>s'. store_append demo_crc append_io_ok demo_store 1 NoStream 9 [] = (s', Inr []) \<and>
        store_stream_version s' 1 = Some (- 1)"
proof -
  have "map_of (el_streams (st_log demo_store)) 1 = None" by (simp add: demo_store_def empty_log_def)
  from append_empty_batch_ghost_stream [OF this, of demo_crc 9] show ?thesis by blast
qed

end
