(* ===== verification/Recovery.thy ===== *)
theory Recovery
  imports Store
begin

text \<open>
  Crash recovery: what \<open>Store::open\<close> makes of a file that \<open>Store::append\<close> wrote. A file is described
  by the list of batches in it; \<open>store_inv\<close> says that file and index describe the same batches.
  The proofs use the codec through its \<open>frame_codec\<close> interpretations only.
\<close>

type_synonym batch = "u64 \<times> recorded_event list"

definition batch_ok :: "batch \<Rightarrow> bool" where
  "batch_ok b \<longleftrightarrow> length (snd b) < 2 ^ 32 \<and> (\<forall>e \<in> set (snd b). record_ok e)"

definition batches_bytes :: "crc_ops \<Rightarrow> batch list \<Rightarrow> bytes" where
  "batches_bytes C bs = concat (map (\<lambda>b. batch_bytes C (fst b) (snd b)) bs)"

definition batches_log :: "batch list \<Rightarrow> event_log" where
  "batches_log bs = fold commit_event (concat (map snd bs)) empty_log"

definition store_inv :: "crc_ops \<Rightarrow> store \<Rightarrow> bool" where
  "store_inv C s \<longleftrightarrow>
     (\<exists>bs. (\<forall>b \<in> set bs. batch_ok b) \<and> st_file s = encode_header @ batches_bytes C bs \<and>
           st_log s = batches_log bs)"

abbreviation records_bytes :: "crc_fn \<Rightarrow> recorded_event list \<Rightarrow> bytes" where
  "records_bytes crc rs \<equiv> concat (map (encode_record crc) rs)"

subsection \<open>One batch\<close>

lemma drop_at: "drop (length pre) (pre @ xs) = xs"
  by simp

lemma decode_batch_records_complete:
  "\<forall>e \<in> set rs. record_ok e \<Longrightarrow>
   decode_batch_records crc (pre @ records_bytes crc rs @ rest) (length rs) (length pre) acc
     = RecordsOk (acc @ rs) (length pre + length (records_bytes crc rs))"
proof (induction rs arbitrary: pre acc)
  case (Cons e rs)
  let ?e = "encode_record crc e"
  have "decode_record crc (?e @ records_bytes crc rs @ rest) = Inr (Complete e (length ?e))"
    using Cons.prems by (intro record_frame.decode_encode) simp
  moreover have "decode_batch_records crc ((pre @ ?e) @ records_bytes crc rs @ rest) (length rs)
      (length (pre @ ?e)) (acc @ [e])
    = RecordsOk ((acc @ [e]) @ rs) (length (pre @ ?e) + length (records_bytes crc rs))"
    using Cons.prems by (intro Cons.IH) simp
  ultimately show ?case by simp
qed simp

lemma decode_batch_records_torn:
  "\<forall>e \<in> set rs. record_ok e \<Longrightarrow> strict_prefix p (records_bytes crc rs) \<Longrightarrow>
   decode_batch_records crc (pre @ p) (length rs) (length pre) acc = RecordsTorn"
proof (induction rs arbitrary: pre p acc)
  case (Cons e rs)
  let ?e = "encode_record crc e"
  have ok: "record_ok e" "\<forall>e \<in> set rs. record_ok e" using Cons.prems by auto
  from Cons.prems(2) have "strict_prefix p (?e @ records_bytes crc rs)" by simp
  then consider "strict_prefix p ?e"
    | q where "p = ?e @ q" "strict_prefix q (records_bytes crc rs)"
    by (blast dest: strict_prefix_append_cases)
  then show ?case
  proof cases
    case 1
    then show ?thesis using ok by (simp add: record_frame.decode_truncated)
  next
    case 2
    have "decode_batch_records crc ((pre @ ?e) @ q) (length rs) (length (pre @ ?e)) (acc @ [e])
          = RecordsTorn"
      using ok(2) 2(2) by (rule Cons.IH)
    with 2 ok show ?thesis by (simp add: record_frame.decode_encode)
  qed
qed simp

lemma decode_batch_records_err: "decode_batch_records crc data n offset acc \<noteq> RecordsErr e"
proof (induction n arbitrary: offset acc)
  case (Suc n)
  show ?case
    using Suc record_frame.decode_error [of crc "drop offset data"]
    by (auto split: sum.splits decode_outcome.splits error.splits)
qed simp

lemma batch_bytes_split:
  assumes "crc_streaming C"
  shows "batch_bytes C g rs = encode_batch_header (of_nat (length rs)) g
           @ records_bytes (crc_hash C) rs
           @ encode_batch_footer (crc_hash C (encode_batch_header (of_nat (length rs)) g
               @ records_bytes (crc_hash C) rs))"
  using assms by (simp add: batch_bytes_def encode_batch_def Let_def crc_streaming_def)

lemma decode_header_at:
  "decode_batch_header (encode_batch_header n g @ rest)
     = Inr (Complete \<lparr>bh_record_count = n, bh_first_global_pos = g\<rparr> 16)"
  using header_frame.decode_encode
      [of "\<lparr>bh_record_count = n, bh_first_global_pos = g\<rparr>" rest]
  by (simp add: batch_header_bytes_def)

lemma decode_footer_at:
  "decode_batch_footer (encode_batch_footer c @ rest) = Inr (Complete \<lparr>bf_batch_crc = c\<rparr> 8)"
  using footer_frame.decode_encode [of "\<lparr>bf_batch_crc = c\<rparr>" rest]
  by (simp add: batch_footer_bytes_def)

lemma batch_count: "batch_ok (g, rs) \<Longrightarrow> unat (of_nat (length rs) :: u32) = length rs"
  by (intro unat_of_nat_less) (simp add: batch_ok_def)

lemma recover_batch_complete:
  assumes C: "crc_streaming C" and ok: "batch_ok (g, rs)"
  shows "recover_batch C (pre @ batch_bytes C g rs @ rest) k (length pre)
         = BatchOk rs (length pre + length (batch_bytes C g rs))"
proof -
  let ?h = "encode_batch_header (of_nat (length rs)) g" and ?r = "records_bytes (crc_hash C) rs"
  let ?f = "encode_batch_footer (crc_hash C (?h @ ?r))"
  let ?d = "pre @ ?h @ ?r @ ?f @ rest"
  have dec: "decode_batch_records (crc_hash C) ?d (length rs) (length pre + 16) []
        = RecordsOk rs (length pre + 16 + length ?r)"
    using decode_batch_records_complete [of rs "crc_hash C" "pre @ ?h" "?f @ rest" "[]"] ok
    by (simp add: batch_ok_def)
  have foot: "decode_batch_footer (drop (length pre + 16 + length ?r) ?d)
        = Inr (Complete \<lparr>bf_batch_crc = crc_hash C (?h @ ?r)\<rparr> 8)"
    using decode_footer_at [of _ rest] by simp
  have body: "take (16 + length ?r) (drop (length pre) ?d) = ?h @ ?r" by simp
  have "recover_batch C ?d k (length pre) = BatchOk rs (length pre + 24 + length ?r)"
    unfolding recover_batch_def drop_at decode_header_at
    using dec foot body batch_count [OF ok]
    by (simp add: BATCH_FOOTER_SIZE_def)
  then show ?thesis by (simp add: batch_bytes_split [OF C])
qed

lemma recover_batch_torn:
  assumes C: "crc_streaming C" and ok: "batch_ok (g, rs)"
    and p: "strict_prefix p (batch_bytes C g rs)"
  shows "recover_batch C (pre @ p) k (length pre) = BatchTruncate"
proof -
  let ?h = "encode_batch_header (of_nat (length rs)) g" and ?r = "records_bytes (crc_hash C) rs"
  let ?f = "encode_batch_footer (crc_hash C (?h @ ?r))"
  have recs: "\<forall>e \<in> set rs. record_ok e" using ok by (simp add: batch_ok_def)
  from p have "strict_prefix p (?h @ ?r @ ?f)" by (simp add: batch_bytes_split [OF C])
  then consider (head) "strict_prefix p ?h"
    | (recs) q where "p = ?h @ q" "strict_prefix q ?r"
    | (foot) q where "p = ?h @ ?r @ q" "strict_prefix q ?f"
    by (blast dest: strict_prefix_append_cases)
  then show ?thesis
  proof cases
    case head
    then have "decode_batch_header p = Inr Incomplete"
      using header_frame.decode_truncated
          [where x = "\<lparr>bh_record_count = of_nat (length rs), bh_first_global_pos = g\<rparr>"]
      by (simp add: batch_header_bytes_def)
    then show ?thesis by (simp add: recover_batch_def)
  next
    case recs
    have "decode_batch_records (crc_hash C) ((pre @ ?h) @ q) (length rs) (length (pre @ ?h)) []
          = RecordsTorn"
      using \<open>\<forall>e \<in> set rs. record_ok e\<close> recs(2) by (rule decode_batch_records_torn)
    then show ?thesis
      unfolding recover_batch_def drop_at recs(1) decode_header_at
      using batch_count [OF ok] by simp
  next
    case foot
    have dec: "decode_batch_records (crc_hash C) (pre @ ?h @ ?r @ q) (length rs) (length pre + 16) []
        = RecordsOk rs (length pre + 16 + length ?r)"
      using decode_batch_records_complete [OF recs, of "crc_hash C" "pre @ ?h" q "[]"] by simp
    have "decode_batch_footer q = Inr Incomplete"
      using foot(2) footer_frame.decode_truncated [where x = "\<lparr>bf_batch_crc = crc_hash C (?h @ ?r)\<rparr>"]
      by (simp add: batch_footer_bytes_def)
    then have "decode_batch_footer (drop (length pre + 16 + length ?r) (pre @ ?h @ ?r @ q))
        = Inr Incomplete"
      by simp
    with dec show ?thesis
      unfolding recover_batch_def drop_at foot(1) decode_header_at
      using batch_count [OF ok] by simp
  qed
qed

subsection \<open>The whole loop\<close>

lemma batches_bytes_simps [simp]:
  "batches_bytes C [] = []"
  "batches_bytes C (b # bs) = batch_bytes C (fst b) (snd b) @ batches_bytes C bs"
  "batches_bytes C (bs @ cs) = batches_bytes C bs @ batches_bytes C cs"
  by (simp_all add: batches_bytes_def)

lemma length_batch_bytes [length_simps]:
  "length (batch_bytes C g rs) = 24 + length (records_bytes (crc_hash C) rs)"
  by (simp add: batch_bytes_def encode_batch_def Let_def)

lemma batch_bytes_nonempty [simp]: "batch_bytes C g rs \<noteq> []"
  using length_batch_bytes [of C g rs] by (intro notI) simp

lemma recover_loop_batches:
  assumes C: "crc_streaming C"
  shows "\<forall>b \<in> set bs. batch_ok b \<Longrightarrow>
    recover_loop C (pre @ batches_bytes C bs @ rest) (length pre) log
    = recover_loop C (pre @ batches_bytes C bs @ rest) (length (pre @ batches_bytes C bs))
        (fold commit_event (concat (map snd bs)) log)"
proof (induction bs arbitrary: pre log)
  case (Cons b bs)
  let ?b = "batch_bytes C (fst b) (snd b)"
  have ok: "batch_ok (fst b, snd b)" "\<forall>b \<in> set bs. batch_ok b" using Cons.prems by auto
  have "recover_batch C (pre @ ?b @ batches_bytes C bs @ rest) (length (el_events log)) (length pre)
        = BatchOk (snd b) (length (pre @ ?b))"
    using recover_batch_complete [OF C ok(1)] by simp
  then have "recover_loop C (pre @ ?b @ batches_bytes C bs @ rest) (length pre) log
      = recover_loop C ((pre @ ?b) @ batches_bytes C bs @ rest) (length (pre @ ?b))
          (fold commit_event (snd b) log)"
    by (subst recover_loop.simps) simp
  also have "\<dots> = recover_loop C ((pre @ ?b) @ batches_bytes C bs @ rest)
      (length ((pre @ ?b) @ batches_bytes C bs))
      (fold commit_event (concat (map snd bs)) (fold commit_event (snd b) log))"
    using ok(2) by (rule Cons.IH)
  finally show ?case by simp
qed simp

lemma recover_loop_end: "recover_loop C data (length data) log = Recovered log"
  by (subst recover_loop.simps) simp

lemma recover_loop_file:
  assumes "crc_streaming C" and "\<forall>b \<in> set bs. batch_ok b"
  shows "recover_loop C (encode_header @ batches_bytes C bs @ rest) HEADER_SIZE empty_log
    = recover_loop C (encode_header @ batches_bytes C bs @ rest)
        (length (encode_header @ batches_bytes C bs)) (batches_log bs)"
  using recover_loop_batches [OF assms, of encode_header rest empty_log]
  by (simp add: HEADER_SIZE_def batches_log_def)

lemma open_existing_header:
  "open_existing C open_io_ok (encode_header @ rest) =
     (case recover_loop C (encode_header @ rest) HEADER_SIZE empty_log of
        RecoveryErr e \<Rightarrow> (Some (encode_header @ rest), Inl e)
      | TruncateAt offset log \<Rightarrow>
          (Some (take offset (encode_header @ rest)),
           Inr \<lparr>st_file = take offset (encode_header @ rest), st_log = log\<rparr>)
      | Recovered log \<Rightarrow>
          (Some (encode_header @ rest), Inr \<lparr>st_file = encode_header @ rest, st_log = log\<rparr>))"
  using decode_encode_header [of "[]"]
  by (simp add: open_existing_def open_io_ok_def HEADER_SIZE_def truncate_and_return_def Let_def
      split: recovery.split)

text \<open>What follows the last complete batch decides: nothing, a torn batch, or anything else.\<close>

lemma recover_loop_torn:
  assumes "crc_streaming C" and "batch_ok (g, rs)" and "strict_prefix p (batch_bytes C g rs)"
    and "p \<noteq> []"
  shows "recover_loop C (pre @ p) (length pre) log = TruncateAt (length pre) log"
  using recover_batch_torn [OF assms(1-3)] assms(4) by (subst recover_loop.simps) simp

lemma recover_loop_grows:
  assumes "offset \<le> length data"
  shows "(case recover_loop C data offset log of
            Recovered log' \<Rightarrow> \<exists>es. log' = fold commit_event es log
          | TruncateAt offset' log' \<Rightarrow>
              offset \<le> offset' \<and> offset' \<le> length data \<and> (\<exists>es. log' = fold commit_event es log)
          | RecoveryErr e \<Rightarrow> \<exists>p d. e = CorruptRecord p d)"
  using assms
proof (induction C data offset log rule: recover_loop.induct)
  case (1 C data offset log)
  show ?case
  proof (cases "drop offset data = []")
    case True
    then show ?thesis by (subst recover_loop.simps) (auto intro: exI [of _ "[]"])
  next
    case False
    show ?thesis
    proof (cases "recover_batch C data (length (el_events log)) offset")
      case (BatchOk es offset')
      then have le: "offset < offset' \<and> offset' \<le> length data" by (rule recover_batch_progress)
      note IH = "1.IH" [OF False BatchOk]
      have ex: "\<exists>fs. fold commit_event es' (fold commit_event es log) = fold commit_event fs log" for es'
        by (rule exI [of _ "es @ es'"]) simp
      show ?thesis
        using IH le False BatchOk ex
        by (subst recover_loop.simps) (fastforce split: recovery.splits)
    next
      case BatchTruncate
      with False 1 show ?thesis by (subst recover_loop.simps) (auto intro: exI [of _ "[]"])
    next
      case (BatchErr e)
      then have "\<exists>p d. e = CorruptRecord p d"
        by (auto simp: recover_batch_def Let_def decode_batch_records_err
            dest: header_frame.decode_error footer_frame.decode_error
            split: sum.splits decode_outcome.splits error.splits records_outcome.splits if_splits)
      with False BatchErr show ?thesis by (subst recover_loop.simps) simp
    qed
  qed
qed

subsection \<open>Recovery depends on the kept bytes only\<close>

lemma window_cong:
  "off + c \<le> n \<Longrightarrow> take c (drop off (take n data)) = take c (drop off data)"
  by (simp add: drop_take min_def)

lemma decode_batch_records_local:
  "decode_batch_records crc data k off acc = RecordsOk es off' \<Longrightarrow> off' \<le> n \<Longrightarrow>
   decode_batch_records crc (take n data) k off acc = RecordsOk es off'"
proof (induction k arbitrary: off acc)
  case (Suc k)
  from Suc.prems(1) obtain e c where
    e: "decode_record crc (drop off data) = Inr (Complete e c)" and
    r: "decode_batch_records crc data k (off + c) (acc @ [e]) = RecordsOk es off'"
    by (auto split: sum.splits decode_outcome.splits error.splits)
  have "off + c \<le> n" using decode_batch_records_offset [OF r] Suc.prems(2) by simp
  then have "decode_record crc (drop off (take n data)) = Inr (Complete e c)"
    using record_frame.decode_cong [OF e] window_cong by blast
  with Suc.IH [OF r Suc.prems(2)] show ?case by simp
qed simp

lemma recover_batch_local:
  assumes b: "recover_batch C data k start = BatchOk es off'" and n: "off' \<le> n"
  shows "recover_batch C (take n data) k' start = BatchOk es off'"
proof -
  from b obtain h c off f c' where
    h: "decode_batch_header (drop start data) = Inr (Complete h c)" and
    r: "decode_batch_records (crc_hash C) data (unat (bh_record_count h)) (start + c) []
          = RecordsOk es off" and
    f: "decode_batch_footer (drop off data) = Inr (Complete f c')" and
    o: "off' = off + c'" and
    crc: "bf_batch_crc f = crc_hash C (take (off + c' - BATCH_FOOTER_SIZE - start) (drop start data))"
    by (auto simp: recover_batch_def Let_def
        split: sum.splits decode_outcome.splits error.splits records_outcome.splits if_splits)
  have le: "start + c \<le> off" using r by (rule decode_batch_records_offset)
  have "decode_batch_header (drop start (take n data)) = Inr (Complete h c)"
    using le o n by (intro header_frame.decode_cong [OF h] window_cong) simp
  moreover have "decode_batch_records (crc_hash C) (take n data) (unat (bh_record_count h)) (start + c) []
      = RecordsOk es off"
    using r o n by (intro decode_batch_records_local) simp_all
  moreover have "decode_batch_footer (drop off (take n data)) = Inr (Complete f c')"
    using o n by (intro footer_frame.decode_cong [OF f] window_cong) simp
  moreover have "take (off + c' - BATCH_FOOTER_SIZE - start) (drop start (take n data))
      = take (off + c' - BATCH_FOOTER_SIZE - start) (drop start data)"
    using le o n by (intro window_cong) simp
  ultimately show ?thesis
    using crc o by (simp add: recover_batch_def)
qed

lemma recover_loop_truncated:
  "offset \<le> length data \<Longrightarrow> recover_loop C data offset log = TruncateAt off log' \<Longrightarrow>
   recover_loop C (take off data) offset log = Recovered log'"
proof (induction C data offset log rule: recover_loop.induct)
  case (1 C data offset log)
  have ne: "drop offset data \<noteq> []" using "1.prems"(2) by (subst (asm) recover_loop.simps) auto
  show ?case
  proof (cases "recover_batch C data (length (el_events log)) offset")
    case (BatchOk es offset')
    let ?log = "fold commit_event es log"
    have le: "offset < offset'" "offset' \<le> length data"
      using recover_batch_progress [OF BatchOk] by auto
    have loop: "recover_loop C data offset' ?log = TruncateAt off log'"
      using "1.prems"(2) ne BatchOk by (subst (asm) recover_loop.simps) simp
    then have off: "offset' \<le> off"
      using recover_loop_grows [OF le(2), where C = C and log = ?log] by simp
    have "recover_loop C (take off data) offset' ?log = Recovered log'"
      using ne BatchOk le(2) loop by (rule "1.IH")
    with recover_batch_local [OF BatchOk off] ne le off show ?thesis
      by (subst recover_loop.simps) simp
  next
    case BatchTruncate
    with "1.prems"(2) ne have "off = offset" "log' = log"
      by (subst (asm) recover_loop.simps, simp)+
    then show ?thesis by (subst recover_loop.simps) simp
  next
    case (BatchErr e)
    with "1.prems"(2) ne show ?thesis by (subst (asm) recover_loop.simps) simp
  qed
qed

subsection \<open>The store invariant\<close>

lemma fold_commit_events: "el_events (fold commit_event es log) = el_events log @ es"
  by (induction es arbitrary: log) (auto simp: commit_event_def)

lemma commit_fold_update:
  "rs \<noteq> [] \<Longrightarrow> \<forall>e \<in> set rs. re_stream_id e = sid \<Longrightarrow>
   fold commit_event rs log = update_index sid rs log"
proof (induction rs rule: rev_induct)
  case (snoc e rs)
  show ?case
  proof (cases "rs = []")
    case True
    with snoc.prems show ?thesis by (simp add: commit_event_def update_index_def)
  next
    case False
    have "fold commit_event (rs @ [e]) log = commit_event e (fold commit_event rs log)" by simp
    also have "\<dots> = commit_event e (update_index sid rs log)" using False snoc by simp
    also have "\<dots> = update_index sid (rs @ [e]) log"
      using snoc.prems by (simp add: commit_event_def update_index_def hm_entry_comp comp_def)
    finally show ?thesis .
  qed
qed simp

definition utf8_events :: "proposed_event list \<Rightarrow> bool" where
  "utf8_events ps \<longleftrightarrow> (\<forall>p \<in> set ps. utf8_valid (pe_event_type p))"

lemma record_ok_number_events:
  "\<forall>p \<in> set ps. event_valid p \<and> utf8_valid (pe_event_type p) \<Longrightarrow>
   e \<in> set (number_events sid ts ps g v) \<Longrightarrow> record_ok e"
  by (induction ps arbitrary: g v)
    (auto simp: record_ok_def event_valid_def FIXED_BODY_SIZE_def MAX_EVENT_TYPE_LEN_def
      MAX_EVENT_SIZE_def)

lemma batch_ok_appended:
  "\<forall>p \<in> set ps. event_valid p \<Longrightarrow> utf8_events ps \<Longrightarrow> length ps < 2 ^ 32 \<Longrightarrow>
   batch_ok (g, appended s sid ts ps)"
  by (auto simp: batch_ok_def appended_def utf8_events_def intro: record_ok_number_events)

lemma store_inv_append:
  assumes inv: "store_inv C s" and app: "store_append C io s sid ev ts ps = (s', Inr rs)"
    and ps: "ps \<noteq> []" "utf8_events ps" "length ps < 2 ^ 32"
  shows "store_inv C s'"
proof -
  from inv obtain bs where bs: "\<forall>b \<in> set bs. batch_ok b"
    "st_file s = encode_header @ batches_bytes C bs" "st_log s = batches_log bs"
    by (auto simp: store_inv_def)
  let ?g = "of_nat (length (el_events (st_log s)))"
  from app have a: "\<forall>p \<in> set ps. event_valid p" "rs = appended s sid ts ps"
    "s' = \<lparr>st_file = st_file s @ batch_bytes C ?g rs, st_log = update_index sid rs (st_log s)\<rparr>"
    by (auto simp: store_append_Inr_iff)
  have "rs \<noteq> []" using ps(1) a(2) length_appended [of s sid ts ps] by (intro notI) simp
  then have "update_index sid rs (st_log s) = fold commit_event rs (st_log s)"
    using a(2) by (intro commit_fold_update [symmetric]) (auto simp: appended_def number_events_stream)
  then have "st_log s' = batches_log (bs @ [(?g, rs)])"
    using a(3) bs(3) by (simp add: batches_log_def)
  moreover have "batch_ok (?g, rs)" using a ps by (simp add: batch_ok_appended)
  ultimately show ?thesis
    unfolding store_inv_def using bs a(3) by (intro exI [of _ "bs @ [(?g, rs)]"]) simp
qed

lemma store_inv_created: "store_inv C \<lparr>st_file = encode_header, st_log = empty_log\<rparr>"
  unfolding store_inv_def by (intro exI [of _ "[]"]) (simp add: batches_log_def)

lemma open_store_inv:
  assumes C: "crc_streaming C" and inv: "store_inv C s"
  shows "\<exists>n. st_file s = encode_header @ n \<and>
     recover_loop C (st_file s @ rest) HEADER_SIZE empty_log
       = recover_loop C (st_file s @ rest) (length (st_file s)) (st_log s)"
proof -
  from inv obtain bs where bs: "\<forall>b \<in> set bs. batch_ok b"
    "st_file s = encode_header @ batches_bytes C bs" "st_log s = batches_log bs"
    by (auto simp: store_inv_def)
  with recover_loop_file [OF C bs(1), of rest] show ?thesis by simp
qed

lemma store_open_tail:
  assumes C: "crc_streaming C" and inv: "store_inv C s"
  shows "store_open C open_io_ok (Some (st_file s @ rest)) =
    (case recover_loop C (st_file s @ rest) (length (st_file s)) (st_log s) of
       RecoveryErr e \<Rightarrow> (Some (st_file s @ rest), Inl e)
     | TruncateAt offset log \<Rightarrow>
         (Some (take offset (st_file s @ rest)),
          Inr \<lparr>st_file = take offset (st_file s @ rest), st_log = log\<rparr>)
     | Recovered log \<Rightarrow>
         (Some (st_file s @ rest), Inr \<lparr>st_file = st_file s @ rest, st_log = log\<rparr>))"
proof -
  obtain n where n: "st_file s = encode_header @ n"
    and loop: "recover_loop C (st_file s @ rest) HEADER_SIZE empty_log
       = recover_loop C (st_file s @ rest) (length (st_file s)) (st_log s)"
    using open_store_inv [OF C inv, of rest] by blast
  show ?thesis
    using open_existing_header [of C "n @ rest"] loop n
    by (simp add: store_open_def cong: recovery.case_cong)
qed

lemma reopen_same:
  assumes "crc_streaming C" and "store_inv C s"
  shows "store_open C open_io_ok (Some (st_file s)) = (Some (st_file s), Inr s)"
  using store_open_tail [OF assms, of "[]"] recover_loop_end [of C "st_file s"] by simp

lemma reopen_torn:
  assumes "crc_streaming C" and "store_inv C s" and "batch_ok (g, rs)"
    and "strict_prefix p (batch_bytes C g rs)"
  shows "store_open C open_io_ok (Some (st_file s @ p)) = (Some (st_file s), Inr s)"
proof (cases "p = []")
  case True
  with reopen_same assms show ?thesis by simp
next
  case False
  with store_open_tail [OF assms(1,2), of p] recover_loop_torn [OF assms(1,3,4)]
  show ?thesis by simp
qed

lemma prefix_cases: "prefix p xs \<Longrightarrow> p = xs \<or> strict_prefix p xs"
  by (auto simp: strict_prefix_def)

lemma append_ok_any:
  "\<forall>p \<in> set ps. event_valid p \<Longrightarrow> store_append C append_io_ok s sid Any ts ps =
     (\<lparr>st_file = st_file s @ batch_bytes C (store_global_position s) (appended s sid ts ps),
       st_log = update_index sid (appended s sid ts ps) (st_log s)\<rparr>, Inr (appended s sid ts ps))"
  unfolding store_append_Inr_iff
  by (simp add: version_matches_def append_io_ok_def store_global_position_def)

lemma reopen_crashed:
  assumes C: "crc_streaming C" and inv: "store_inv C s"
    and ps: "ps \<noteq> []" "\<forall>p \<in> set ps. event_valid p" "utf8_events ps" "length ps < 2 ^ 32"
    and p: "prefix p (batch_bytes C (store_global_position s) (appended s sid ts ps))"
  shows "store_open C open_io_ok (Some (st_file s @ p)) =
    (if p = batch_bytes C (store_global_position s) (appended s sid ts ps)
     then (Some (st_file s @ p), Inr \<lparr>st_file = st_file s @ p,
             st_log = update_index sid (appended s sid ts ps) (st_log s)\<rparr>)
     else (Some (st_file s), Inr s))"
proof -
  let ?b = "batch_bytes C (store_global_position s) (appended s sid ts ps)"
  let ?s' = "\<lparr>st_file = st_file s @ ?b, st_log = update_index sid (appended s sid ts ps) (st_log s)\<rparr>"
  have inv': "store_inv C ?s'"
    using store_inv_append [OF inv append_ok_any [OF ps(2)] ps(1,3,4)] .
  have ok: "batch_ok (store_global_position s, appended s sid ts ps)"
    using ps by (intro batch_ok_appended)
  show ?thesis
    using prefix_cases [OF p] reopen_same [OF C inv'] reopen_torn [OF C inv ok] by auto
qed

subsection \<open>Reachable stores\<close>

text \<open>
  The life of a log file: creation, acknowledged appends, refused appends, and restarts, where a
  crash may leave any prefix of a batch that was being written.
\<close>

inductive store_reachable :: "crc_ops \<Rightarrow> store \<Rightarrow> bool" for C where
  created: "store_open C io None = (f, Inr s) \<Longrightarrow> store_reachable C s"
| acknowledged: "store_reachable C s \<Longrightarrow> store_append C io s sid ev ts ps = (s', Inr rs) \<Longrightarrow>
    ps \<noteq> [] \<Longrightarrow> utf8_events ps \<Longrightarrow> length ps < 2 ^ 32 \<Longrightarrow>
    length (el_events (st_log s)) + length ps < 2 ^ 64 \<Longrightarrow> store_reachable C s'"
| refused: "store_reachable C s \<Longrightarrow> store_append C io s sid ev ts ps = (s', Inl e) \<Longrightarrow>
    \<forall>m. e \<noteq> Io m \<Longrightarrow> store_reachable C s'"
| restarted: "store_reachable C s \<Longrightarrow> \<forall>p \<in> set ps. event_valid p \<Longrightarrow>
    ps \<noteq> [] \<Longrightarrow> utf8_events ps \<Longrightarrow> length ps < 2 ^ 32 \<Longrightarrow>
    length (el_events (st_log s)) + length ps < 2 ^ 64 \<Longrightarrow>
    prefix p (batch_bytes C (store_global_position s) (appended s sid ts ps)) \<Longrightarrow>
    store_open C open_io_ok (Some (st_file s @ p)) = (f, Inr s') \<Longrightarrow> store_reachable C s'"

lemma store_append_refused:
  "store_append C io s sid ev ts ps = (s', Inl e) \<Longrightarrow> \<forall>m. e \<noteq> Io m \<Longrightarrow> s' = s"
  by (auto simp: store_append_eq Let_def split: sum.splits option.splits if_splits prod.splits)

lemma store_open_new_Inr:
  "store_open C io None = (f, Inr s) \<Longrightarrow> s = \<lparr>st_file = encode_header, st_log = empty_log\<rparr>"
  by (auto simp: store_open_def open_new_def Let_def split: option.splits)

lemma store_reachable_inv:
  assumes C: "crc_streaming C"
  shows "store_reachable C s \<Longrightarrow> store_inv C s \<and> log_wf (st_log s)"
proof (induction rule: store_reachable.induct)
  case (created io f s)
  then show ?case by (auto dest!: store_open_new_Inr simp: store_inv_created)
next
  case (acknowledged s io sid ev ts ps s' rs)
  then have "log_wf (st_log s')"
    by (blast intro: append_preserves_log_wf)
  with acknowledged show ?case by (blast intro: store_inv_append)
next
  case (refused s io sid ev ts ps s' e)
  then show ?case by (auto dest: store_append_refused)
next
  case (restarted s ps p sid ts f s')
  let ?b = "batch_bytes C (store_global_position s) (appended s sid ts ps)"
  from restarted have inv: "store_inv C s" and wf: "log_wf (st_log s)" by auto
  have open_: "store_open C open_io_ok (Some (st_file s @ p)) =
    (if p = ?b then (Some (st_file s @ p), Inr \<lparr>st_file = st_file s @ p,
             st_log = update_index sid (appended s sid ts ps) (st_log s)\<rparr>)
     else (Some (st_file s), Inr s))"
    by (rule reopen_crashed) (use C inv restarted in auto)
  have wf': "log_wf (update_index sid (appended s sid ts ps) (st_log s))"
    using log_wf_update [OF wf restarted.hyps(3,6)] by (simp add: appended_def)
  have inv': "store_inv C \<lparr>st_file = st_file s @ ?b,
      st_log = update_index sid (appended s sid ts ps) (st_log s)\<rparr>"
    using store_inv_append [OF inv append_ok_any [OF restarted.hyps(2)] restarted.hyps(3-5)] .
  from open_ restarted.hyps(8) inv wf inv' wf' show ?case by (auto split: if_splits)
qed

subsection \<open>Properties\<close>

lemma store_inv_demo: "store_inv C demo_store"
  by (simp add: demo_store_def store_inv_created)

lemma utf8_events_demo: "utf8_events [demo_proposed m, demo_proposed n]" "utf8_events [demo_proposed m]"
  using utf8_valid_Ab by (simp_all add: utf8_events_def demo_proposed_def)

text \<open>
  C2: batch atomicity across a crash. If the process dies after any number of bytes of a batch
  reached the file, the next open sees either the whole batch (all its bytes were written) or
  exactly the store before the append, with the torn bytes cut off the file.
\<close>

theorem crash_batch_atomicity:
  assumes "crc_streaming C" and "store_inv C s"
    and "ps \<noteq> []" and "\<forall>p \<in> set ps. event_valid p" and "utf8_events ps" and "length ps < 2 ^ 32"
    and "prefix p (batch_bytes C (store_global_position s) (appended s sid ts ps))"
  shows "store_open C open_io_ok (Some (st_file s @ p)) =
    (if p = batch_bytes C (store_global_position s) (appended s sid ts ps)
     then (Some (st_file s @ p), Inr (fst (store_append C append_io_ok s sid Any ts ps)))
     else (Some (st_file s), Inr s))"
  using reopen_crashed [OF assms] append_ok_any [OF assms(4)] by simp

theorem crash_batch_atomicity_witness:
  "store_open demo_crc open_io_ok (Some (st_file demo_store @
     take 20 (batch_bytes demo_crc (store_global_position demo_store)
       (appended demo_store 1 9 [demo_proposed 4])))) = (Some (st_file demo_store), Inr demo_store)"
proof -
  let ?b = "batch_bytes demo_crc (store_global_position demo_store) (appended demo_store 1 9 [demo_proposed 4])"
  have "24 \<le> length ?b" by (simp add: length_batch_bytes)
  then have "take 20 ?b \<noteq> ?b" by (auto simp: take_all_iff)
  moreover have "prefix (take 20 ?b) ?b" by (rule take_is_prefix)
  ultimately show ?thesis
    using crash_batch_atomicity [OF crc_streaming_demo store_inv_demo _ _ utf8_events_demo(2), where p = "take 20 ?b"]
    by simp
qed

text \<open>
  C20: no committed batch is lost to damage behind it. Whatever bytes follow the committed part of
  the file, opening either fails with \<open>CorruptRecord\<close> and leaves the file alone, or returns a store
  whose file and log still begin with everything that was committed.
\<close>

theorem committed_prefix_survives:
  assumes "crc_streaming C" and "store_inv C s"
  shows "case store_open C open_io_ok (Some (st_file s @ junk)) of
      (f, Inr s') \<Rightarrow> f = Some (st_file s') \<and> prefix (st_file s) (st_file s') \<and>
        prefix (st_file s') (st_file s @ junk) \<and>
        prefix (el_events (st_log s)) (el_events (st_log s'))
    | (f, Inl e) \<Rightarrow> f = Some (st_file s @ junk) \<and> (\<exists>p d. e = CorruptRecord p d)"
proof -
  have "length (st_file s) \<le> length (st_file s @ junk)" by simp
  from recover_loop_grows [OF this, where C = C and log = "st_log s"] show ?thesis
    unfolding store_open_tail [OF assms]
    by (auto split: recovery.splits intro: take_is_prefix simp: fold_commit_events)
qed

theorem committed_prefix_survives_witness:
  "case store_open demo_crc open_io_ok (Some (st_file demo_store @ [1, 2, 3])) of
      (f, Inr s') \<Rightarrow> f = Some (st_file s') \<and> prefix (st_file demo_store) (st_file s')
    | (f, Inl e) \<Rightarrow> f = Some (st_file demo_store @ [1, 2, 3])"
  using committed_prefix_survives [OF crc_streaming_demo store_inv_demo, of "[1, 2, 3]"]
  by (auto split: prod.splits sum.splits)

text \<open>
  C21: recovery is idempotent. Whatever the file held, once an open has succeeded the file it leaves
  behind opens to the same store again and is not changed any further.
\<close>

theorem open_idempotent:
  assumes "store_open C open_io_ok (Some data) = (f, Inr s)"
  shows "f = Some (st_file s) \<and> store_open C open_io_ok f = (f, Inr s)"
proof -
  have hdr: "HEADER_SIZE \<le> length data" "\<exists>v. decode_header (take HEADER_SIZE data) = Inr v"
    using assms by (auto simp: store_open_def open_existing_def open_io_ok_def
        split: if_splits sum.splits)
  from assms hdr consider
      (ok) log where "recover_loop C data HEADER_SIZE empty_log = Recovered log"
        "f = Some data" "s = \<lparr>st_file = data, st_log = log\<rparr>"
    | (cut) n log where "recover_loop C data HEADER_SIZE empty_log = TruncateAt n log"
        "f = Some (take n data)" "s = \<lparr>st_file = take n data, st_log = log\<rparr>"
    by (auto simp: store_open_def open_existing_def open_io_ok_def truncate_and_return_def Let_def
        split: recovery.splits)
  then show ?thesis
  proof cases
    case ok
    with assms show ?thesis by simp
  next
    case cut
    have n: "HEADER_SIZE \<le> n"
      using recover_loop_grows [OF hdr(1), where C = C and log = empty_log] cut(1) by simp
    have "recover_loop C (take n data) HEADER_SIZE empty_log = Recovered log"
      using recover_loop_truncated [OF hdr(1) cut(1)] .
    with n hdr cut show ?thesis
      by (auto simp: store_open_def open_existing_def open_io_ok_def min_absorb1)
  qed
qed

theorem open_idempotent_witness:
  "store_open demo_crc open_io_ok (Some encode_header)
   = (Some encode_header, Inr \<lparr>st_file = encode_header, st_log = empty_log\<rparr>)"
proof -
  have "store_open demo_crc open_io_ok (Some (st_file demo_store)) = (Some (st_file demo_store), Inr demo_store)"
    using reopen_same crc_streaming_demo store_inv_demo by blast
  from open_idempotent [OF this] show ?thesis by (simp add: demo_store_def)
qed

text \<open>
  C18: every store that creation, acknowledged and refused appends and crash restarts can lead to
  has a well-formed index that agrees with its file.
\<close>

theorem reachable_store_consistent:
  assumes "crc_streaming C" and "store_reachable C s"
  shows "store_inv C s \<and> log_wf (st_log s)"
  using assms by (rule store_reachable_inv)

lemma demo_reachable:
  "\<exists>s. store_append demo_crc append_io_ok demo_store 1 Any 9 [demo_proposed 4, demo_proposed 5]
       = (s, Inr (appended demo_store 1 9 [demo_proposed 4, demo_proposed 5])) \<and> store_reachable demo_crc s"
proof -
  have "store_reachable demo_crc demo_store"
    by (rule store_reachable.created [of demo_crc open_io_ok])
      (simp add: store_open_def open_new_def open_io_ok_def demo_store_def)
  from store_reachable.acknowledged [OF this demo_append _ utf8_events_demo(1)]
  have "store_reachable demo_crc (fst (store_append demo_crc append_io_ok demo_store 1 Any 9
      [demo_proposed 4, demo_proposed 5]))"
    by (simp add: demo_append) (simp add: demo_store_def empty_log_def)
  with demo_append [of demo_crc] show ?thesis by simp
qed

theorem reachable_store_consistent_witness:
  "\<exists>s rs. store_append demo_crc append_io_ok demo_store 1 Any 9 [demo_proposed 4, demo_proposed 5]
       = (s, Inr rs) \<and> store_inv demo_crc s \<and> log_wf (st_log s)"
  using demo_reachable reachable_store_consistent [OF crc_streaming_demo] by blast

end
