(* ===== verification/Recovery_Faults.thy ===== *)
theory Recovery_Faults
  imports Recovery
begin

text \<open>
  What recovery does with files that I/O faults or media damage leave behind in the middle of the
  log: a damaged record followed by intact batches, a write that failed part way and was followed
  by a successful append, and an fsync that failed after the bytes were written.
\<close>

subsection \<open>A damaged record inside the log\<close>

text \<open>An encoded record whose stored checksum was replaced.\<close>

definition damaged_record :: "recorded_event \<Rightarrow> u32 \<Rightarrow> bytes" where
  "damaged_record e c =
     u32_to_le (of_nat (FIXED_BODY_SIZE + length (re_event_type e) + length (re_metadata e)
       + length (re_payload e))) @ record_fields e @ u32_to_le c"

lemma damaged_record_encode:
  "damaged_record e (crc (record_fields e)) = encode_record crc e"
  by (simp only: damaged_record_def encode_record_def Let_def LENGTH_PREFIX_SIZE_def le32.drop_enc
      append_assoc)

lemma decode_damaged:
  assumes ok: "record_ok e" and c: "c \<noteq> crc (record_fields e)"
  shows "\<exists>d. decode_record crc (damaged_record e c @ rest) = Inl (CorruptRecord 0 d)"
proof -
  define n where
    "n = FIXED_BODY_SIZE + length (re_event_type e) + length (re_metadata e) + length (re_payload e)"
  have n: "unat (of_nat n :: u32) = n"
    using ok by (intro unat_of_nat_less) (simp add: record_ok_def n_def)
  have m: "length (record_fields e) + 4 = n"
    by (simp add: length_record_fields FIXED_BODY_SIZE_def n_def)
  have "damaged_record e c @ rest = u32_to_le (of_nat n) @ (record_fields e @ u32_to_le c) @ rest"
    by (simp only: damaged_record_def append_assoc flip: n_def)
  then show ?thesis
    using n m c by (simp add: decode_record_def LENGTH_PREFIX_SIZE_def Let_def corrupt_def)
qed

text \<open>Intact records followed by anything that is no record: the batch is given up.\<close>

definition no_record :: "crc_fn \<Rightarrow> bytes \<Rightarrow> bool" where
  "no_record crc body \<longleftrightarrow>
     decode_record crc body = Inr Incomplete \<or> (\<exists>q d. decode_record crc body = Inl (CorruptRecord q d))"

lemma decode_batch_records_stray:
  assumes "no_record crc body"
  shows "\<forall>e \<in> set es. record_ok e \<Longrightarrow> length es < n \<Longrightarrow>
    decode_batch_records crc (pre @ records_bytes crc es @ body) n (length pre) acc = RecordsTorn"
proof (induction es arbitrary: pre acc n)
  case Nil
  then obtain k where "n = Suc k" by (cases n) auto
  with assms show ?case by (auto simp: no_record_def)
next
  case (Cons e es)
  let ?e = "encode_record crc e"
  from Cons.prems(2) obtain k where k: "n = Suc k" "length es < k" by (cases n) auto
  have "decode_record crc (?e @ records_bytes crc es @ body) = Inr (Complete e (length ?e))"
    using Cons.prems(1) by (intro record_frame.decode_encode) simp
  moreover have "decode_batch_records crc ((pre @ ?e) @ records_bytes crc es @ body) k (length (pre @ ?e)) (acc @ [e])
      = RecordsTorn"
    using Cons.prems(1) k(2) by (intro Cons.IH) simp_all
  ultimately show ?case by (simp add: k(1))
qed

lemma recover_loop_truncates:
  assumes "recover_batch C (pre @ encode_batch_header n g @ body) (length (el_events log)) (length pre) = BatchTruncate"
  shows "recover_loop C (pre @ encode_batch_header n g @ body) (length pre) log = TruncateAt (length pre) log"
proof -
  have "encode_batch_header n g \<noteq> []"
    using length_batch_header [of n g] by (intro notI) simp
  with assms show ?thesis by (subst recover_loop.simps) simp
qed

lemma recover_loop_stray:
  assumes "no_record (crc_hash C) body" and "\<forall>e \<in> set es. record_ok e" and "length es < unat n"
  shows "recover_loop C (pre @ encode_batch_header n g @ records_bytes (crc_hash C) es @ body) (length pre) log
         = TruncateAt (length pre) log"
proof (rule recover_loop_truncates)
  have "decode_batch_records (crc_hash C) (pre @ encode_batch_header n g @ records_bytes (crc_hash C) es @ body)
      (unat n) (length pre + 16) [] = RecordsTorn"
    using decode_batch_records_stray [OF assms, of "pre @ encode_batch_header n g" "[]"] by simp
  then show "recover_batch C (pre @ encode_batch_header n g @ records_bytes (crc_hash C) es @ body)
      (length (el_events log)) (length pre) = BatchTruncate"
    unfolding recover_batch_def drop_at decode_header_at by simp
qed

text \<open>
  C34: a record whose stored checksum is damaged makes recovery discard its batch and every batch behind
  it. The batch header in front is intact, so the scan for later valid batches is never made: wherever the
  record stands in its batch, and however many complete committed batches follow, opening succeeds,
  reports no corruption, and truncates the file to the batches before the damage.
\<close>

theorem damaged_record_discards_later_batches:
  assumes "crc_streaming C" and "store_inv C s" and "\<forall>e \<in> set intact. record_ok e" and "length intact < unat n"
    and "record_ok e" and "c \<noteq> crc_hash C (record_fields e)"
  shows "store_open C open_io_ok (Some (st_file s @ encode_batch_header n g @ records_bytes (crc_hash C) intact
           @ damaged_record e c @ rest @ batches_bytes C later)) = (Some (st_file s), Inr s)"
proof -
  have "no_record (crc_hash C) (damaged_record e c @ rest @ batches_bytes C later)"
    using decode_damaged [where crc = "crc_hash C", OF assms(5,6)] by (auto simp: no_record_def)
  from recover_loop_stray [OF this assms(3,4)] show ?thesis
    unfolding store_open_tail [OF assms(1,2)] by simp
qed

theorem damaged_record_discards_later_batches_witness:
  "store_open demo_crc open_io_ok (Some (st_file demo_store @ encode_batch_header 2 0 @
     records_bytes (crc_hash demo_crc) [demo_event] @
     damaged_record demo_event (demo_hash (record_fields demo_event) + 1) @ [] @
     batches_bytes demo_crc [(1, [demo_event]), (2, [demo_event])]))
   = (Some (st_file demo_store), Inr demo_store)"
  by (rule damaged_record_discards_later_batches [OF crc_streaming_demo store_inv_demo])
    (use record_ok_demo in \<open>simp_all add: demo_crc_def\<close>)

subsection \<open>A failed write followed by an append\<close>

lemma torn_magic:
  assumes "0 < k" "k < 4" "prefix BATCH_HEADER_MAGIC b" "prefix BATCH_HEADER_MAGIC b'"
  shows "take 4 (take k b @ b') \<noteq> BATCH_HEADER_MAGIC"
proof -
  from assms(3,4) obtain r r' where "b = BATCH_HEADER_MAGIC @ r" "b' = BATCH_HEADER_MAGIC @ r'"
    by (auto simp: prefix_def)
  moreover have "k = 1 \<or> k = 2 \<or> k = 3" using assms(1,2) by arith
  ultimately show ?thesis by (auto simp: BATCH_HEADER_MAGIC_def)
qed

lemma magic_prefix_batch: "prefix BATCH_HEADER_MAGIC (batch_bytes C g rs)"
  by (simp add: batch_bytes_def encode_batch_def Let_def encode_batch_header_def)

lemma has_valid_batch_after_at:
  assumes "0 < k" "length q = k"
  shows "has_valid_batch_after (pre @ q @ batch_bytes C g rs @ rest) (length pre)"
proof -
  let ?d = "pre @ q @ batch_bytes C g rs @ rest"
  have "drop (length pre + k) ?d = batch_bytes C g rs @ rest" using assms by simp
  then have "\<exists>h c. decode_batch_header (drop (length pre + k) ?d) = Inr (Complete h c)"
    using decode_header_at by (simp add: batch_bytes_def encode_batch_def Let_def)
  moreover have "length pre + k \<in> set [length pre + 1 ..< length ?d]"
    using assms length_batch_bytes [of C g rs] by simp
  ultimately show ?thesis
    unfolding has_valid_batch_after_def list_ex_iff by (intro bexI [of _ "length pre + k"]) auto
qed

lemma append_Io_valid:
  assumes "store_append C io s sid ev ts ps = (s1, Inl (Io m))"
  shows "\<forall>p \<in> set ps. event_valid p" and "version_matches (st_log s) sid ev"
proof -
  obtain gv where c: "check_expected_version (st_log s) sid ev = Inr gv"
    using assms by (auto simp: store_append_def dest: check_expected_version_Inl split: sum.splits)
  then show "version_matches (st_log s) sid ev"
    using check_expected_version_Inr_iff [of "st_log s" sid ev "fst gv" "snd gv"] by simp
  show "\<forall>p \<in> set ps. event_valid p"
  proof (rule ccontr)
    assume "\<not> ?thesis"
    then obtain e where "build_records (crc_hash C) sid ts ps (fst gv) (snd gv) = Inl e"
      using build_records_Inl_iff [of "crc_hash C" sid ts ps "fst gv" "snd gv"] by blast
    with assms c build_records_Inl_kind [OF this] show False
      by (auto simp: store_append_def split_def)
  qed
qed

lemma failed_write_file:
  assumes "store_append C io s sid ev ts ps = (s1, Inl (Io m))" and "ai_seek io = None"
    and "ai_write io = Some (k, m')"
  shows "s1 = s\<lparr>st_file := st_file s @ take k (batch_bytes C (store_global_position s) (appended s sid ts ps))\<rparr>"
  using assms append_Io_valid [OF assms(1)]
  by (auto simp: store_append_eq Let_def store_global_position_def
      dest: check_expected_version_Inl split: sum.splits)

lemma failed_sync_file:
  assumes "store_append C io s sid ev ts ps = (s1, Inl (Io m))" and "ai_seek io = None"
    and "ai_write io = None"
  shows "s1 = s\<lparr>st_file := st_file s @ batch_bytes C (store_global_position s) (appended s sid ts ps)\<rparr>"
  using assms append_Io_valid [OF assms(1)]
  by (auto simp: store_append_eq Let_def store_global_position_def
      dest: check_expected_version_Inl split: sum.splits option.splits)

text \<open>The bytes that a later append finds behind a failed write: a whole batch, taken for something else.\<close>

lemma stray_batch_no_record:
  assumes "prefix BATCH_HEADER_MAGIC b" and "length b \<le> 2 ^ 30"
  shows "no_record crc b"
proof -
  from assms(1) obtain r where b: "b = [0x45, 0x46, 0x42, 0x42] @ r"
    by (auto simp: BATCH_HEADER_MAGIC_def prefix_def)
  have "u32_from_le [0x45, 0x46, 0x42, 0x42] = 0x42424645" by (simp add: u32_from_le_def)
  with assms(2) b show ?thesis by (simp add: no_record_def decode_record_def LENGTH_PREFIX_SIZE_def Let_def)
qed

lemma stray_batch_no_footer:
  assumes "prefix BATCH_HEADER_MAGIC b" and "8 \<le> length b"
  shows "decode_batch_footer b = Inl (corrupt ''wrong batch footer magic bytes'')"
  using assms
  by (auto simp: decode_batch_footer_def BATCH_FOOTER_SIZE_def BATCH_HEADER_MAGIC_def BATCH_FOOTER_MAGIC_def prefix_def)

lemma recover_loop_no_footer:
  assumes "\<forall>e \<in> set es. record_ok e" and "length es < 2 ^ 32" and "decode_batch_footer body = Inl (corrupt d)"
  shows "recover_loop C (pre @ encode_batch_header (of_nat (length es)) g @ records_bytes (crc_hash C) es @ body)
      (length pre) log = TruncateAt (length pre) log"
proof (rule recover_loop_truncates)
  let ?d = "pre @ encode_batch_header (of_nat (length es)) g @ records_bytes (crc_hash C) es @ body"
  have "decode_batch_records (crc_hash C) ?d (length es) (length pre + 16) []
      = RecordsOk es (length pre + 16 + length (records_bytes (crc_hash C) es))"
    using decode_batch_records_complete [OF assms(1), of "crc_hash C" "pre @ encode_batch_header (of_nat (length es)) g" body "[]"]
    by simp
  moreover have "unat (of_nat (length es) :: u32) = length es" using assms(2) by (intro unat_of_nat_less) simp
  moreover have "decode_batch_footer (drop (length pre + 16 + length (records_bytes (crc_hash C) es)) ?d) = Inl (corrupt d)"
    using assms(3) by simp
  ultimately show "recover_batch C ?d (length (el_events log)) (length pre) = BatchTruncate"
    unfolding recover_batch_def drop_at decode_header_at by (simp add: corrupt_def)
qed

text \<open>A few bytes of a failed batch in front of a batch: the file does not open.\<close>

lemma stray_magic_unopenable:
  assumes "crc_streaming C" and "store_inv C s" and "0 < k" and "k < 4"
  shows "\<exists>q d. store_open C open_io_ok (Some (st_file s @ take k (batch_bytes C g rs) @ batch_bytes C g' rs'))
    = (Some (st_file s @ take k (batch_bytes C g rs) @ batch_bytes C g' rs'), Inl (CorruptRecord q d))"
proof -
  let ?t = "take k (batch_bytes C g rs)" and ?b = "batch_bytes C g' rs'"
  have len: "length ?t = k" using assms(4) by (simp add: length_batch_bytes)
  have "decode_batch_header (?t @ ?b) = Inl (corrupt ''wrong batch header magic bytes'')"
    using torn_magic [OF assms(3,4) magic_prefix_batch magic_prefix_batch]
    by (simp add: decode_batch_header_def BATCH_HEADER_SIZE_def length_batch_bytes)
  moreover have "has_valid_batch_after (st_file s @ ?t @ ?b) (length (st_file s))"
    using has_valid_batch_after_at [OF assms(3) len, of "st_file s" C g' rs' "[]"] by simp
  ultimately have "recover_batch C (st_file s @ ?t @ ?b) (length (el_events (st_log s))) (length (st_file s))
      = BatchErr (CorruptRecord (of_nat (length (el_events (st_log s))))
        ''mid-file corruption: valid batch follows corrupt data'')"
    unfolding recover_batch_def drop_at by (simp add: corrupt_def)
  then show ?thesis
    unfolding store_open_tail [OF assms(1,2)] by (subst recover_loop.simps) simp
qed

text \<open>A failed batch cut off between two records, or in front of its footer: both batches are dropped.\<close>

lemma stray_records_dropped:
  assumes "crc_streaming C" and "store_inv C s" and "batch_ok (g, rs)" and "j \<le> length rs"
    and "length (batch_bytes C g' rs') \<le> 2 ^ 30"
  shows "store_open C open_io_ok (Some (st_file s @ take (16 + length (records_bytes (crc_hash C) (take j rs)))
      (batch_bytes C g rs) @ batch_bytes C g' rs')) = (Some (st_file s), Inr s)"
proof -
  let ?h = "encode_batch_header (of_nat (length rs)) g" and ?b = "batch_bytes C g' rs'"
  let ?r = "records_bytes (crc_hash C) (take j rs)"
  have rs: "records_bytes (crc_hash C) rs = ?r @ records_bytes (crc_hash C) (drop j rs)"
    by (metis append_take_drop_id concat_append map_append)
  have cut: "take (16 + length ?r) (batch_bytes C g rs) = ?h @ ?r"
    unfolding batch_bytes_split [OF assms(1)] rs by simp
  have ok: "\<forall>e \<in> set (take j rs). record_ok e" "length rs < 2 ^ 32" "\<forall>e \<in> set rs. record_ok e"
    using assms(3) by (auto simp: batch_ok_def dest: in_set_takeD)
  have "recover_loop C (st_file s @ ?h @ ?r @ ?b) (length (st_file s)) (st_log s) = TruncateAt (length (st_file s)) (st_log s)"
  proof (cases "j = length rs")
    case True
    with recover_loop_no_footer [OF ok(3,2) stray_batch_no_footer [OF magic_prefix_batch]] show ?thesis
      by (simp add: length_batch_bytes)
  next
    case False
    then have "length (take j rs) < unat (of_nat (length rs) :: u32)"
      using assms(4) batch_count [OF assms(3)] by simp
    from recover_loop_stray [OF stray_batch_no_record [OF magic_prefix_batch assms(5)] ok(1) this] show ?thesis .
  qed
  then show ?thesis unfolding cut append_assoc store_open_tail [OF assms(1,2)] by simp
qed

text \<open>
  C35: a write that fails part way leaves its bytes in the file; the store stays in use, and the next append is
  acknowledged behind them. When the failed write left one to three bytes, the file cannot be opened any
  more: the stray bytes are taken for mid-file corruption. When it stopped between two records or in front
  of the footer (and the acknowledged batch has at most a gigabyte), the file opens without complaint to the
  store before both appends, and the acknowledged batch is cut off. Either way the acknowledged events are lost to the server.
\<close>

theorem failed_write_then_append_loses_batch:
  assumes "crc_streaming C" and "store_inv C s"
    and "store_append C io s sid ev ts ps = (s1, Inl (Io m))"
    and "ai_seek io = None" and "ai_write io = Some (k, m)"
    and "store_append C io' s1 sid' ev' ts' ps' = (s2, Inr rs)"
  shows "(0 < k \<and> k < 4 \<longrightarrow>
            (\<exists>q d. store_open C open_io_ok (Some (st_file s2)) = (Some (st_file s2), Inl (CorruptRecord q d)))) \<and>
         (utf8_events ps \<and> length ps < 2 ^ 32 \<and> j \<le> length ps \<and>
          k = 16 + length (records_bytes (crc_hash C) (take j (appended s sid ts ps))) \<and>
          length (st_file s2) - length (st_file s1) \<le> 2 ^ 30 \<longrightarrow>
            store_open C open_io_ok (Some (st_file s2)) = (Some (st_file s), Inr s))"
proof -
  let ?g = "store_global_position s" and ?rs = "appended s sid ts ps"
  from failed_write_file [OF assms(3-5)] have s1: "st_file s1 = st_file s @ take k (batch_bytes C ?g ?rs)" by simp
  then obtain g' where s2: "st_file s2 = st_file s1 @ batch_bytes C g' rs"
    using assms(6) by (auto simp: store_append_Inr_iff)
  show ?thesis
  proof (intro conjI impI)
    assume "0 < k \<and> k < 4"
    with stray_magic_unopenable [OF assms(1,2)]
    show "\<exists>q d. store_open C open_io_ok (Some (st_file s2)) = (Some (st_file s2), Inl (CorruptRecord q d))"
      by (simp add: s2 s1)
  next
    assume a: "utf8_events ps \<and> length ps < 2 ^ 32 \<and> j \<le> length ps \<and>
      k = 16 + length (records_bytes (crc_hash C) (take j ?rs)) \<and> length (st_file s2) - length (st_file s1) \<le> 2 ^ 30"
    then have "batch_ok (?g, ?rs)" using batch_ok_appended [OF append_Io_valid(1) [OF assms(3)]] by simp
    from stray_records_dropped [OF assms(1,2) this, of j] a
    show "store_open C open_io_ok (Some (st_file s2)) = (Some (st_file s), Inr s)" by (simp add: s2 s1)
  qed
qed

lemma demo_failed_write:
  "store_append demo_crc (append_io_ok\<lparr>ai_write := Some (k, ''disk full'')\<rparr>) demo_store 1 Any 9
     [demo_proposed 4]
   = (demo_store\<lparr>st_file := st_file demo_store @ take k (batch_bytes demo_crc 0
        (appended demo_store 1 9 [demo_proposed 4]))\<rparr>, Inl (Io ''disk full''))"
  by (simp add: store_append_eq check_expected_version_def append_io_ok_def Let_def)
    (simp add: demo_store_def empty_log_def)

definition demo_after_failure :: "nat \<Rightarrow> store" where
  "demo_after_failure k = fst (store_append demo_crc append_io_ok (demo_store\<lparr>st_file := st_file demo_store
     @ take k (batch_bytes demo_crc 0 (appended demo_store 1 9 [demo_proposed 4]))\<rparr>) 1 Any 10 [demo_proposed 5])"

theorem failed_write_then_append_loses_batch_witness:
  "(\<exists>q d. store_open demo_crc open_io_ok (Some (st_file (demo_after_failure 2)))
      = (Some (st_file (demo_after_failure 2)), Inl (CorruptRecord q d))) \<and>
   store_open demo_crc open_io_ok (Some (st_file (demo_after_failure 16))) = (Some (st_file demo_store), Inr demo_store)"
proof -
  let ?s1 = "\<lambda>k. demo_store\<lparr>st_file := st_file demo_store @ take k (batch_bytes demo_crc 0 (appended demo_store 1 9 [demo_proposed 4]))\<rparr>"
  have a2: "store_append demo_crc append_io_ok (?s1 k) 1 Any 10 [demo_proposed 5]
      = (demo_after_failure k, Inr (appended (?s1 k) 1 10 [demo_proposed 5]))" for k
    using append_ok_any [of "[demo_proposed 5]" demo_crc "?s1 k" 1 10] by (auto simp: demo_after_failure_def)
  have grows: "length (st_file (demo_after_failure k)) - length (st_file (?s1 k)) \<le> 2 ^ 30" for k
    using a2 [of k] by (auto simp: store_append_Inr_iff length_batch_bytes appended_def length_encode_record
        demo_proposed_def mk_recorded_def ascii_def)
  note lost = failed_write_then_append_loses_batch [OF crc_streaming_demo store_inv_demo demo_failed_write _ _ a2, where j = 0]
  show ?thesis
  proof (rule conjI)
    show "\<exists>q d. store_open demo_crc open_io_ok (Some (st_file (demo_after_failure 2)))
        = (Some (st_file (demo_after_failure 2)), Inl (CorruptRecord q d))"
      using conjunct1 [OF lost [where k = 2]] by (simp add: append_io_ok_def)
    show "store_open demo_crc open_io_ok (Some (st_file (demo_after_failure 16))) = (Some (st_file demo_store), Inr demo_store)"
      using conjunct2 [OF lost [where k = 16]] grows [of 16] utf8_events_demo(2) by (simp add: append_io_ok_def)
  qed
qed

subsection \<open>A failed fsync followed by an append\<close>

lemma hd_appended:
  "ps \<noteq> [] \<Longrightarrow> re_global_position (hd (appended s sid ts ps)) = store_global_position s"
  by (cases ps) (simp_all add: appended_def store_global_position_def)

lemma appended_ne: "ps \<noteq> [] \<Longrightarrow> appended s sid ts ps \<noteq> []"
  by (metis length_0_conv length_appended)

text \<open>
  C36: when the fsync of a batch fails, the append reports an error and the index ignores the batch,
  but its bytes stay in the file. The next acknowledged append reuses the same global positions,
  and after a restart the log holds both batches: the refused events are back, two events share a
  global position, and positions no longer equal indexes.
\<close>

theorem failed_sync_resurrects_batch:
  assumes "crc_streaming C" and "store_inv C s"
    and "store_append C io s sid ev ts ps = (s1, Inl (Io m))"
    and "ai_seek io = None" and "ai_write io = None"
    and "ps \<noteq> []" and "utf8_events ps" and "length ps < 2 ^ 32"
    and "store_append C io' s1 sid' ev' ts' ps' = (s2, Inr rs)"
    and "ps' \<noteq> []" and "utf8_events ps'" and "length ps' < 2 ^ 32"
    and "length (el_events (st_log s)) + length ps < 2 ^ 64"
  shows "\<exists>s3. store_open C open_io_ok (Some (st_file s2)) = (Some (st_file s2), Inr s3) \<and>
    el_events (st_log s3) = el_events (st_log s) @ appended s sid ts ps @ rs \<and>
    re_global_position (hd rs) = re_global_position (hd (appended s sid ts ps)) \<and>
    \<not> numbered (el_events (st_log s3))"
proof -
  let ?r = "appended s sid ts ps" and ?g = "store_global_position s"
  have s1: "s1 = s\<lparr>st_file := st_file s @ batch_bytes C ?g ?r\<rparr>"
    using failed_sync_file [OF assms(3-5)] .
  have g1: "store_global_position s1 = ?g" by (simp add: s1 store_global_position_def)
  from assms(9) have rs: "rs = appended s1 sid' ts' ps'" "\<forall>p \<in> set ps'. event_valid p"
    and s2: "st_file s2 = (st_file s @ batch_bytes C ?g ?r) @ batch_bytes C ?g rs"
    by (auto simp: store_append_Inr_iff s1 store_global_position_def)
  have "batch_ok (?g, ?r)"
    using batch_ok_appended [OF append_Io_valid(1) [OF assms(3)] assms(7,8)] .
  moreover have "batch_ok (?g, rs)"
    using batch_ok_appended [OF rs(2) assms(11,12)] by (simp add: rs(1))
  moreover obtain bs where "\<forall>b \<in> set bs. batch_ok b"
    "st_file s = encode_header @ batches_bytes C bs" "st_log s = batches_log bs"
    using assms(2) by (auto simp: store_inv_def)
  ultimately have inv: "store_inv C \<lparr>st_file = st_file s2,
      st_log = fold commit_event (?r @ rs) (st_log s)\<rparr>"
    unfolding store_inv_def
    by (intro exI [of _ "bs @ [(?g, ?r), (?g, rs)]"]) (simp add: s2 batches_log_def)
  let ?s3 = "\<lparr>st_file = st_file s2, st_log = fold commit_event (?r @ rs) (st_log s)\<rparr>"
  have ev: "el_events (st_log ?s3) = el_events (st_log s) @ ?r @ rs"
    by (simp add: fold_commit_events)
  have ne: "rs \<noteq> []" "?r \<noteq> []"
    using assms(6,10) rs(1) by (simp_all add: appended_ne)
  have hd: "re_global_position (hd rs) = ?g" using hd_appended [OF assms(10)] rs g1 by simp
  have "\<not> numbered (el_events (st_log ?s3))"
  proof
    assume nb: "numbered (el_events (st_log ?s3))"
    let ?i = "length (el_events (st_log s)) + length ?r"
    have "el_events (st_log ?s3) ! ?i = hd rs"
      unfolding ev using ne by (simp add: nth_append hd_conv_nth)
    moreover have "?i < length (el_events (st_log ?s3))" unfolding ev using ne by simp
    ultimately have "?g = of_nat ?i" using nb hd by (auto simp: numbered_def)
    then have "(of_nat (length (el_events (st_log s))) :: u64) = of_nat ?i"
      by (simp add: store_global_position_def)
    with assms(6,13) show False by (subst (asm) of_nat_inject_less) auto
  qed
  moreover have "store_open C open_io_ok (Some (st_file s2)) = (Some (st_file s2), Inr ?s3)"
    using reopen_same [OF assms(1) inv] by simp
  ultimately show ?thesis using ev hd hd_appended [OF assms(6)] by auto
qed

theorem failed_sync_resurrects_batch_witness:
  "\<exists>s1 s2 s3 rs. store_append demo_crc (append_io_ok\<lparr>ai_sync := Some ''EIO''\<rparr>) demo_store
      1 Any 9 [demo_proposed 4] = (s1, Inl (Io ''EIO'')) \<and>
    store_append demo_crc append_io_ok s1 1 Any 10 [demo_proposed 5] = (s2, Inr rs) \<and>
    store_open demo_crc open_io_ok (Some (st_file s2)) = (Some (st_file s2), Inr s3) \<and>
    \<not> numbered (el_events (st_log s3))"
proof -
  obtain s1 where a1: "store_append demo_crc (append_io_ok\<lparr>ai_sync := Some ''EIO''\<rparr>) demo_store
      1 Any 9 [demo_proposed 4] = (s1, Inl (Io ''EIO''))"
    by (simp add: store_append_eq check_expected_version_def append_io_ok_def Let_def)
  obtain s2 rs where a2: "store_append demo_crc append_io_ok s1 1 Any 10 [demo_proposed 5] = (s2, Inr rs)"
    using append_ok_any [of "[demo_proposed 5]" demo_crc s1 1 10] by auto
  have "\<exists>s3. store_open demo_crc open_io_ok (Some (st_file s2)) = (Some (st_file s2), Inr s3) \<and>
    el_events (st_log s3) = el_events (st_log demo_store) @ appended demo_store 1 9 [demo_proposed 4] @ rs \<and>
    re_global_position (hd rs) = re_global_position (hd (appended demo_store 1 9 [demo_proposed 4])) \<and>
    \<not> numbered (el_events (st_log s3))"
    by (rule failed_sync_resurrects_batch [OF crc_streaming_demo store_inv_demo a1 _ _ _
        utf8_events_demo(2) _ a2 _ utf8_events_demo(2)])
      (simp_all add: append_io_ok_def demo_store_def empty_log_def)
  with a1 a2 show ?thesis by blast
qed

end
