(* ===== verification/Uuid_Text.thy ===== *)
theory Uuid_Text
  imports Domain_Types
begin

text \<open>
  The text form of UUIDs. Formatting and parsing are functions of the \<open>uuid\<close> crate, so they are
  parameters of the definitions that use them (\<open>uuid_str\<close> and \<open>uuid_parse\<close>). The locale \<open>uuid_text\<close>
  states what the sources rely on: parsing what \<open>to_string\<close> printed gives the UUID back. The
  hyphenated lowercase form, as the crate documents it, satisfies the contract.
\<close>

locale uuid_text =
  fixes uuid_str :: "uuid \<Rightarrow> string"
    and uuid_parse :: "string \<Rightarrow> string + uuid"
  assumes parse_str: "uuid_parse (uuid_str u) = Inr u"
begin

lemma str_inject: "uuid_str u = uuid_str v \<longleftrightarrow> u = v"
  by (metis parse_str Inr_inject)

lemma inj_str: "inj uuid_str"
  by (simp add: inj_def str_inject)

end

subsection \<open>The hyphenated form\<close>

definition hex_of_char :: "char \<Rightarrow> nat option" where
  "hex_of_char c =
     (let n = of_char c in
      if 48 \<le> n \<and> n < 58 then Some (n - 48)
      else if 97 \<le> n \<and> n < 103 then Some (n - 87)
      else if 65 \<le> n \<and> n < 71 then Some (n - 55) else None)"

fun hex_val :: "string \<Rightarrow> nat \<Rightarrow> nat option" where
  "hex_val [] acc = Some acc"
| "hex_val (c # cs) acc =
     (case hex_of_char c of None \<Rightarrow> None | Some d \<Rightarrow> hex_val cs (16 * acc + d))"

definition uuid_hyphenated :: "uuid \<Rightarrow> string" where
  "uuid_hyphenated u =
     (let h = hex_digits False 32 (unat u) in
      take 8 h @ ''-'' @ take 4 (drop 8 h) @ ''-'' @ take 4 (drop 12 h) @ ''-''
        @ take 4 (drop 16 h) @ ''-'' @ drop 20 h)"

definition uuid_parse_hyphenated :: "string \<Rightarrow> string + uuid" where
  "uuid_parse_hyphenated s =
     (if length s = 36 \<and> list_all (\<lambda>i. s ! i = CHR ''-'') [8, 13, 18, 23]
      then case hex_val (take 8 s @ take 4 (drop 9 s) @ take 4 (drop 14 s) @ take 4 (drop 19 s)
                  @ drop 24 s) 0 of
             Some n \<Rightarrow> Inr (of_nat n)
           | None \<Rightarrow> Inl ''invalid character''
      else Inl ''invalid length'')"

lemma hex_of_hex_char:
  assumes "d < 16" shows "hex_of_char (hex_char False d) = Some d"
proof -
  have "(of_char (char_of (48 + d)) :: nat) = 48 + d" "(of_char (char_of (87 + d)) :: nat) = 87 + d"
    using assms by simp_all
  with assms show ?thesis by (auto simp: hex_char_def hex_of_char_def Let_def)
qed

lemma length_hex_digits [simp, length_simps]: "length (hex_digits up k n) = k"
  by (induction k arbitrary: n) auto

lemma hex_val_append:
  "hex_val (xs @ ys) acc = (case hex_val xs acc of None \<Rightarrow> None | Some a \<Rightarrow> hex_val ys a)"
  by (induction xs arbitrary: acc) (auto split: option.splits)

lemma hex_val_digits: "n < 16 ^ k \<Longrightarrow> hex_val (hex_digits False k n) acc = Some (16 ^ k * acc + n)"
proof (induction k arbitrary: n)
  case (Suc k)
  then have "n div 16 < 16 ^ k" by (simp add: less_mult_imp_div_less)
  from Suc.IH [OF this] show ?case
    by (simp add: hex_val_append hex_of_hex_char algebra_simps)
qed simp

lemma take_drop_pieces:
  "take 8 h @ take 4 (drop 8 h) @ take 4 (drop 12 h) @ take 4 (drop 16 h) @ drop 20 h = h"
  by (simp flip: append_assoc take_add)

interpretation hyphenated: uuid_text uuid_hyphenated uuid_parse_hyphenated
proof
  fix u :: uuid
  define h where "h = hex_digits False 32 (unat u)"
  have len: "length h = 32" by (simp add: h_def)
  have "unat u < 16 ^ 32" using unsigned_less [of u] by simp
  then have "hex_val h 0 = Some (unat u)" by (simp add: h_def hex_val_digits)
  then show "uuid_parse_hyphenated (uuid_hyphenated u) = Inr u"
    using len take_drop_pieces [of h]
    by (simp add: uuid_hyphenated_def uuid_parse_hyphenated_def Let_def nth_append flip: h_def)
qed

end
