(* ===== verification/Reader.thy ===== *)
theory Reader
  imports Store Uuid_Text "HOL-Library.List_Lexorder" "HOL-Library.Char_ord"
begin

text \<open>
  The read-only handle of \<open>src/reader.rs\<close>. A \<open>ReadIndex\<close> shares the writer's \<open>EventLog\<close> behind an
  \<open>RwLock\<close>; an operation holds the read lock for its whole duration, so it is a function of one
  value of the log. A \<open>None\<close> result stands for a panic (slice or index out of range).

  The locale \<open>log_reader\<close> is the interface the subscription code uses; both \<open>Store\<close> and \<open>ReadIndex\<close>
  provide it.
\<close>

record read_index =
  ri_log :: event_log

definition read_index_new :: "event_log \<Rightarrow> read_index" where
  "read_index_new log = \<lparr>ri_log = log\<rparr>"

definition ri_stream_version :: "read_index \<Rightarrow> uuid \<Rightarrow> u64 option" where
  "ri_stream_version r sid =
     map_option (\<lambda>positions. of_nat (length positions) - 1) (map_of (el_streams (ri_log r)) sid)"

definition ri_global_position :: "read_index \<Rightarrow> u64" where
  "ri_global_position r = of_nat (length (el_events (ri_log r)))"

definition ri_list_streams :: "(uuid \<Rightarrow> string) \<Rightarrow> read_index \<Rightarrow> stream_info list" where
  "ri_list_streams uuid_str r =
     (let streams = map (\<lambda>(id, positions).
            \<lparr>si_stream_id = id, si_event_count = of_nat (length positions),
             si_latest_version = of_nat (length positions) - 1\<rparr>) (el_streams (ri_log r))
      in sort_key (\<lambda>i. uuid_str (si_stream_id i)) streams)"

definition ri_read_stream ::
  "read_index \<Rightarrow> uuid \<Rightarrow> u64 \<Rightarrow> u64 \<Rightarrow> (error + recorded_event list) option" where
  "ri_read_stream r sid from_version max_count =
     (case map_of (el_streams (ri_log r)) sid of
        None \<Rightarrow> Some (Inl (StreamNotFound sid))
      | Some positions \<Rightarrow>
          (let stream_len = of_nat (length positions) :: u64;
               start = min from_version stream_len;
               stop = min (saturating_add from_version max_count) stream_len
           in case slice positions (unat start) (unat stop) of
                None \<Rightarrow> None
              | Some window \<Rightarrow>
                  map_option Inr (index_all (el_events (ri_log r)) (map unat window))))"

definition ri_read_all :: "read_index \<Rightarrow> u64 \<Rightarrow> u64 \<Rightarrow> recorded_event list option" where
  "ri_read_all r from_position max_count =
     (let len = of_nat (length (el_events (ri_log r))) :: u64;
          start = min from_position len;
          stop = min (saturating_add from_position max_count) len
      in slice (el_events (ri_log r)) (unat start) (unat stop))"

lemma numbered_butlast:
  assumes "numbered (es @ [e])"
  shows "numbered es" "re_stream_version e = of_nat (length (stream_events es (re_stream_id e)))"
proof -
  show "numbered es"
    unfolding numbered_def
  proof (intro allI impI)
    fix i assume "i < length es"
    with assms show "re_global_position (es ! i) = of_nat i \<and> re_stream_version (es ! i)
        = of_nat (length (stream_events (take i es) (re_stream_id (es ! i))))"
      unfolding numbered_def by (auto simp: nth_append dest: spec [of _ i])
  qed
  show "re_stream_version e = of_nat (length (stream_events es (re_stream_id e)))"
    using assms by (auto simp: numbered_def dest: spec [of _ "length es"])
qed

lemma numbered_stream:
  assumes "numbered es" and "i < length (stream_events es sid)"
  shows "re_stream_version (stream_events es sid ! i) = of_nat i"
  using assms
proof (induction es rule: rev_induct)
  case (snoc e es)
  show ?case
  proof (cases "i < length (stream_events es sid)")
    case True
    with snoc.IH numbered_butlast [OF snoc.prems(1)] show ?thesis by (simp add: nth_append)
  next
    case False
    with snoc.prems(2) have "re_stream_id e = sid \<and> i = length (stream_events es sid)"
      by (auto simp: stream_events_def split: if_splits)
    with numbered_butlast [OF snoc.prems(1)] show ?thesis by (simp add: stream_events_def)
  qed
qed (simp add: stream_events_def)

subsection \<open>The reading interface\<close>

text \<open>
  What a client may rely on: reads return windows of one sequence of events, in order, and the
  head position is its length.
\<close>

locale log_reader =
  fixes contents :: "'i \<Rightarrow> recorded_event list"
    and usable :: "'i \<Rightarrow> bool"
    and read_all :: "'i \<Rightarrow> u64 \<Rightarrow> u64 \<Rightarrow> recorded_event list option"
    and read_stream :: "'i \<Rightarrow> uuid \<Rightarrow> u64 \<Rightarrow> u64 \<Rightarrow> (error + recorded_event list) option"
    and stream_version :: "'i \<Rightarrow> uuid \<Rightarrow> u64 option"
    and global_position :: "'i \<Rightarrow> u64"
  assumes positions: "usable i \<Longrightarrow> numbered (contents i)"
    and bounded: "usable i \<Longrightarrow> length (contents i) < 2 ^ 64"
    and read_all: "usable i \<Longrightarrow>
          read_all i a n = Some (take (unat n) (drop (unat a) (contents i)))"
    and read_stream: "usable i \<Longrightarrow> read_stream i sid a n =
          Some (if stream_events (contents i) sid = [] then Inl (StreamNotFound sid)
                else Inr (take (unat n) (drop (unat a) (stream_events (contents i) sid))))"
    and stream_version: "usable i \<Longrightarrow> stream_version i sid =
          (if stream_events (contents i) sid = [] then None
           else Some (of_nat (length (stream_events (contents i) sid) - 1)))"
    and global_position: "usable i \<Longrightarrow> global_position i = of_nat (length (contents i))"
begin

lemma read_all_total: "usable i \<Longrightarrow> \<exists>es. read_all i a n = Some es"
  by (simp add: read_all)

lemma unat_head: "usable i \<Longrightarrow> unat (global_position i) = length (contents i)"
  using bounded by (simp add: global_position unat_of_nat_less)

lemma read_all_positions:
  assumes "usable i" and "read_all i a n = Some es" and "j < length es"
  shows "re_global_position (es ! j) = of_nat (unat a + j)"
proof -
  have es: "es = take (unat n) (drop (unat a) (contents i))" using assms by (simp add: read_all)
  with assms(3) have j: "unat a + j < length (contents i)" "j < unat n" by auto
  then have "es ! j = contents i ! (unat a + j)" by (simp add: es)
  with j positions [OF assms(1)] show ?thesis by (simp add: numbered_def)
qed

lemma read_all_empty_iff:
  "usable i \<Longrightarrow> 0 < n \<Longrightarrow> read_all i a n = Some [] \<longleftrightarrow> length (contents i) \<le> unat a"
  by (simp add: read_all word_less_nat_alt)

lemma read_stream_ids:
  assumes "usable i" and "read_stream i sid a n = Some (Inr es)" and "j < length es"
  shows "re_stream_id (es ! j) = sid"
proof -
  have "es ! j \<in> set es" using assms(3) by simp
  moreover have "set es \<subseteq> set (stream_events (contents i) sid)"
    using assms(1,2) set_take_subset set_drop_subset
    by (fastforce simp: read_stream split: if_splits)
  ultimately show ?thesis by (auto simp: stream_events_def)
qed

end

text \<open>Both handles run the same code on the shared log.\<close>

lemma ri_as_store:
  fixes r :: read_index
  defines "s \<equiv> \<lparr>st_file = [], st_log = ri_log r\<rparr>"
  shows "ri_read_all r a n = store_read_all s a n"
    and "ri_read_stream r sid a n = store_read_stream s sid a n"
    and "ri_stream_version r sid = store_stream_version s sid"
    and "ri_global_position r = store_global_position s"
  by (simp_all add: s_def ri_read_all_def store_read_all_def ri_read_stream_def
      store_read_stream_def ri_stream_version_def store_stream_version_def
      ri_global_position_def store_global_position_def Let_def split: option.split)

lemma ri_of_store:
  "ri_read_stream (read_index_new (st_log s)) sid a n = store_read_stream s sid a n"
  "ri_read_all (read_index_new (st_log s)) a n = store_read_all s a n"
  by (simp_all add: ri_as_store read_index_new_def store_read_stream_def store_read_all_def Let_def
      split: option.split)

lemma of_nat_pred: "xs \<noteq> [] \<Longrightarrow> (of_nat (length xs) - 1 :: 'a::len word) = of_nat (length xs - 1)"
  by (cases xs) simp_all

lemma store_stream_version_eq:
  "log_wf (st_log s) \<Longrightarrow> store_stream_version s sid =
     (if stream_events (el_events (st_log s)) sid = [] then None
      else Some (of_nat (length (stream_events (el_events (st_log s)) sid) - 1)))"
  by (simp add: store_stream_version_def map_of_streams Let_def of_nat_pred)

interpretation store_reader: log_reader "\<lambda>s. el_events (st_log s)" "\<lambda>s. log_wf (st_log s)"
  store_read_all store_read_stream store_stream_version store_global_position
  by unfold_locales
    (auto simp: store_read_all_eq store_read_stream_eq log_read_stream_def store_stream_version_eq
      store_global_position_def log_wf_def Let_def)

interpretation ri_reader: log_reader "\<lambda>r. el_events (ri_log r)" "\<lambda>r. log_wf (ri_log r)"
  ri_read_all ri_read_stream ri_stream_version ri_global_position
  unfolding ri_as_store [abs_def]
  by unfold_locales
    (auto simp: store_read_all_eq store_read_stream_eq log_read_stream_def store_stream_version_eq
      store_global_position_def log_wf_def Let_def)

subsection \<open>Listing streams\<close>

text \<open>What a stream's entry says, computed from the events alone.\<close>

definition stream_summary :: "recorded_event list \<Rightarrow> uuid \<Rightarrow> stream_info" where
  "stream_summary es sid =
     \<lparr>si_stream_id = sid, si_event_count = of_nat (length (stream_events es sid)),
      si_latest_version = of_nat (length (stream_events es sid) - 1)\<rparr>"

lemma sort_key_image_unique:
  fixes key :: "'b \<Rightarrow> 'k::linorder"
  assumes "inj key" and "distinct ids" and "distinct ids'" and "set ids = set ids'"
  shows "sort_key key ids = sort_key key ids'"
proof -
  have "map key (sort_key key xs) = sorted_list_of_set (key ` set xs)" if "distinct xs" for xs
    using that assms(1)
    by (intro sorted_distinct_set_unique) (auto simp: distinct_map intro: inj_on_subset)
  with assms(2-4) have "map key (sort_key key ids) = map key (sort_key key ids')" by simp
  with assms(1) show ?thesis by (rule map_injective [rotated])
qed

lemma sort_key_map: "sort_key k (map f xs) = map f (sort_key (k \<circ> f) xs)"
proof -
  have ins: "insort_key k (f x) (map f ys) = map f (insort_key (k \<circ> f) x ys)" for x ys
    by (induction ys) simp_all
  show ?thesis by (induction xs) (simp_all add: ins del: comp_apply)
qed

lemma streams_entries:
  assumes "log_wf log"
  shows "fst ` set (el_streams log) = re_stream_id ` set (el_events log)"
    and "(sid, ps) \<in> set (el_streams log) \<Longrightarrow>
           stream_events (el_events log) sid \<noteq> [] \<and>
           length ps = length (stream_events (el_events log) sid)"
proof -
  have "distinct (map fst (el_streams log))" using assms by (simp add: log_wf_def index_ok_def)
  then have m: "(sid, ps) \<in> set (el_streams log) \<longleftrightarrow> map_of (el_streams log) sid = Some ps" for sid ps
    by simp
  have "map_of (el_streams log) sid \<noteq> None \<longleftrightarrow> stream_events (el_events log) sid \<noteq> []" for sid
    using assms by (auto simp: map_of_streams Let_def split: if_splits)
  then show "fst ` set (el_streams log) = re_stream_id ` set (el_events log)"
    unfolding map_of_eq_None_iff stream_events_def filter_empty_conv by (intro set_eqI) (simp add: image_iff, metis)
  show "(sid, ps) \<in> set (el_streams log) \<Longrightarrow>
           stream_events (el_events log) sid \<noteq> [] \<and>
           length ps = length (stream_events (el_events log) sid)"
    using assms by (auto simp: m map_of_streams Let_def split: if_splits)
qed

lemma si_summary: "si_stream_id (stream_summary es sid) = sid"
  by (simp add: stream_summary_def)

lemma list_streams_as_map:
  assumes "log_wf (ri_log r)"
  shows "ri_list_streams uuid_str r =
    map (stream_summary (el_events (ri_log r)))
      (sort_key uuid_str (map fst (el_streams (ri_log r))))"
proof -
  have "map (\<lambda>(id, positions).
            \<lparr>si_stream_id = id, si_event_count = of_nat (length positions),
             si_latest_version = of_nat (length positions) - 1\<rparr>) (el_streams (ri_log r))
      = map (stream_summary (el_events (ri_log r))) (map fst (el_streams (ri_log r)))"
    using streams_entries(2) [OF assms]
    by (auto simp: stream_summary_def of_nat_pred)
  then show ?thesis
    unfolding ri_list_streams_def Let_def by (simp only: sort_key_map comp_def si_summary)
qed

text \<open>
  C26: \<open>list_streams\<close> returns one entry for every stream that has an event and no other, with its
  event count and latest version, in the order of the streams' text form, whatever order the hash
  map yields its entries in. Its version arithmetic never underflows.
\<close>

theorem list_streams_exact:
  assumes "log_wf (ri_log r)" and "uuid_text uuid_str uuid_parse"
  shows "ri_list_streams uuid_str r =
    map (\<lambda>sid. let n = length (filter (\<lambda>e. re_stream_id e = sid) (el_events (ri_log r)))
               in \<lparr>si_stream_id = sid, si_event_count = of_nat n, si_latest_version = of_nat (n - 1)\<rparr>)
      (sort_key uuid_str (remdups (map re_stream_id (el_events (ri_log r)))))"
proof -
  have "sort_key uuid_str (map fst (el_streams (ri_log r)))
      = sort_key uuid_str (remdups (map re_stream_id (el_events (ri_log r))))"
    using assms(1) streams_entries(1) [OF assms(1)]
    by (intro sort_key_image_unique uuid_text.inj_str [OF assms(2)])
      (simp_all add: log_wf_def index_ok_def)
  then show ?thesis
    unfolding list_streams_as_map [OF assms(1)]
    by (simp add: stream_summary_def [abs_def] stream_events_def Let_def)
qed

theorem list_streams_exact_witness:
  "\<exists>s rs. store_append demo_crc append_io_ok demo_store 1 Any 9 [demo_proposed 4, demo_proposed 5]
       = (s, Inr rs) \<and>
     ri_list_streams uuid_hyphenated (read_index_new (st_log s))
       = [\<lparr>si_stream_id = 1, si_event_count = 2, si_latest_version = 1\<rparr>]"
proof -
  obtain s rs where a: "store_append demo_crc append_io_ok demo_store 1 Any 9
      [demo_proposed 4, demo_proposed 5] = (s, Inr rs)"
    using demo_append by blast
  let ?r = "read_index_new (st_log s)"
  from a have l: "st_log s = update_index 1 rs (st_log demo_store)"
    and rs: "rs = appended demo_store 1 9 [demo_proposed 4, demo_proposed 5]"
    by (auto simp: store_append_Inr_iff)
  have "log_wf (ri_log ?r)"
    using log_wf_update [OF log_wf_demo, of "[demo_proposed 4, demo_proposed 5]" 1 9] l rs
    by (simp add: read_index_new_def appended_def demo_store_def empty_log_def)
  from list_streams_exact [OF this hyphenated.uuid_text_axioms] a l rs show ?thesis
    by (simp add: read_index_new_def update_index_def appended_def demo_store_def empty_log_def
        mk_recorded_def)
qed

end
