(* ===== verification/Event_Store_Spec.thy ===== *)
theory Event_Store_Spec
  imports Recovery Reader
begin

text \<open>
  What the store promises, without bytes, offsets or an index: a sequence of events that appends
  extend and reads look at. The store with its file, its hash map of positions, its crash and its
  recovery is a refinement of it: a forward simulation in the style of event systems, stated once in
  the locale \<open>forward_simulation\<close> and interpreted on the two step relations.
\<close>

subsection \<open>Runs and simulation\<close>

inductive run :: "('s \<Rightarrow> 'l \<Rightarrow> 's \<Rightarrow> bool) \<Rightarrow> 's \<Rightarrow> 'l list \<Rightarrow> 's \<Rightarrow> bool" for step where
  run_Nil [simp, intro]: "run step s [] s"
| run_Cons: "step s l s' \<Longrightarrow> run step s' ls s'' \<Longrightarrow> run step s (l # ls) s''"

inductive_simps run_Nil_iff [simp]: "run step s [] s'"
inductive_simps run_Cons_iff: "run step s (l # ls) s'"

lemma run_append: "run step s (xs @ ys) s'' \<longleftrightarrow> (\<exists>s'. run step s xs s' \<and> run step s' ys s'')"
  by (induction xs arbitrary: s) (auto simp: run_Cons_iff)

lemma run_single: "run step s [l] s' \<longleftrightarrow> step s l s'"
  by (simp add: run_Cons_iff)

text \<open>The same steps without their labels.\<close>

lemma run_relpowp: "run step s ls s' \<Longrightarrow> ((\<lambda>a b. \<exists>l. step a l b) ^^ length ls) s s'"
proof (induction rule: run.induct)
  case (run_Cons s l s' ls s'')
  then show ?case by (auto simp del: relpowp.simps intro: relpowp_Suc_I2)
qed simp

lemma rtranclp_run: "(\<lambda>a b. \<exists>l. step a l b)\<^sup>*\<^sup>* s s' \<Longrightarrow> \<exists>ls. run step s ls s'"
  by (induction rule: converse_rtranclp_induct) (blast intro: run_Cons)+

text \<open>
  A simulation matches each step of the implementation by a step with the same label, or, when the
  step is not visible from outside, by no step at all. Then every run has an abstract run with the
  same visible labels.
\<close>

locale trace_simulation =
  fixes cstep :: "'c \<Rightarrow> 'l \<Rightarrow> 'c \<Rightarrow> bool"
    and astep :: "'a \<Rightarrow> 'l \<Rightarrow> 'a \<Rightarrow> bool"
    and sim :: "'c \<Rightarrow> 'a \<Rightarrow> bool"
    and visible :: "'l \<Rightarrow> bool"
  assumes simulate: "sim c a \<Longrightarrow> cstep c l c' \<Longrightarrow>
    (\<exists>a'. astep a l a' \<and> sim c' a') \<or> (\<not> visible l \<and> sim c' a)"
begin

lemma traces:
  "run cstep c ls c' \<Longrightarrow> sim c a \<Longrightarrow> \<exists>ls' a'. run astep a ls' a' \<and> filter visible ls' = filter visible ls \<and> sim c' a'"
proof (induction arbitrary: a rule: run.induct)
  case (run_Cons c l c1 ls c2)
  from simulate [OF run_Cons.prems run_Cons.hyps(1)] show ?case
  proof
    assume "\<exists>a'. astep a l a' \<and> sim c1 a'"
    then obtain a1 where a1: "astep a l a1" "sim c1 a1" by blast
    from run_Cons.IH [OF a1(2)] obtain ls' a' where
      "run astep a1 ls' a'" "filter visible ls' = filter visible ls" "sim c2 a'" by blast
    with a1(1) show ?thesis by (intro exI [of _ "l # ls'"] exI [of _ a']) (simp add: run.run_Cons)
  next
    assume "\<not> visible l \<and> sim c1 a"
    with run_Cons.IH [of a] show ?thesis by auto
  qed
qed (auto intro: exI [of _ "[]"])

end

locale forward_simulation =
  fixes cstep :: "'c \<Rightarrow> 'l \<Rightarrow> 'c \<Rightarrow> bool"
    and astep :: "'a \<Rightarrow> 'l \<Rightarrow> 'a \<Rightarrow> bool"
    and sim :: "'c \<Rightarrow> 'a \<Rightarrow> bool"
  assumes step: "sim c a \<Longrightarrow> cstep c l c' \<Longrightarrow> \<exists>a'. astep a l a' \<and> sim c' a'"

text \<open>When every label is visible the abstract run has exactly the same labels.\<close>

sublocale forward_simulation \<subseteq> all_visible: trace_simulation cstep astep sim "\<lambda>_. True"
  by unfold_locales (simp add: step)

context forward_simulation
begin

lemma runs: "run cstep c ls c' \<Longrightarrow> sim c a \<Longrightarrow> \<exists>a'. run astep a ls a' \<and> sim c' a'"
  using all_visible.traces by auto

end

subsection \<open>The specification\<close>

text \<open>
  A label is one observable operation with its result. A restart reports nothing; the batch that
  was being written when the process died may have become part of the sequence.
\<close>

datatype store_op =
    Acked uuid expected_version u64 "proposed_event list" "recorded_event list"
  | Refused uuid expected_version u64 "proposed_event list"
  | ReadAll u64 u64 "recorded_event list"
  | ReadStream uuid u64 u64 "error + recorded_event list"
  | Head u64
  | Restarted

definition spec_count :: "recorded_event list \<Rightarrow> uuid \<Rightarrow> nat" where
  "spec_count es sid = length (filter (\<lambda>e. re_stream_id e = sid) es)"

definition spec_accepts :: "recorded_event list \<Rightarrow> uuid \<Rightarrow> expected_version \<Rightarrow> bool" where
  "spec_accepts es sid ev =
     (case ev of
        Any \<Rightarrow> True
      | NoStream \<Rightarrow> spec_count es sid = 0
      | Exact n \<Rightarrow> spec_count es sid = Suc (unat n))"

definition spec_batch :: "recorded_event list \<Rightarrow> uuid \<Rightarrow> u64 \<Rightarrow> proposed_event list \<Rightarrow> recorded_event list" where
  "spec_batch es sid ts ps =
     map (\<lambda>i. \<lparr>re_event_id = pe_event_id (ps ! i), re_stream_id = sid,
               re_stream_version = of_nat (spec_count es sid + i),
               re_global_position = of_nat (length es + i), re_recorded_at = ts,
               re_event_type = pe_event_type (ps ! i), re_metadata = pe_metadata (ps ! i),
               re_payload = pe_payload (ps ! i)\<rparr>) [0..<length ps]"

inductive spec_step :: "recorded_event list \<Rightarrow> store_op \<Rightarrow> recorded_event list \<Rightarrow> bool" where
  acked: "spec_accepts es sid ev \<Longrightarrow> \<forall>p \<in> set ps. event_valid p \<Longrightarrow> rs = spec_batch es sid ts ps \<Longrightarrow>
     spec_step es (Acked sid ev ts ps rs) (es @ rs)"
| refused: "\<not> spec_accepts es sid ev \<or> (\<exists>p \<in> set ps. \<not> event_valid p) \<Longrightarrow>
     spec_step es (Refused sid ev ts ps) es"
| read_all: "spec_step es (ReadAll a n (take (unat n) (drop (unat a) es))) es"
| read_stream: "sub = filter (\<lambda>e. re_stream_id e = sid) es \<Longrightarrow>
     spec_step es (ReadStream sid a n (if sub = [] then Inl (StreamNotFound sid)
                                       else Inr (take (unat n) (drop (unat a) sub)))) es"
| head: "spec_step es (Head (of_nat (length es))) es"
| restarted: "spec_step es Restarted es"
| restarted_with_batch: "\<forall>p \<in> set ps. event_valid p \<Longrightarrow>
     spec_step es Restarted (es @ spec_batch es sid ts ps)"

subsection \<open>The store as a step relation\<close>

text \<open>
  Appends are as the service sends them: non-empty, UTF-8 types, and within the widths of the batch
  header and of positions. The disk works; a crash leaves any prefix of the batch in flight.
\<close>

definition sendable :: "store \<Rightarrow> proposed_event list \<Rightarrow> bool" where
  "sendable s ps \<longleftrightarrow> ps \<noteq> [] \<and> utf8_events ps \<and> length ps < 2 ^ 32 \<and>
     length (el_events (st_log s)) + length ps < 2 ^ 64"

inductive store_step :: "crc_ops \<Rightarrow> store \<Rightarrow> store_op \<Rightarrow> store \<Rightarrow> bool" for C where
  acked: "sendable s ps \<Longrightarrow> store_append C append_io_ok s sid ev ts ps = (s', Inr rs) \<Longrightarrow>
     store_step C s (Acked sid ev ts ps rs) s'"
| refused: "sendable s ps \<Longrightarrow> store_append C append_io_ok s sid ev ts ps = (s', Inl e) \<Longrightarrow>
     store_step C s (Refused sid ev ts ps) s'"
| read_all: "store_read_all s a n = Some es \<Longrightarrow> store_step C s (ReadAll a n es) s"
| read_stream: "store_read_stream s sid a n = Some r \<Longrightarrow> store_step C s (ReadStream sid a n r) s"
| head: "store_step C s (Head (store_global_position s)) s"
| restarted: "store_open C open_io_ok (Some (st_file s)) = (f, Inr s') \<Longrightarrow> store_step C s Restarted s'"
| crashed: "sendable s ps \<Longrightarrow> \<forall>p \<in> set ps. event_valid p \<Longrightarrow>
     prefix torn (batch_bytes C (store_global_position s) (appended s sid ts ps)) \<Longrightarrow>
     store_open C open_io_ok (Some (st_file s @ torn)) = (f, Inr s') \<Longrightarrow>
     store_step C s Restarted s'"

inductive_cases store_stepE: "store_step C s l s'"

subsection \<open>The simulation\<close>

definition store_sim :: "crc_ops \<Rightarrow> store \<Rightarrow> recorded_event list \<Rightarrow> bool" where
  "store_sim C s es \<longleftrightarrow> crc_streaming C \<and> store_inv C s \<and> log_wf (st_log s) \<and> el_events (st_log s) = es"

lemma accepts_iff_matches:
  assumes "log_wf log"
  shows "spec_accepts (el_events log) sid ev \<longleftrightarrow> version_matches log sid ev"
proof -
  let ?n = "spec_count (el_events log) sid"
  have bound: "?n < 2 ^ 64"
    using le_less_trans [OF length_stream_events [of "el_events log" sid]] assms
    by (simp add: log_wf_def spec_count_def flip: stream_events_def)
  have lookup: "(case map_of (el_streams log) sid of None \<Rightarrow> ?n = 0
                 | Some ps \<Rightarrow> ?n \<noteq> 0 \<and> length ps = ?n)"
    using map_of_streams [OF assms, of sid]
    by (auto simp: spec_count_def stream_events_def Let_def split: option.splits if_splits)
  have "?n = Suc (unat m) \<longleftrightarrow> ?n \<noteq> 0 \<and> of_nat ?n - 1 = m" for m :: u64
  proof (cases ?n)
    case (Suc k)
    then have "unat (of_nat k :: u64) = k" using bound by (intro unat_of_nat_less) simp
    with Suc show ?thesis by auto
  qed simp
  with lookup show ?thesis
    by (cases ev) (auto simp: spec_accepts_def version_matches_def split: option.splits)
qed

lemma appended_eq_spec_batch:
  assumes "log_wf (st_log s)"
  shows "appended s sid ts ps = spec_batch (el_events (st_log s)) sid ts ps"
proof -
  have "next_version (st_log s) sid = of_nat (spec_count (el_events (st_log s)) sid)"
    using assms by (simp add: next_version_index_ok log_wf_def spec_count_def stream_events_def)
  then show ?thesis
    by (intro nth_equalityI) (simp_all add: appended_def spec_batch_def nth_number_events mk_recorded_def)
qed

lemma sim_acked:
  assumes "store_sim C s es" and "sendable s ps"
    and "store_append C append_io_ok s sid ev ts ps = (s', Inr rs)"
  shows "spec_step es (Acked sid ev ts ps rs) (es @ rs) \<and> store_sim C s' (es @ rs)"
proof -
  from assms(1) have wf: "log_wf (st_log s)" and es: "es = el_events (st_log s)"
    by (simp_all add: store_sim_def)
  from assms(3) have a: "version_matches (st_log s) sid ev" "\<forall>p \<in> set ps. event_valid p"
    "rs = appended s sid ts ps" "st_log s' = update_index sid rs (st_log s)"
    by (auto simp: store_append_Inr_iff)
  have "log_wf (st_log s')"
    using append_preserves_log_wf [OF wf _ _ assms(3)] assms(2) by (simp add: sendable_def)
  then show ?thesis
    using assms a es accepts_iff_matches [OF wf] appended_eq_spec_batch [OF wf]
    by (auto simp: store_sim_def sendable_def update_index_def intro!: spec_step.acked intro: store_inv_append)
qed

lemma sim_refused:
  assumes "store_sim C s es" and "store_append C append_io_ok s sid ev ts ps = (s', Inl e)"
  shows "spec_step es (Refused sid ev ts ps) es \<and> store_sim C s' es"
proof -
  from assms(1) have wf: "log_wf (st_log s)" and es: "es = el_events (st_log s)"
    by (simp_all add: store_sim_def)
  have "\<not> (version_matches (st_log s) sid ev \<and> (\<forall>p \<in> set ps. event_valid p))"
    using assms(2) store_append_Inr_iff [of C append_io_ok s sid ev ts ps]
    by (auto simp: append_io_ok_def)
  moreover have "s' = s"
    using assms(2) by (auto simp: store_append_eq append_io_ok_def Let_def split: sum.splits if_splits)
  ultimately show ?thesis
    using assms(1) es accepts_iff_matches [OF wf] by (auto intro!: spec_step.refused)
qed

lemma sim_crashed:
  assumes "store_sim C s es" and "sendable s ps" and "\<forall>p \<in> set ps. event_valid p"
    and "prefix torn (batch_bytes C (store_global_position s) (appended s sid ts ps))"
    and "store_open C open_io_ok (Some (st_file s @ torn)) = (f, Inr s')"
  shows "\<exists>es'. spec_step es Restarted es' \<and> store_sim C s' es'"
proof -
  from assms(1) have C: "crc_streaming C" and inv: "store_inv C s" and wf: "log_wf (st_log s)"
    by (simp_all add: store_sim_def)
  have ps: "ps \<noteq> []" "utf8_events ps" "length ps < 2 ^ 32" using assms(2) by (simp_all add: sendable_def)
  let ?s = "fst (store_append C append_io_ok s sid Any ts ps)"
  have app: "store_append C append_io_ok s sid Any ts ps = (?s, Inr (appended s sid ts ps))"
    using append_ok_any [OF assms(3)] by simp
  from reopen_crashed [OF C inv ps(1) assms(3) ps(2,3) assms(4)] assms(5) append_ok_any [OF assms(3)]
  consider "s' = ?s" | "s' = s" by (auto split: if_splits)
  then show ?thesis
  proof cases
    case 1
    have "es @ appended s sid ts ps = es @ spec_batch es sid ts ps"
      using assms(1) appended_eq_spec_batch [OF wf] by (simp add: store_sim_def)
    with sim_acked [OF assms(1,2) app] 1 assms(3) show ?thesis
      by (metis spec_step.restarted_with_batch)
  qed (use assms(1) spec_step.restarted in blast)
qed

interpretation store_refines: forward_simulation "store_step C" spec_step "store_sim C"
proof unfold_locales
  fix s es l s'
  assume sim: "store_sim C s es" and step: "store_step C s l s'"
  from sim have C: "crc_streaming C" "store_inv C s" "log_wf (st_log s)" "el_events (st_log s) = es"
    by (simp_all add: store_sim_def)
  from step show "\<exists>es'. spec_step es l es' \<and> store_sim C s' es'"
  proof (cases rule: store_step.cases)
    case (acked ps sid ev ts rs)
    with sim_acked [OF sim] show ?thesis by blast
  next
    case (refused ps sid ev ts e)
    with sim_refused [OF sim] show ?thesis by blast
  next
    case (read_all a n es')
    with C sim spec_step.read_all [of es] show ?thesis by (auto simp: store_reader.read_all)
  next
    case (read_stream sid a n r)
    then have "l = ReadStream sid a n (if filter (\<lambda>e. re_stream_id e = sid) es = []
        then Inl (StreamNotFound sid) else Inr (take (unat n) (drop (unat a) (filter (\<lambda>e. re_stream_id e = sid) es))))"
      using C by (auto simp: store_reader.read_stream stream_events_def)
    with read_stream(2) sim spec_step.read_stream [OF refl, of es sid a n] show ?thesis by auto
  next
    case head
    with C sim spec_step.head [of es] show ?thesis by (auto simp: store_global_position_def)
  next
    case (restarted f)
    with reopen_same [OF C(1,2)] sim spec_step.restarted show ?thesis by auto
  next
    case (crashed ps torn sid ts f)
    with sim_crashed [OF sim] show ?thesis by blast
  qed
qed

subsection \<open>Consequences of the specification\<close>

lemma spec_step_prefix: "spec_step es l es' \<Longrightarrow> prefix es es'"
  by (auto elim: spec_step.cases)

lemma spec_run_prefix: "run spec_step es ls es' \<Longrightarrow> prefix es es'"
  by (induction rule: run.induct) (auto dest: spec_step_prefix intro: prefix_order.trans)

lemma spec_acked_stays:
  assumes "run spec_step es (xs @ Acked sid ev ts ps rs # ys) es'"
  shows "\<exists>before after. es' = before @ rs @ after \<and> rs = spec_batch before sid ts ps"
proof -
  from assms obtain b b' where acked: "spec_step b (Acked sid ev ts ps rs) b'"
    and rest: "run spec_step b' ys es'" by (auto simp: run_append run_Cons_iff)
  from acked have "b' = b @ rs" "rs = spec_batch b sid ts ps" by (auto elim: spec_step.cases)
  with spec_run_prefix [OF rest] show ?thesis by (auto simp: prefix_def)
qed

lemma store_sim_created:
  assumes "crc_streaming C" and "store_open C io None = (f, Inr s)"
  shows "store_sim C s []"
  using store_open_new_Inr [OF assms(2)] assms(1)
  by (simp add: store_sim_def store_inv_created, simp add: empty_log_def)

text \<open>
  C4: the store refines its specification. For every history of a newly created store (appends that
  are acknowledged or refused, reads of the log and of streams, restarts and crashes in the middle of a
  batch) the abstract sequence of events has the same history, operation by operation and result by
  result, and ends with the events the store holds.
\<close>

theorem store_refines_spec:
  assumes "crc_streaming C" and "store_open C io None = (f, Inr s0)" and "run (store_step C) s0 ops s"
  shows "run spec_step [] ops (el_events (st_log s))"
  using store_refines.runs [OF assms(3) store_sim_created [OF assms(1,2)]]
  by (auto simp: store_sim_def)

text \<open>
  An acknowledged batch is permanent. In every history of a newly created store, also with crashes
  and restarts after the append, the batch an append returned stays in the log as one block, at the
  positions and versions it was acknowledged with.
\<close>

lemma acknowledged_batch_permanent:
  assumes "crc_streaming C" and "store_open C io None = (f, Inr s0)"
    and "run (store_step C) s0 (xs @ Acked sid ev ts ps rs # ys) s"
  shows "\<exists>before after. el_events (st_log s) = before @ rs @ after \<and>
    length rs = length ps \<and>
    (\<forall>i < length ps. re_global_position (rs ! i) = of_nat (length before + i) \<and>
       re_stream_version (rs ! i) = of_nat (length (filter (\<lambda>e. re_stream_id e = sid) before) + i) \<and>
       re_event_id (rs ! i) = pe_event_id (ps ! i) \<and> re_payload (rs ! i) = pe_payload (ps ! i))"
proof -
  have "run spec_step [] (xs @ Acked sid ev ts ps rs # ys) (el_events (st_log s))"
    using store_refines.runs [OF assms(3) store_sim_created [OF assms(1,2)]] by (auto simp: store_sim_def)
  from spec_acked_stays [OF this] show ?thesis
    by (auto simp: spec_batch_def spec_count_def)
qed

text \<open>
  C19: the indexed reads are scans of the log. For every store that creation, appends and crash restarts
  can lead to, both read paths (the store's own and that of the shared handle) return what a scan over
  all events returns: the window of the stream's events, or \<open>StreamNotFound\<close> iff it has none, the window of
  the log, and the version of the stream's last event. No read panics.
\<close>

theorem indexed_reads_equal_scan:
  fixes s :: store and sid :: uuid
  assumes "crc_streaming C" and "store_reachable C s"
  defines "es \<equiv> filter (\<lambda>e. re_stream_id e = sid) (el_events (st_log s))"
    and "r \<equiv> read_index_new (st_log s)"
  shows "store_read_stream s sid a n =
      Some (if es = [] then Inl (StreamNotFound sid) else Inr (take (unat n) (drop (unat a) es))) \<and>
    ri_read_stream r sid a n = store_read_stream s sid a n \<and>
    store_read_all s a n = Some (take (unat n) (drop (unat a) (el_events (st_log s)))) \<and>
    ri_read_all r a n = store_read_all s a n \<and>
    store_stream_version s sid = (if es = [] then None else Some (re_stream_version (last es))) \<and>
    ri_stream_version r sid = store_stream_version s sid"
proof -
  have wf: "log_wf (st_log s)" using store_reachable_inv [OF assms(1,2)] by simp
  have "re_stream_version (last es) = of_nat (length es - 1)" if "es \<noteq> []"
    using that wf numbered_stream [of "el_events (st_log s)" "length es - 1" sid]
    by (simp add: es_def last_conv_nth log_wf_def stream_events_def)
  then show ?thesis
    using store_reader.read_stream [OF wf] store_reader.read_all [OF wf] store_reader.stream_version [OF wf]
    by (simp add: es_def r_def ri_of_store stream_events_def)
      (simp add: ri_stream_version_def store_stream_version_def read_index_new_def stream_events_def)
qed

subsection \<open>Witnesses\<close>

definition demo_ops :: "store_op list" where
  "demo_ops = [Acked 1 Any 9 [demo_proposed 4, demo_proposed 5] (appended demo_store 1 9 [demo_proposed 4, demo_proposed 5]),
     Restarted, Head 2]"

lemma demo_open: "store_open demo_crc open_io_ok None = (Some encode_header, Inr demo_store)"
  by (simp add: store_open_def open_new_def open_io_ok_def demo_store_def)

lemma demo_run: "\<exists>s. run (store_step demo_crc) demo_store demo_ops s"
proof -
  let ?ps = "[demo_proposed 4, demo_proposed 5]"
  let ?s = "fst (store_append demo_crc append_io_ok demo_store 1 Any 9 ?ps)"
  have app: "store_append demo_crc append_io_ok demo_store 1 Any 9 ?ps = (?s, Inr (appended demo_store 1 9 ?ps))"
    by (simp add: demo_append)
  have ok: "sendable demo_store ?ps"
    using utf8_events_demo by (simp add: sendable_def) (simp add: demo_store_def empty_log_def)
  have "store_inv demo_crc ?s"
    using store_inv_append [OF store_inv_demo app] ok by (simp add: sendable_def)
  then have r: "store_step demo_crc ?s Restarted ?s"
    by (rule store_step.restarted [OF reopen_same [OF crc_streaming_demo]])
  have "store_global_position ?s = 2"
    by (simp add: demo_append store_global_position_def update_index_def) (simp add: demo_store_def empty_log_def)
  then have "store_step demo_crc ?s (Head 2) ?s" using store_step.head [of demo_crc ?s] by simp
  with store_step.acked [OF ok app] r show ?thesis
    unfolding demo_ops_def by (auto simp: run_Cons_iff)
qed

theorem store_refines_spec_witness:
  "\<exists>s :: store. run spec_step [] demo_ops (el_events (st_log s))"
  using demo_run store_refines_spec [OF crc_streaming_demo demo_open] by blast

theorem indexed_reads_equal_scan_witness:
  "\<exists>s. store_append demo_crc append_io_ok demo_store 1 Any 9 [demo_proposed 4, demo_proposed 5]
       = (s, Inr (appended demo_store 1 9 [demo_proposed 4, demo_proposed 5])) \<and>
     ri_read_stream (read_index_new (st_log s)) 2 0 10 = Some (Inl (StreamNotFound 2)) \<and>
     store_stream_version s 1 = Some 1"
proof -
  let ?rs = "appended demo_store 1 9 [demo_proposed 4, demo_proposed 5]"
  obtain s where s: "store_append demo_crc append_io_ok demo_store 1 Any 9 [demo_proposed 4, demo_proposed 5]
       = (s, Inr ?rs)" and r: "store_reachable demo_crc s"
    using demo_reachable by blast
  from s have "el_events (st_log s) = ?rs"
    by (auto simp: store_append_Inr_iff update_index_def demo_store_def empty_log_def)
  moreover have "?rs = [mk_recorded 1 9 (demo_proposed 4) 0 0, mk_recorded 1 9 (demo_proposed 5) 1 1]"
    by (simp add: appended_def next_version_def) (simp add: demo_store_def empty_log_def)
  ultimately have es: "el_events (st_log s)
      = [mk_recorded 1 9 (demo_proposed 4) 0 0, mk_recorded 1 9 (demo_proposed 5) 1 1]" by simp
  show ?thesis
    using s indexed_reads_equal_scan [OF crc_streaming_demo r, of 2 0 10]
      indexed_reads_equal_scan [OF crc_streaming_demo r, of 1 0 10]
    by (simp add: es)
qed

end
