(* ===== verification/Atomic_Store.thy ===== *)
theory Atomic_Store
  imports Event_Store_Spec
begin

text \<open>
  What clients of a running server may rely on: an event store whose operations take effect at one
  moment between their invocation and their return, in the style of an atomic object. A call is
  invoked, performed and returned in three steps, and other calls may do anything in between. A crash
  forgets the calls under way; at most one append that had been invoked may still take effect.
\<close>

datatype operation =
    OpAppend uuid expected_version "proposed_event list"
  | OpReadAll u64 u64
  | OpReadStream uuid u64 u64
  | OpStreamVersion uuid
  | OpHead
  | OpListStreams

datatype answer =
    AnsAppend "error + recorded_event list"
  | AnsAll "recorded_event list"
  | AnsStream "error + recorded_event list"
  | AnsVersion "u64 option"
  | AnsHead u64
  | AnsStreams "stream_info list"

subsection \<open>One operation on the sequence of events\<close>

text \<open>Why an append may be refused.\<close>

definition spec_refuses ::
  "recorded_event list \<Rightarrow> uuid \<Rightarrow> expected_version \<Rightarrow> proposed_event list \<Rightarrow> error \<Rightarrow> bool" where
  "spec_refuses es sid ev ps e =
     (case e of
        WrongExpectedVersion _ _ \<Rightarrow> \<not> spec_accepts es sid ev
      | EventTooLarge n m \<Rightarrow> m < n \<and> (\<exists>p \<in> set ps. \<not> event_valid p)
      | InvalidArgument _ \<Rightarrow> \<not> distinct (map pe_event_id ps) \<or> (\<exists>p \<in> set ps. \<not> event_valid p)
      | _ \<Rightarrow> False)"

text \<open>
  A retry is answered with a block of the log that holds the first proposed event. The order of the
  listing is that of the text form of the ids.
\<close>

inductive performs ::
  "(uuid \<Rightarrow> string) \<Rightarrow> recorded_event list \<Rightarrow> operation \<Rightarrow> answer \<Rightarrow> recorded_event list \<Rightarrow> bool"
  for uuid_str where
  append: "distinct (map pe_event_id ps) \<Longrightarrow> spec_accepts es sid ev \<Longrightarrow> \<forall>p \<in> set ps. event_valid p \<Longrightarrow>
     performs uuid_str es (OpAppend sid ev ps) (AnsAppend (Inr (spec_batch es sid ts ps)))
       (es @ spec_batch es sid ts ps)"
| retry: "distinct (map pe_event_id ps) \<Longrightarrow> ps \<noteq> [] \<Longrightarrow> sublist rs es \<Longrightarrow>
     pe_event_id (hd ps) \<in> re_event_id ` set rs \<Longrightarrow>
     performs uuid_str es (OpAppend sid ev ps) (AnsAppend (Inr rs)) es"
| refuse: "spec_refuses es sid ev ps e \<Longrightarrow>
     performs uuid_str es (OpAppend sid ev ps) (AnsAppend (Inl e)) es"
| read_all: "performs uuid_str es (OpReadAll a n) (AnsAll (take (unat n) (drop (unat a) es))) es"
| read_stream: "sub = stream_events es sid \<Longrightarrow>
     performs uuid_str es (OpReadStream sid a n)
       (AnsStream (if sub = [] then Inl (StreamNotFound sid) else Inr (take (unat n) (drop (unat a) sub)))) es"
| stream_version: "sub = stream_events es sid \<Longrightarrow>
     performs uuid_str es (OpStreamVersion sid)
       (AnsVersion (if sub = [] then None else Some (of_nat (length sub - 1)))) es"
| head: "performs uuid_str es OpHead (AnsHead (of_nat (length es))) es"
| list_streams: "performs uuid_str es OpListStreams
     (AnsStreams (map (stream_summary es) (sort_key uuid_str (remdups (map re_stream_id es))))) es"

inductive_cases performsE: "performs uuid_str es op a es'"
inductive_simps performs_append_simps: "performs uuid_str es (OpAppend sid ev ps) a es'"
inductive_simps performs_all_simps: "performs uuid_str es (OpReadAll x n) a es'"

lemma performs_prefix: "performs uuid_str es op a es' \<Longrightarrow> prefix es es'"
  by (auto elim: performsE)

lemma performs_answer_logged: "performs uuid_str es op (AnsAppend (Inr rs)) es' \<Longrightarrow> sublist rs es'"
  by (auto elim: performsE)

subsection \<open>Calls\<close>

datatype call_event = Invoke nat operation | Return nat answer | Crash

record atomic_store =
  at_log :: "recorded_event list"
  at_used :: "nat set"
  at_calls :: "nat \<rightharpoonup> operation"
  at_done :: "nat \<rightharpoonup> answer"

definition atomic_start :: "recorded_event list \<Rightarrow> atomic_store" where
  "atomic_start es = \<lparr>at_log = es, at_used = {}, at_calls = Map.empty, at_done = Map.empty\<rparr>"

text \<open>A label is what the clients see; performing a call is invisible.\<close>

inductive atomic_step ::
  "(uuid \<Rightarrow> string) \<Rightarrow> atomic_store \<Rightarrow> call_event option \<Rightarrow> atomic_store \<Rightarrow> bool" for uuid_str where
  invoke: "c \<notin> at_used a \<Longrightarrow>
     atomic_step uuid_str a (Some (Invoke c op))
       (a\<lparr>at_used := insert c (at_used a), at_calls := (at_calls a)(c \<mapsto> op)\<rparr>)"
| perform: "at_calls a c = Some op \<Longrightarrow> performs uuid_str (at_log a) op r es \<Longrightarrow>
     atomic_step uuid_str a None
       (a\<lparr>at_log := es, at_calls := (at_calls a)(c := None), at_done := (at_done a)(c \<mapsto> r)\<rparr>)"
| return: "at_done a c = Some r \<Longrightarrow>
     atomic_step uuid_str a (Some (Return c r)) (a\<lparr>at_done := (at_done a)(c := None)\<rparr>)"
| crash: "es = at_log a \<or>
       (\<exists>c sid ev ps r. at_calls a c = Some (OpAppend sid ev ps) \<and>
          performs uuid_str (at_log a) (OpAppend sid ev ps) r es) \<Longrightarrow>
     atomic_step uuid_str a (Some Crash)
       (a\<lparr>at_log := es, at_calls := Map.empty, at_done := Map.empty\<rparr>)"

inductive_cases atomic_stepE: "atomic_step uuid_str a l a'"

definition visible :: "call_event option \<Rightarrow> bool" where
  "visible l \<longleftrightarrow> l \<noteq> None"

definition history :: "call_event option list \<Rightarrow> call_event list" where
  "history ls = map the (filter visible ls)"

lemma history_simps [simp]:
  "history [] = []" "history (None # ls) = history ls" "history (Some e # ls) = e # history ls"
  "history (xs @ ys) = history xs @ history ys"
  by (simp_all add: history_def visible_def)

lemma history_cong: "filter visible xs = filter visible ys \<Longrightarrow> history xs = history ys"
  by (simp add: history_def)

lemma history_split:
  assumes "history ls = xs @ e # ys"
  shows "\<exists>us vs. ls = us @ Some e # vs \<and> history us = xs \<and> history vs = ys"
  using assms
proof (induction ls arbitrary: xs)
  case (Cons l ls)
  show ?case
  proof (cases l)
    case None
    with Cons.prems obtain us vs where "ls = us @ Some e # vs" "history us = xs" "history vs = ys"
      using Cons.IH [of xs] by auto
    with None show ?thesis by (intro exI [of _ "l # us"] exI [of _ vs]) simp
  next
    case (Some x)
    show ?thesis
    proof (cases xs)
      case Nil
      with Some Cons.prems show ?thesis by (intro exI [of _ "[]"] exI [of _ ls]) simp
    next
      case (Cons x' xs')
      with Some Cons.prems obtain us vs where "ls = us @ Some e # vs" "history us = xs'" "history vs = ys"
        using Cons.IH [of xs'] by auto
      with Some Cons Cons.prems show ?thesis by (intro exI [of _ "l # us"] exI [of _ vs]) simp
    qed
  qed
qed simp

subsection \<open>What the atomic store guarantees\<close>

lemma atomic_log_grows: "atomic_step uuid_str a l a' \<Longrightarrow> prefix (at_log a) (at_log a')"
  by (auto elim!: atomic_stepE dest: performs_prefix)

lemma atomic_run_grows: "run (atomic_step uuid_str) a ls a' \<Longrightarrow> prefix (at_log a) (at_log a')"
  by (induction rule: run.induct) (auto dest: atomic_log_grows intro: prefix_order.trans)

text \<open>Every performed append that was not refused is a block of the log.\<close>

definition done_logged :: "atomic_store \<Rightarrow> bool" where
  "done_logged a \<longleftrightarrow> (\<forall>c rs. at_done a c = Some (AnsAppend (Inr rs)) \<longrightarrow> sublist rs (at_log a))"

lemma done_logged_step:
  assumes "atomic_step uuid_str a l a'" and "done_logged a"
  shows "done_logged a'"
  using assms(1)
proof (cases rule: atomic_step.cases)
  case (perform c op r es)
  have "sublist rs (at_log a')" if "at_done a' c' = Some (AnsAppend (Inr rs))" for c' rs
    using that perform assms(2) performs_answer_logged [of uuid_str "at_log a" op rs es]
      sublist_prefix [OF _ performs_prefix [OF perform(4)]]
    by (auto simp: done_logged_def split: if_splits)
  then show ?thesis by (simp add: done_logged_def)
qed (use assms(2) in \<open>auto simp: done_logged_def\<close>)

lemma done_logged_run: "run (atomic_step uuid_str) a ls a' \<Longrightarrow> done_logged a \<Longrightarrow> done_logged a'"
  by (induction rule: run.induct) (auto dest: done_logged_step)

text \<open>
  Between the invocation of a returned call and its return lies the moment at which it was performed,
  on the log of that moment.
\<close>

lemma linearization_point:
  assumes "run (atomic_step uuid_str) a ls a'" and "Return c r \<in> set (history ls)"
  shows "at_done a c = Some r \<or>
    (\<exists>us vs b op es. ls = us @ None # vs \<and> run (atomic_step uuid_str) a us b \<and> at_calls b c = Some op \<and>
       performs uuid_str (at_log b) op r es \<and> prefix es (at_log a'))"
  using assms
proof (induction rule: run.induct)
  case (run_Cons a l a1 ls a')
  show ?case
  proof (cases "l = Some (Return c r)")
    case True
    with run_Cons.hyps(1) show ?thesis by (auto elim: atomic_stepE)
  next
    case False
    then have "Return c r \<in> set (history ls)" using run_Cons.prems by (cases l) auto
    from run_Cons.IH [OF this] show ?thesis
    proof
      assume "at_done a1 c = Some r"
      with run_Cons.hyps(1) have "at_done a c = Some r \<or>
          (l = None \<and> (\<exists>op. at_calls a c = Some op \<and> performs uuid_str (at_log a) op r (at_log a1)))"
        by (cases rule: atomic_step.cases) (auto split: if_splits)
      then show ?thesis using atomic_run_grows [OF run_Cons.hyps(2)]
        by (metis append_Nil run.run_Nil)
    next
      assume "\<exists>us vs b op es. ls = us @ None # vs \<and> run (atomic_step uuid_str) a1 us b \<and>
        at_calls b c = Some op \<and> performs uuid_str (at_log b) op r es \<and> prefix es (at_log a')"
      then obtain us vs b op es where "ls = us @ None # vs" "run (atomic_step uuid_str) a1 us b"
        "at_calls b c = Some op" "performs uuid_str (at_log b) op r es" "prefix es (at_log a')" by blast
      with run_Cons.hyps(1) show ?thesis
        by (intro disjI2 exI [of _ "l # us"] exI [of _ vs] exI [of _ b]) (auto intro: run.run_Cons)
    qed
  qed
qed simp

text \<open>The calls under way are among those invoked; a number is used for one call only.\<close>

definition calls_traced :: "call_event list \<Rightarrow> atomic_store \<Rightarrow> bool" where
  "calls_traced h a \<longleftrightarrow>
     (\<forall>c op. at_calls a c = Some op \<longrightarrow> Invoke c op \<in> set h) \<and>
     (\<forall>c op. Invoke c op \<in> set h \<longrightarrow> c \<in> at_used a) \<and>
     (\<forall>c. at_done a c \<noteq> None \<longrightarrow> c \<in> at_used a) \<and>
     (\<forall>c op op'. Invoke c op \<in> set h \<longrightarrow> Invoke c op' \<in> set h \<longrightarrow> op = op')"

lemma calls_traced_simps:
  assumes "calls_traced h a"
  shows calls_traced_pending: "at_calls a c = Some op \<Longrightarrow> Invoke c op \<in> set h"
    and calls_traced_once: "Invoke c op \<in> set h \<Longrightarrow> Invoke c op' \<in> set h \<Longrightarrow> op = op'"
    and calls_traced_done: "c \<notin> at_used a \<Longrightarrow> at_done a c = None"
  using assms unfolding calls_traced_def by (blast, blast, metis)

lemma calls_traced_step:
  "atomic_step uuid_str a l a' \<Longrightarrow> calls_traced h a \<Longrightarrow> calls_traced (h @ history [l]) a'"
  by (elim atomic_stepE) (auto simp: calls_traced_def split: if_splits)

lemma calls_traced_run:
  "run (atomic_step uuid_str) a ls a' \<Longrightarrow> calls_traced h a \<Longrightarrow> calls_traced (h @ history ls) a'"
proof (induction arbitrary: h rule: run.induct)
  case (run_Cons a l a1 ls a')
  from run_Cons.IH [OF calls_traced_step [OF run_Cons.hyps(1) run_Cons.prems]] show ?case by (cases l) simp_all
qed simp

lemma invoke_fresh: "run (atomic_step uuid_str) a ls a' \<Longrightarrow> Invoke c op \<in> set (history ls) \<Longrightarrow> c \<notin> at_used a"
proof (induction rule: run.induct)
  case (run_Cons a l a1 ls a')
  from run_Cons.hyps(1) have "at_used a \<subseteq> at_used a1" "l = Some (Invoke c op) \<Longrightarrow> c \<notin> at_used a"
    by (auto elim: atomic_stepE)
  with run_Cons.IH run_Cons.prems show ?case by (cases l) auto
qed simp

text \<open>Every event of the log was proposed by a call that is no longer waiting.\<close>

fun op_ids :: "operation \<Rightarrow> uuid set" where
  "op_ids (OpAppend sid ev ps) = pe_event_id ` set ps"
| "op_ids _ = {}"

definition settled_ids :: "call_event list \<Rightarrow> atomic_store \<Rightarrow> uuid set" where
  "settled_ids h a = {i. \<exists>c op. Invoke c op \<in> set h \<and> at_calls a c = None \<and> i \<in> op_ids op}"

definition ids_traced :: "call_event list \<Rightarrow> atomic_store \<Rightarrow> bool" where
  "ids_traced h a \<longleftrightarrow> re_event_id ` set (at_log a) \<subseteq> settled_ids h a"

lemma spec_batch_ids: "re_event_id ` set (spec_batch es sid ts ps) = pe_event_id ` set ps"
  by (auto simp: spec_batch_def image_image atLeast0LessThan set_conv_nth image_def)

lemma performs_ids:
  "performs uuid_str es op r es' \<Longrightarrow> re_event_id ` set es' \<subseteq> re_event_id ` set es \<union> op_ids op"
  by (elim performsE) (auto simp: image_Un spec_batch_ids)

lemma settled_stays:
  "atomic_step uuid_str a l a' \<Longrightarrow> at_calls a c = None \<Longrightarrow> c \<in> at_used a \<Longrightarrow> at_calls a' c = None"
  by (elim atomic_stepE) auto

lemma settled_step:
  assumes "atomic_step uuid_str a l a'" and "calls_traced h a"
  shows "settled_ids h a \<subseteq> settled_ids (h @ history [l]) a'"
proof
  fix i assume "i \<in> settled_ids h a"
  then obtain c op where c: "Invoke c op \<in> set h" "at_calls a c = None" "i \<in> op_ids op"
    by (auto simp: settled_ids_def)
  then have "at_calls a' c = None"
    using settled_stays [OF assms(1)] assms(2) by (auto simp: calls_traced_def)
  with c show "i \<in> settled_ids (h @ history [l]) a'" by (auto simp: settled_ids_def)
qed

lemma ids_traced_step:
  assumes "atomic_step uuid_str a l a'" and "calls_traced h a" and "ids_traced h a"
  shows "ids_traced (h @ history [l]) a'"
proof -
  let ?S = "settled_ids (h @ history [l]) a'"
  have old: "re_event_id ` set (at_log a) \<subseteq> ?S"
    using assms(3) settled_step [OF assms(1,2)] by (auto simp: ids_traced_def)
  have new: "re_event_id ` set (at_log a') \<subseteq> ?S"
    if "at_calls a c = Some op" "performs uuid_str (at_log a) op r (at_log a')" "at_calls a' c = None" for c op r
  proof -
    have "op_ids op \<subseteq> ?S" using that(1,3) assms(2) by (auto simp: settled_ids_def calls_traced_def)
    with performs_ids [OF that(2)] old show ?thesis by blast
  qed
  from assms(1) have "re_event_id ` set (at_log a') \<subseteq> ?S"
  proof (cases rule: atomic_step.cases)
    case (perform c op r es)
    then show ?thesis by (intro new [of c op r]) simp_all
  next
    case (crash es)
    then show ?thesis using old new by (elim disjE exE conjE) simp_all
  qed (use old in simp_all)
  then show ?thesis by (simp add: ids_traced_def)
qed

lemma ids_traced_run:
  "run (atomic_step uuid_str) a ls a' \<Longrightarrow> calls_traced h a \<Longrightarrow> ids_traced h a \<Longrightarrow> ids_traced (h @ history ls) a'"
proof (induction arbitrary: h rule: run.induct)
  case (run_Cons a l a1 ls a')
  from run_Cons.IH [OF calls_traced_step [OF run_Cons.hyps(1) run_Cons.prems(1)]
      ids_traced_step [OF run_Cons.hyps(1) run_Cons.prems]] show ?case by (cases l) simp_all
qed simp

subsection \<open>Client-visible consequences\<close>

text \<open>A complete read of the log that starts after an append has returned shows the appended block.\<close>

lemma atomic_read_after_ack:
  assumes "run (atomic_step uuid_str) (atomic_start es0) ls a"
    and "history ls = xs @ Return c (AnsAppend (Inr rs)) # ys"
    and "Invoke d (OpReadAll 0 n) \<in> set ys" and "Return d (AnsAll es) \<in> set ys" and "length es < unat n"
  shows "sublist rs es"
proof -
  from history_split [OF assms(2)] obtain us vs where
    ls: "ls = us @ Some (Return c (AnsAppend (Inr rs))) # vs" "history us = xs" "history vs = ys" by blast
  from assms(1) obtain b b' where b: "run (atomic_step uuid_str) (atomic_start es0) us b"
    "atomic_step uuid_str b (Some (Return c (AnsAppend (Inr rs)))) b'" "run (atomic_step uuid_str) b' vs a"
    by (auto simp: ls run_append run_Cons_iff)
  have start: "done_logged (atomic_start es0)" "calls_traced [] (atomic_start es0)"
    by (simp_all add: done_logged_def calls_traced_def atomic_start_def)
  from b(2) done_logged_run [OF b(1) start(1)] have rs: "sublist rs (at_log b')"
    by (auto simp: done_logged_def elim: atomic_stepE)
  have tr: "calls_traced (history us @ [Return c (AnsAppend (Inr rs))]) b'"
    using calls_traced_step [OF b(2) calls_traced_run [OF b(1) start(2)]] by simp
  have all: "calls_traced (history ls) a" using calls_traced_run [OF assms(1) start(2)] by simp
  from invoke_fresh [OF b(3)] assms(3) ls(3) have "d \<notin> at_used b'" by simp
  then have "at_done b' d = None" by (rule calls_traced_done [OF tr])
  with linearization_point [OF b(3), of d "AnsAll es"] assms(4) ls(3) obtain us' vs' e op es' where
    p: "vs = us' @ None # vs'" "run (atomic_step uuid_str) b' us' e" "at_calls e d = Some op"
      "performs uuid_str (at_log e) op (AnsAll es) es'" by auto
  have "Invoke d op \<in> set (history ls)"
    using calls_traced_pending [OF calls_traced_run [OF p(2) tr] p(3)] p(1) ls by auto
  then have "op = OpReadAll 0 n" using calls_traced_once [OF all] assms(2,3) by simp
  with p(4) assms(5) have "es = at_log e" by (auto simp: performs_all_simps)
  with sublist_prefix [OF rs atomic_run_grows [OF p(2)]] show ?thesis by simp
qed

text \<open>
  An acknowledged append whose first event id no other call uses was performed as an append: its
  answer is the batch at the head of the log of that moment, under the expected version.
\<close>

lemma atomic_fresh_append:
  assumes run: "run (atomic_step uuid_str) (atomic_start []) ls a"
    and inv: "Invoke c (OpAppend sid ev ps) \<in> set (history ls)" and ps: "ps \<noteq> []"
    and ret: "Return c (AnsAppend (Inr rs)) \<in> set (history ls)"
    and own: "\<forall>d op. Invoke d op \<in> set (history ls) \<longrightarrow> d \<noteq> c \<longrightarrow> pe_event_id (hd ps) \<notin> op_ids op"
  shows "\<exists>es ts. rs = spec_batch es sid ts ps \<and> spec_accepts es sid ev \<and> prefix (es @ rs) (at_log a)"
proof -
  have start: "calls_traced [] (atomic_start [])" "ids_traced [] (atomic_start [])" "at_done (atomic_start []) c = None"
    by (simp_all add: calls_traced_def ids_traced_def atomic_start_def)
  from linearization_point [OF run ret] start(3) obtain us vs b op es' where
    p: "ls = us @ None # vs" "run (atomic_step uuid_str) (atomic_start []) us b" "at_calls b c = Some op"
      "performs uuid_str (at_log b) op (AnsAppend (Inr rs)) es'" "prefix es' (at_log a)" by auto
  note tr = calls_traced_run [OF p(2) start(1)]
  have all: "calls_traced (history ls) a" using calls_traced_run [OF run start(1)] by simp
  have "Invoke c op \<in> set (history ls)" using calls_traced_pending [OF tr p(3)] p(1) by simp
  with inv have op: "op = OpAppend sid ev ps" by (simp add: calls_traced_once [OF all])
  have new: "pe_event_id (hd ps) \<notin> re_event_id ` set (at_log b)"
  proof
    assume "pe_event_id (hd ps) \<in> re_event_id ` set (at_log b)"
    then have "pe_event_id (hd ps) \<in> settled_ids (history us) b"
      using ids_traced_run [OF p(2) start(1,2)] by (auto simp: ids_traced_def)
    then obtain d op' where "Invoke d op' \<in> set (history us)" "at_calls b d = None" "pe_event_id (hd ps) \<in> op_ids op'"
      by (auto simp: settled_ids_def)
    with own p(1,3) show False by (cases "d = c") auto
  qed
  have "\<not> (sublist rs (at_log b) \<and> pe_event_id (hd ps) \<in> re_event_id ` set rs)"
    using new set_mono_sublist by blast
  with p(4) [unfolded op performs_append_simps] p(5) show ?thesis by auto
qed

lemma numbered_unique:
  assumes "numbered es" and "length es < 2 ^ 64" and "x \<in> set es" and "y \<in> set es"
    and "re_stream_id x = re_stream_id y" and "re_stream_version x = re_stream_version y"
  shows "x = y"
proof -
  have less: False
    if "i < j" "j < length es" "re_stream_id (es ! i) = re_stream_id (es ! j)"
      "re_stream_version (es ! i) = re_stream_version (es ! j)" for i j
  proof -
    let ?n = "\<lambda>k. length (stream_events (take k es) (re_stream_id (es ! i)))"
    have "stream_events (take (Suc i) es) (re_stream_id (es ! i)) = stream_events (take i es) (re_stream_id (es ! i)) @ [es ! i]"
      using that by (simp add: stream_events_def take_Suc_conv_app_nth)
    moreover have "?n (Suc i) \<le> ?n j"
    proof -
      have "take j es = take (Suc i) es @ drop (Suc i) (take j es)"
        using that(1) by (metis Suc_leI append_take_drop_id min.absorb1 take_take)
      then show ?thesis by (metis length_append le_add1 stream_events_def filter_append)
    qed
    ultimately have lt: "?n i < ?n j" by simp
    have "?n j < 2 ^ 64"
      using le_less_trans [OF length_stream_events [of "take j es"], of "2 ^ 64"] assms(2) by simp
    moreover have "(of_nat (?n i) :: u64) = of_nat (?n j)"
      using assms(1) that by (simp add: numbered_def)
    ultimately show False using lt of_nat_inject_less [where 'a = 64, of "?n i" "?n j"] by simp
  qed
  from assms(3,4) obtain i j where ij: "i < length es" "j < length es" "x = es ! i" "y = es ! j"
    by (metis in_set_conv_nth)
  with less [of i j] less [of j i] assms(5,6) show ?thesis by (metis nat_neq_iff)
qed

text \<open>Its first event then has the version the append expected to write.\<close>

definition expected_count :: "expected_version \<Rightarrow> nat" where
  "expected_count ev = (case ev of Exact n \<Rightarrow> Suc (unat n) | _ \<Rightarrow> 0)"

lemma accepts_count: "spec_accepts es sid ev \<Longrightarrow> ev \<noteq> Any \<Longrightarrow> spec_count es sid = expected_count ev"
  by (cases ev) (simp_all add: spec_accepts_def expected_count_def)

lemma atomic_first_event:
  assumes "run (atomic_step uuid_str) (atomic_start []) ls a"
    and "Invoke c (OpAppend sid ev ps) \<in> set (history ls)" and "ps \<noteq> []"
    and "Return c (AnsAppend (Inr rs)) \<in> set (history ls)"
    and "\<forall>d op. Invoke d op \<in> set (history ls) \<longrightarrow> d \<noteq> c \<longrightarrow> pe_event_id (hd ps) \<notin> op_ids op"
    and "ev \<noteq> Any"
  shows "\<exists>e \<in> set (at_log a). re_event_id e = pe_event_id (hd ps) \<and> re_stream_id e = sid \<and>
    re_stream_version e = of_nat (expected_count ev)"
proof -
  from atomic_fresh_append [OF assms(1-5)] obtain es ts where
    r: "rs = spec_batch es sid ts ps" "spec_accepts es sid ev" "prefix (es @ rs) (at_log a)" by blast
  have "rs ! 0 \<in> set rs" using r(1) assms(3) by (intro nth_mem) (simp add: spec_batch_def)
  then have "rs ! 0 \<in> set (at_log a)" using r(3) by (auto simp: prefix_def)
  moreover have "re_event_id (rs ! 0) = pe_event_id (hd ps) \<and> re_stream_id (rs ! 0) = sid \<and>
      re_stream_version (rs ! 0) = of_nat (expected_count ev)"
    using r(1) assms(3) accepts_count [OF r(2) assms(6)] by (simp add: spec_batch_def hd_conv_nth)
  ultimately show ?thesis by blast
qed

text \<open>Two appends that expect the same version of the same stream, and are not retries, never both succeed.\<close>

lemma atomic_one_winner:
  assumes run: "run (atomic_step uuid_str) (atomic_start []) ls a"
    and log: "numbered (at_log a)" "length (at_log a) < 2 ^ 64"
    and c: "Invoke c (OpAppend sid ev ps) \<in> set (history ls)" "ps \<noteq> []"
    and d: "Invoke d (OpAppend sid ev qs) \<in> set (history ls)" "qs \<noteq> []"
    and own: "\<forall>c' op. Invoke c' op \<in> set (history ls) \<longrightarrow> c' \<noteq> c \<longrightarrow> pe_event_id (hd ps) \<notin> op_ids op"
      "\<forall>c' op. Invoke c' op \<in> set (history ls) \<longrightarrow> c' \<noteq> d \<longrightarrow> pe_event_id (hd qs) \<notin> op_ids op"
    and "c \<noteq> d" and ev: "ev \<noteq> Any" and ret: "Return c (AnsAppend (Inr rs)) \<in> set (history ls)"
  shows "Return d (AnsAppend (Inr rs')) \<notin> set (history ls)"
proof
  assume ret': "Return d (AnsAppend (Inr rs')) \<in> set (history ls)"
  from atomic_first_event [OF run c ret own(1) ev] obtain x where
    x: "x \<in> set (at_log a)" "re_event_id x = pe_event_id (hd ps)" "re_stream_id x = sid"
      "re_stream_version x = of_nat (expected_count ev)" by blast
  from atomic_first_event [OF run d ret' own(2) ev] obtain y where
    y: "y \<in> set (at_log a)" "re_event_id y = pe_event_id (hd qs)" "re_stream_id y = sid"
      "re_stream_version y = of_nat (expected_count ev)" by blast
  have "x = y" using numbered_unique [OF log x(1) y(1)] x y by simp
  with x(2) y(2) have "pe_event_id (hd ps) \<in> op_ids (OpAppend sid ev qs)" using d(2) by (metis op_ids.simps(1) hd_in_set imageI)
  with own(1) d(1) \<open>c \<noteq> d\<close> show False by blast
qed

end
