(* ===== verification/Dedup.thy ===== *)
theory Dedup
  imports Store
begin

text \<open>
  The deduplication index of \<open>src/dedup.rs\<close>: a bounded LRU cache from event ids to the recorded batch
  they were written in. \<open>LruCache\<close> is a type of the \<open>lru\<close> crate, so its operations are a parameter
  (\<open>lru_ops\<close>); the locale \<open>lru_cache\<close> states the documented behaviour over the list of entries from
  the most to the least recently used. An \<open>Arc\<close> of a batch is the batch.
\<close>

record 'c lru_ops =
  lru_new :: "nat \<Rightarrow> 'c"
  lru_get :: "'c \<Rightarrow> uuid \<Rightarrow> recorded_event list option \<times> 'c"
  lru_put :: "'c \<Rightarrow> uuid \<Rightarrow> recorded_event list \<Rightarrow> 'c"

record 'c dedup_index =
  di_cache :: 'c

definition dedup_new :: "'c lru_ops \<Rightarrow> nat \<Rightarrow> 'c dedup_index" where
  "dedup_new L capacity = \<lparr>di_cache = lru_new L capacity\<rparr>"

definition dedup_check ::
  "'c lru_ops \<Rightarrow> 'c dedup_index \<Rightarrow> proposed_event list
     \<Rightarrow> recorded_event list option \<times> 'c dedup_index" where
  "dedup_check L d proposed =
     (case proposed of
        [] \<Rightarrow> (None, d)
      | first # _ \<Rightarrow>
          (let (hit, cache) = lru_get L (di_cache d) (pe_event_id first)
           in (hit, d\<lparr>di_cache := cache\<rparr>)))"

definition dedup_record ::
  "'c lru_ops \<Rightarrow> 'c dedup_index \<Rightarrow> recorded_event list \<Rightarrow> 'c dedup_index" where
  "dedup_record L d recorded =
     (let shared = recorded
      in d\<lparr>di_cache := fold (\<lambda>event cache. lru_put L cache (re_event_id event) shared) shared
             (di_cache d)\<rparr>)"

definition seed_from_log ::
  "'c lru_ops \<Rightarrow> 'c dedup_index \<Rightarrow> recorded_event list \<Rightarrow> 'c dedup_index" where
  "seed_from_log L d events =
     d\<lparr>di_cache := fold (\<lambda>event cache. lru_put L cache (re_event_id event) [event]) events
         (di_cache d)\<rparr>"

subsection \<open>The cache's contract\<close>

definition drop_key :: "'k \<Rightarrow> ('k \<times> 'v) list \<Rightarrow> ('k \<times> 'v) list" where
  "drop_key k xs = filter (\<lambda>x. fst x \<noteq> k) xs"

lemma drop_key_simps [simp]:
  "drop_key k [] = []" "drop_key k (x # xs) = (if fst x = k then drop_key k xs else x # drop_key k xs)"
  "drop_key k (xs @ ys) = drop_key k xs @ drop_key k ys"
  by (simp_all add: drop_key_def)

lemma drop_key_id [simp]: "k \<notin> fst ` set xs \<Longrightarrow> drop_key k xs = xs"
  by (induction xs) auto

lemma keys_drop_key [simp]: "fst ` set (drop_key k xs) = fst ` set xs - {k}"
  by (auto simp: drop_key_def)

lemma distinct_drop_key: "distinct (map fst xs) \<Longrightarrow> distinct (map fst (drop_key k xs))"
  by (induction xs) auto

lemma map_of_middle:
  "distinct (map fst (pre @ (k, v) # post)) \<Longrightarrow> map_of (pre @ (k, v) # post) k = Some v"
  by (rule map_of_is_SomeI) simp_all

lemma take_Cons_take: "take n (x # take n xs) = take n (x # xs)"
  by (cases n) (simp_all add: min_def)

locale lru_cache =
  fixes L :: "'c lru_ops"
    and entries :: "'c \<Rightarrow> (uuid \<times> recorded_event list) list"
    and cap :: "'c \<Rightarrow> nat"
  assumes entries_new: "entries (lru_new L n) = []"
    and cap_new: "cap (lru_new L n) = n"
    and get_value: "fst (lru_get L c k) = map_of (entries c) k"
    and entries_get: "entries (snd (lru_get L c k)) =
          (case map_of (entries c) k of None \<Rightarrow> entries c
           | Some v \<Rightarrow> (k, v) # drop_key k (entries c))"
    and cap_get: "cap (snd (lru_get L c k)) = cap c"
    and entries_put: "entries (lru_put L c k v) = take (cap c) ((k, v) # drop_key k (entries c))"
    and cap_put: "cap (lru_put L c k v) = cap c"
begin

lemma cap_fold_put: "cap (fold (\<lambda>e c. lru_put L c (f e) (g e)) es c) = cap c"
  by (induction es arbitrary: c) (simp_all add: cap_put)

lemma entries_fold_put:
  assumes "distinct (map f es)" and "f ` set es \<inter> fst ` set (entries c) = {}"
    and "length (entries c) \<le> cap c"
  shows "entries (fold (\<lambda>e c. lru_put L c (f e) (g e)) es c)
         = take (cap c) (rev (map (\<lambda>e. (f e, g e)) es) @ entries c)"
  using assms
proof (induction es rule: rev_induct)
  case Nil
  then show ?case by simp
next
  case (snoc e es)
  then have IH: "entries (fold (\<lambda>e c. lru_put L c (f e) (g e)) es c)
         = take (cap c) (rev (map (\<lambda>e. (f e, g e)) es) @ entries c)" by auto
  have "f e \<notin> fst ` set (rev (map (\<lambda>e. (f e, g e)) es) @ entries c)" using snoc.prems by force
  then have "f e \<notin> fst ` set (take (cap c) (rev (map (\<lambda>e. (f e, g e)) es) @ entries c))"
    using set_take_subset by fastforce
  then have "drop_key (f e) (take (cap c) (rev (map (\<lambda>e. (f e, g e)) es) @ entries c))
      = take (cap c) (rev (map (\<lambda>e. (f e, g e)) es) @ entries c)"
    by (rule drop_key_id)
  then show ?case
    by (simp add: IH entries_put cap_fold_put take_Cons_take del: take_append)
qed

text \<open>Key \<open>k\<close> holds \<open>v\<close>, and only keys in \<open>S\<close> were used since \<open>k\<close> was.\<close>

definition held :: "'c \<Rightarrow> uuid set \<Rightarrow> uuid \<Rightarrow> recorded_event list \<Rightarrow> bool" where
  "held c S k v \<longleftrightarrow> distinct (map fst (entries c)) \<and>
     (\<exists>pre post. entries c = pre @ (k, v) # post \<and> fst ` set pre \<subseteq> S)"

lemma heldI:
  "distinct (map fst (entries c)) \<Longrightarrow> entries c = pre @ (k, v) # post \<Longrightarrow> fst ` set pre \<subseteq> S \<Longrightarrow>
   held c S k v"
  unfolding held_def by blast

lemma held_get: "held c S k v \<Longrightarrow> fst (lru_get L c k) = Some v"
  unfolding held_def get_value by (metis map_of_middle)

lemma held_mono: "held c S k v \<Longrightarrow> S \<subseteq> T \<Longrightarrow> held c T k v"
  unfolding held_def by (meson order_trans)

lemma distinct_put:
  "distinct (map fst (entries c)) \<Longrightarrow> distinct (map fst (entries (lru_put L c k v)))"
  unfolding entries_put take_map [symmetric]
  by (intro distinct_take) (simp add: distinct_drop_key)

lemma held_put_same:
  assumes "distinct (map fst (entries c))" and "0 < cap c"
  shows "held (lru_put L c k v) {} k v"
proof (rule heldI [where pre = "[]"])
  show "entries (lru_put L c k v) = [] @ (k, v) # take (cap c - 1) (drop_key k (entries c))"
    using assms(2) by (simp add: entries_put take_Cons')
qed (simp_all add: distinct_put assms(1))

lemma held_put_other:
  assumes h: "held c S k v" and k': "k' \<noteq> k" "finite S" "k \<notin> S"
    and room: "card (insert k' S) < cap c"
  shows "held (lru_put L c k' v') (insert k' S) k v"
proof -
  obtain pre post where e: "entries c = pre @ (k, v) # post" and S: "fst ` set pre \<subseteq> S"
    and d: "distinct (map fst (entries c))"
    using h by (auto simp: held_def)
  let ?pre = "(k', v') # drop_key k' pre"
  have "distinct (map fst ?pre)" using d e by (simp add: distinct_drop_key)
  then have "length ?pre = card (fst ` set ?pre)"
    by (metis distinct_card image_set length_map)
  also have "\<dots> \<le> card (insert k' S)" using S k'(2) by (intro card_mono) auto
  finally have l: "length ?pre < cap c" using room by simp
  then obtain m where "cap c = length ?pre + Suc m" by (metis less_iff_Suc_add add_Suc_right)
  then have "entries (lru_put L c k' v') = ?pre @ (k, v) # take m (drop_key k' post)"
    unfolding entries_put e using k' by simp
  moreover have "fst ` set ?pre \<subseteq> insert k' S" using S by auto
  ultimately show ?thesis
    using distinct_put [OF d] by (intro heldI)
qed

lemma held_touch:
  assumes h: "held c S k v"
  shows "held (snd (lru_get L c k')) (insert k' S) k v"
proof (cases "map_of (entries c) k'")
  case None
  then have "entries (snd (lru_get L c k')) = entries c" by (simp add: entries_get)
  with held_mono [OF h, of "insert k' S"] show ?thesis by (auto simp: held_def)
next
  case (Some w)
  obtain pre post where e: "entries c = pre @ (k, v) # post" and S: "fst ` set pre \<subseteq> S"
    and d: "distinct (map fst (entries c))"
    using h by (auto simp: held_def)
  have g: "entries (snd (lru_get L c k')) = (k', w) # drop_key k' (entries c)"
    using Some by (simp add: entries_get)
  have d': "distinct (map fst ((k', w) # drop_key k' (entries c)))"
    using d by (simp add: distinct_drop_key)
  show ?thesis
  proof (cases "k' = k")
    case True
    then have "w = v" using Some d map_of_middle unfolding e by (metis option.inject)
    with True d' g show ?thesis by (intro heldI [where pre = "[]"]) simp_all
  next
    case False
    then have "(k', w) # drop_key k' (entries c)
        = ((k', w) # drop_key k' pre) @ (k, v) # drop_key k' post" by (simp add: e)
    moreover have "fst ` set ((k', w) # drop_key k' pre) \<subseteq> insert k' S" using S by auto
    ultimately show ?thesis using d' unfolding g [symmetric] by (intro heldI)
  qed
qed

end

text \<open>The documented behaviour, executable: the entries themselves with the capacity.\<close>

record lru_list =
  ll_entries :: "(uuid \<times> recorded_event list) list"
  ll_cap :: nat

definition lru_list_ops :: "lru_list lru_ops" where
  "lru_list_ops =
     \<lparr>lru_new = (\<lambda>n. \<lparr>ll_entries = [], ll_cap = n\<rparr>),
      lru_get = (\<lambda>c k. case map_of (ll_entries c) k of
          None \<Rightarrow> (None, c)
        | Some v \<Rightarrow> (Some v, c\<lparr>ll_entries := (k, v) # drop_key k (ll_entries c)\<rparr>)),
      lru_put = (\<lambda>c k v. c\<lparr>ll_entries :=
          take (ll_cap c) ((k, v) # drop_key k (ll_entries c))\<rparr>)\<rparr>"

interpretation ll: lru_cache lru_list_ops ll_entries ll_cap
  by unfold_locales (simp_all add: lru_list_ops_def split: option.split)

subsection \<open>Retries and restarts\<close>

text \<open>
  The calls the writer makes on the index, the ids a call looks up or stores, and the ids it stores.
\<close>

datatype dedup_call = CheckCall "proposed_event list" | RecordCall "recorded_event list"

fun dedup_step :: "'c lru_ops \<Rightarrow> dedup_call \<Rightarrow> 'c dedup_index \<Rightarrow> 'c dedup_index" where
  "dedup_step L (CheckCall ps) d = snd (dedup_check L d ps)"
| "dedup_step L (RecordCall rs) d = dedup_record L d rs"

fun touched :: "dedup_call \<Rightarrow> uuid set" where
  "touched (CheckCall ps) = (case ps of [] \<Rightarrow> {} | p # _ \<Rightarrow> {pe_event_id p})"
| "touched (RecordCall rs) = re_event_id ` set rs"

fun stored_ids :: "dedup_call \<Rightarrow> uuid set" where
  "stored_ids (CheckCall ps) = {}"
| "stored_ids (RecordCall rs) = re_event_id ` set rs"

lemma dedup_check_Cons:
  "dedup_check L d (p # ps) =
     (fst (lru_get L (di_cache d) (pe_event_id p)),
      d\<lparr>di_cache := snd (lru_get L (di_cache d) (pe_event_id p))\<rparr>)"
  by (simp add: dedup_check_def split: prod.split)

lemma dedup_check_Nil [simp]: "dedup_check L d [] = (None, d)"
  by (simp add: dedup_check_def)

lemma finite_touched [simp]: "finite (touched call)"
  by (cases call) (auto split: list.split)

context lru_cache
begin

lemma held_minus: "held c S k v \<Longrightarrow> held c (S - {k}) k v"
  by (auto simp: held_def) blast

lemma held_puts:
  assumes "held c S k v" and "finite S" and "k \<notin> f ` set es"
    and "card ((S \<union> f ` set es) - {k}) < cap c"
  shows "held (fold (\<lambda>e c. lru_put L c (f e) (g e)) es c) (S \<union> f ` set es) k v"
  using assms
proof (induction es arbitrary: c S)
  case (Cons e es)
  have "card (insert (f e) (S - {k})) \<le> card ((S \<union> f ` set (e # es)) - {k})"
    using Cons.prems(2,3) by (intro card_mono) auto
  then have "held (lru_put L c (f e) (g e)) (insert (f e) (S - {k})) k v"
    using Cons.prems held_minus by (intro held_put_other) auto
  then have "held (lru_put L c (f e) (g e)) (insert (f e) S) k v"
    by (rule held_mono) auto
  from Cons.IH [OF this] Cons.prems show ?case by (simp add: cap_put)
qed simp

lemma cap_step: "cap (di_cache (dedup_step L call d)) = cap (di_cache d)"
proof (cases call)
  case (CheckCall ps)
  then show ?thesis by (cases ps) (simp_all add: dedup_check_Cons cap_get)
qed (simp add: dedup_record_def cap_fold_put)

lemma distinct_puts:
  "distinct (map fst (entries c)) \<Longrightarrow>
   distinct (map fst (entries (fold (\<lambda>e c. lru_put L c (f e) (g e)) es c)))"
  by (induction es arbitrary: c) (simp_all add: distinct_put)

lemma distinct_get:
  "distinct (map fst (entries c)) \<Longrightarrow> distinct (map fst (entries (snd (lru_get L c k))))"
  by (simp add: entries_get distinct_drop_key split: option.split)

lemma distinct_step:
  "distinct (map fst (entries (di_cache d))) \<Longrightarrow>
   distinct (map fst (entries (di_cache (dedup_step L call d))))"
proof (cases call)
  case (CheckCall ps)
  then show "distinct (map fst (entries (di_cache d))) \<Longrightarrow> ?thesis"
    by (cases ps) (simp_all add: dedup_check_Cons distinct_get)
qed (simp add: dedup_record_def distinct_puts)

lemma held_step:
  assumes "held (di_cache d) S k v" and "finite S" and "k \<notin> stored_ids call"
    and "card ((S \<union> touched call) - {k}) < cap (di_cache d)"
  shows "held (di_cache (dedup_step L call d)) (S \<union> touched call) k v"
proof (cases call)
  case (CheckCall ps)
  with assms(1) held_touch show ?thesis by (cases ps) (simp_all add: dedup_check_Cons)
next
  case (RecordCall rs)
  with assms show ?thesis by (simp add: dedup_record_def held_puts)
qed

lemma held_steps:
  assumes "held (di_cache d) S k v" and "finite S" and "\<forall>call \<in> set calls. k \<notin> stored_ids call"
    and "card ((S \<union> (\<Union>call \<in> set calls. touched call)) - {k}) < cap (di_cache d)"
  shows "held (di_cache (fold (dedup_step L) calls d)) (S \<union> (\<Union>call \<in> set calls. touched call)) k v"
  using assms
proof (induction calls arbitrary: d S)
  case (Cons call calls)
  have "card ((S \<union> touched call) - {k}) \<le>
      card ((S \<union> (\<Union>call \<in> set (call # calls). touched call)) - {k})"
    using Cons.prems(2) by (intro card_mono) auto
  then have "held (di_cache (dedup_step L call d)) (S \<union> touched call) k v"
    using Cons.prems by (intro held_step) auto
  from Cons.IH [OF this] Cons.prems show ?case by (simp add: cap_step Un_assoc)
qed simp

lemma held_record:
  assumes "distinct (map fst (entries (di_cache d)))" and "e \<in> set rs"
    and "distinct (map re_event_id rs)"
    and "card (re_event_id ` set rs - {re_event_id e}) < cap (di_cache d)"
  shows "held (di_cache (dedup_record L d rs)) (re_event_id ` set rs) (re_event_id e) rs"
proof -
  obtain xs ys where rs: "rs = xs @ e # ys" using assms(2) by (meson split_list)
  define c where "c = fold (\<lambda>e c. lru_put L c (re_event_id e) rs) xs (di_cache d)"
  have cap: "cap c = cap (di_cache d)" by (simp add: c_def cap_fold_put)
  have "held (lru_put L c (re_event_id e) rs) {} (re_event_id e) rs"
    using distinct_puts [OF assms(1)] assms(4) cap by (intro held_put_same) (auto simp: c_def)
  moreover have "card (re_event_id ` set ys - {re_event_id e})
      \<le> card (re_event_id ` set rs - {re_event_id e})"
    by (intro card_mono) (auto simp: rs)
  ultimately have "held (fold (\<lambda>e c. lru_put L c (re_event_id e) rs) ys
      (lru_put L c (re_event_id e) rs)) ({} \<union> re_event_id ` set ys) (re_event_id e) rs"
    using assms(3,4) cap rs by (intro held_puts) (auto simp: cap_put)
  then have "held (di_cache (dedup_record L d rs)) (re_event_id ` set ys) (re_event_id e) rs"
    by (simp add: dedup_record_def c_def) (simp add: rs)
  then show ?thesis by (rule held_mono) (auto simp: rs)
qed

lemma distinct_steps:
  "distinct (map fst (entries (di_cache d))) \<Longrightarrow>
   distinct (map fst (entries (di_cache (fold (dedup_step L) calls d))))"
  by (induction calls arbitrary: d) (simp_all add: distinct_step)

lemma cap_steps: "cap (di_cache (fold (dedup_step L) calls d)) = cap (di_cache d)"
  by (induction calls arbitrary: d) (simp_all add: cap_step)

lemma seeded_entries:
  "distinct (map re_event_id es) \<Longrightarrow> entries (di_cache (seed_from_log L (dedup_new L n) es))
     = take n (map (\<lambda>e. (re_event_id e, [e])) (rev es))"
  by (simp add: seed_from_log_def dedup_new_def entries_fold_put entries_new cap_new rev_map)

lemma seeded_distinct_cap:
  "distinct (map fst (entries (di_cache (seed_from_log L (dedup_new L n) es))))"
  "cap (di_cache (seed_from_log L (dedup_new L n) es)) = n"
  by (simp_all add: seed_from_log_def dedup_new_def distinct_puts entries_new cap_new cap_fold_put)

lemma retry_hit:
  assumes d: "d = fold (dedup_step L) before (seed_from_log L (dedup_new L n) es)"
    and "e \<in> set rs" and "distinct (map re_event_id rs)"
    and "\<forall>call \<in> set calls. re_event_id e \<notin> stored_ids call"
    and room: "card (re_event_id ` set rs \<union> (\<Union>call \<in> set calls. touched call)) \<le> n"
    and "pe_event_id p = re_event_id e"
  shows "fst (dedup_check L (fold (dedup_step L) calls (dedup_record L d rs)) (p # ps)) = Some rs"
proof -
  let ?k = "re_event_id e" and ?I = "re_event_id ` set rs"
  let ?T = "\<Union>call \<in> set calls. touched call"
  have dc: "distinct (map fst (entries (di_cache d)))" "cap (di_cache d) = n"
    unfolding d by (simp_all add: distinct_steps cap_steps seeded_distinct_cap)
  have k: "?k \<in> ?I" using assms(2) by simp
  then have "card (?I \<union> ?T - {?k}) < card (?I \<union> ?T)" by (intro card_Diff1_less) auto
  then have "card (?I \<union> ?T - {?k}) < n" using room by simp
  moreover have "card (?I - {?k}) \<le> card (?I \<union> ?T - {?k})" by (intro card_mono) auto
  ultimately have "held (di_cache (fold (dedup_step L) calls (dedup_record L d rs))) (?I \<union> ?T) ?k rs"
    using dc assms(2-4) cap_step [of "RecordCall rs" d] by (intro held_steps held_record) auto
  then show ?thesis using assms(6) by (simp add: dedup_check_Cons held_get)
qed

end

lemma demo_proposed_id: "pe_event_id (demo_proposed n) = of_nat n"
  by (simp add: demo_proposed_def)

lemma demo_batch:
  "appended demo_store 1 9 [demo_proposed 4, demo_proposed 5]
   = [mk_recorded 1 9 (demo_proposed 4) 0 0, mk_recorded 1 9 (demo_proposed 5) 1 1]"
  by (simp add: appended_def demo_store_def empty_log_def next_version_def)

text \<open>
  C25: idempotent retries. Once a batch was recorded, a check whose first event carries the id of any
  event of the batch returns the whole original batch, as long as the ids of the batch and the ids
  used by the calls made since then fit into the index and no later batch stored that id again.
\<close>

theorem dedup_retry_window:
  assumes "lru_cache L entries cap"
    and "d = fold (dedup_step L) before (seed_from_log L (dedup_new L n) es)"
    and "e \<in> set rs" and "distinct (map re_event_id rs)"
    and "\<forall>call \<in> set calls. re_event_id e \<notin> stored_ids call"
    and "card (re_event_id ` set rs \<union> (\<Union>call \<in> set calls. touched call)) \<le> n"
    and "pe_event_id p = re_event_id e"
  shows "fst (dedup_check L (fold (dedup_step L) calls (dedup_record L d rs)) (p # ps)) = Some rs"
  using lru_cache.retry_hit [OF assms] .

theorem dedup_retry_window_witness:
  "let rs = appended demo_store 1 9 [demo_proposed 4, demo_proposed 5];
       d = dedup_record lru_list_ops (seed_from_log lru_list_ops (dedup_new lru_list_ops 3) []) rs
   in fst (dedup_check lru_list_ops (dedup_step lru_list_ops (CheckCall [demo_proposed 8]) d)
        [demo_proposed 4]) = Some rs"
proof -
  let ?rs = "appended demo_store 1 9 [demo_proposed 4, demo_proposed 5]"
  have "fst (dedup_check lru_list_ops (fold (dedup_step lru_list_ops) [CheckCall [demo_proposed 8]]
      (dedup_record lru_list_ops (fold (dedup_step lru_list_ops) []
         (seed_from_log lru_list_ops (dedup_new lru_list_ops 3) [])) ?rs)) (demo_proposed 4 # []))
     = Some ?rs"
    by (rule dedup_retry_window [OF ll.lru_cache_axioms refl, of "hd ?rs"])
      (simp_all add: demo_batch mk_recorded_def demo_proposed_id card_insert_if)
  then show ?thesis by (simp add: Let_def)
qed

text \<open>
  C37: after a restart the index is seeded with one-event batches. For a log with distinct ids and a
  first event id among the last \<open>n\<close> events, the check returns only that single event, and for an
  older or unknown id it returns nothing: a retry of a batch of several events that was
  acknowledged before the restart is answered with its first event alone.
\<close>

theorem restart_dedup_single_event:
  assumes "lru_cache L entries cap" and "distinct (map re_event_id es)"
  shows "fst (dedup_check L (seed_from_log L (dedup_new L n) es) (p # ps)) =
    (case find (\<lambda>e. re_event_id e = pe_event_id p) (take n (rev es)) of
       Some e \<Rightarrow> Some [e] | None \<Rightarrow> None)"
proof -
  have "map_of (map (\<lambda>e. (re_event_id e, [e])) xs) k =
      map_option (\<lambda>e. [e]) (find (\<lambda>e. re_event_id e = k) xs)"
    for xs :: "recorded_event list" and k
    by (induction xs) auto
  then show ?thesis
    by (simp add: dedup_check_Cons lru_cache.get_value [OF assms(1)]
        lru_cache.seeded_entries [OF assms] take_map split: option.split)
qed

theorem restart_dedup_single_event_witness:
  "let rs = appended demo_store 1 9 [demo_proposed 4, demo_proposed 5] in
   fst (dedup_check lru_list_ops (seed_from_log lru_list_ops (dedup_new lru_list_ops 3) rs)
        [demo_proposed 4, demo_proposed 5]) = Some [hd rs]"
proof -
  let ?rs = "appended demo_store 1 9 [demo_proposed 4, demo_proposed 5]"
  have "distinct (map re_event_id ?rs)" by (simp add: demo_batch mk_recorded_def demo_proposed_id)
  from restart_dedup_single_event [OF ll.lru_cache_axioms this, of 3 "demo_proposed 4" "[demo_proposed 5]"]
  show ?thesis by (simp add: Let_def demo_batch mk_recorded_def demo_proposed_id)
qed

end
