(* ===== verification/Broker.thy ===== *)
theory Broker
  imports Reader
begin

text \<open>
  The broadcast broker of \<open>src/broker.rs\<close> and the two subscription generators. The
  \<open>tokio::sync::broadcast\<close> channel is a parameter (\<open>broadcast_ops\<close>) with the locale
  \<open>broadcast_channel\<close> as its documented contract: a receiver sees every value sent after its
  subscription in order, unless it lags behind by more than the capacity.

  A generator (\<open>stream!\<close>) is a state machine. Its state holds the locals of the body and a control
  point; one step runs to the next \<open>yield\<close>, loop turn or \<open>recv().await\<close>, and returns the yielded item
  if there is one. The outer \<open>None\<close> is a panic of a read.
\<close>

datatype recv_result =
    RecvOk recorded_event
  | RecvLagged nat
  | RecvClosed
  | RecvPending

record ('ch, 'rx) broadcast_ops =
  bc_channel :: "nat \<Rightarrow> 'ch"
  bc_send :: "'ch \<Rightarrow> recorded_event \<Rightarrow> bool \<times> 'ch"
  bc_subscribe :: "'ch \<Rightarrow> 'rx \<times> 'ch"
  bc_recv :: "'ch \<Rightarrow> 'rx \<Rightarrow> recv_result \<times> 'rx"

subsection \<open>The broker\<close>

record 'ch broker =
  br_tx :: 'ch

definition broker_new :: "('ch, 'rx) broadcast_ops \<Rightarrow> nat \<Rightarrow> 'ch broker" where
  "broker_new B capacity = \<lparr>br_tx = bc_channel B capacity\<rparr>"

text \<open>A failed send (no receiver) only logs a warning.\<close>

definition broker_publish ::
  "('ch, 'rx) broadcast_ops \<Rightarrow> recorded_event list \<Rightarrow> 'ch broker \<Rightarrow> 'ch broker" where
  "broker_publish B events b =
     fold (\<lambda>event b. b\<lparr>br_tx := snd (bc_send B (br_tx b) event)\<rparr>) events b"

definition broker_subscribe ::
  "('ch, 'rx) broadcast_ops \<Rightarrow> 'ch broker \<Rightarrow> 'rx \<times> 'ch broker" where
  "broker_subscribe B b = (let (rx, tx) = bc_subscribe B (br_tx b) in (rx, b\<lparr>br_tx := tx\<rparr>))"

subsection \<open>Subscription streams\<close>

definition CATCHUP_BATCH_SIZE :: u64 where "CATCHUP_BATCH_SIZE = 500"

type_synonym item = "error + subscription_message"

text \<open>
  Control points: the head of the catch-up loop; inside its \<open>for\<close> loop, with the events still to
  yield and the length of the batch read; before the \<open>CaughtUp\<close> marker; the live loop; the end.
\<close>

datatype sub_phase =
    Reading
  | Yielding "recorded_event list" u64
  | Marking
  | Live
  | Finished

record 'rx subscriber =
  sb_phase :: sub_phase
  sb_cursor :: u64
  sb_last :: "u64 option"
  sb_rx :: 'rx

definition lag_error :: error where
  "lag_error = InvalidArgument ''subscription lagged: re-subscribe from last checkpoint''"

definition subscribe_all ::
  "('ch, 'rx) broadcast_ops \<Rightarrow> 'ch broker \<Rightarrow> u64 \<Rightarrow> 'rx subscriber \<times> 'ch broker" where
  "subscribe_all B b from_position =
     (let (rx, b') = broker_subscribe B b
      in (\<lparr>sb_phase = Reading, sb_cursor = from_position, sb_last = None, sb_rx = rx\<rparr>, b'))"

definition subscribe_all_step ::
  "('ch, 'rx) broadcast_ops \<Rightarrow> read_index \<Rightarrow> 'ch broker \<Rightarrow> 'rx subscriber
     \<Rightarrow> (item option \<times> 'rx subscriber) option" where
  "subscribe_all_step B read_index b st =
     (case sb_phase st of
        Reading \<Rightarrow>
          (case ri_read_all read_index (sb_cursor st) CATCHUP_BATCH_SIZE of
             None \<Rightarrow> None
           | Some batch \<Rightarrow> Some (None, st\<lparr>sb_phase := Yielding batch (of_nat (length batch))\<rparr>))
      | Yielding (event # rest) batch_len \<Rightarrow>
          Some (Some (Inr (EventMsg event)),
                st\<lparr>sb_phase := Yielding rest batch_len,
                   sb_last := Some (re_global_position event),
                   sb_cursor := re_global_position event + 1\<rparr>)
      | Yielding [] batch_len \<Rightarrow>
          Some (None, st\<lparr>sb_phase := if batch_len < CATCHUP_BATCH_SIZE then Marking else Reading\<rparr>)
      | Marking \<Rightarrow> Some (Some (Inr CaughtUp), st\<lparr>sb_phase := Live\<rparr>)
      | Live \<Rightarrow>
          (case bc_recv B (br_tx b) (sb_rx st) of
             (RecvOk event, rx) \<Rightarrow>
               if (case sb_last st of Some last_pos \<Rightarrow> re_global_position event \<le> last_pos
                   | None \<Rightarrow> False)
               then Some (None, st\<lparr>sb_rx := rx\<rparr>)
               else Some (Some (Inr (EventMsg event)), st\<lparr>sb_rx := rx\<rparr>)
           | (RecvLagged _, rx) \<Rightarrow>
               Some (Some (Inl lag_error), st\<lparr>sb_rx := rx, sb_phase := Finished\<rparr>)
           | (RecvClosed, rx) \<Rightarrow> Some (None, st\<lparr>sb_rx := rx, sb_phase := Finished\<rparr>)
           | (RecvPending, rx) \<Rightarrow> Some (None, st\<lparr>sb_rx := rx\<rparr>))
      | Finished \<Rightarrow> Some (None, st))"

definition subscribe_stream ::
  "('ch, 'rx) broadcast_ops \<Rightarrow> 'ch broker \<Rightarrow> u64 \<Rightarrow> 'rx subscriber \<times> 'ch broker" where
  "subscribe_stream B b from_version =
     (let (rx, b') = broker_subscribe B b
      in (\<lparr>sb_phase = Reading, sb_cursor = from_version, sb_last = None, sb_rx = rx\<rparr>, b'))"

definition subscribe_stream_step ::
  "('ch, 'rx) broadcast_ops \<Rightarrow> uuid \<Rightarrow> read_index \<Rightarrow> 'ch broker \<Rightarrow> 'rx subscriber
     \<Rightarrow> (item option \<times> 'rx subscriber) option" where
  "subscribe_stream_step B stream_id read_index b st =
     (case sb_phase st of
        Reading \<Rightarrow>
          (case ri_read_stream read_index stream_id (sb_cursor st) CATCHUP_BATCH_SIZE of
             None \<Rightarrow> None
           | Some (Inr batch) \<Rightarrow>
               Some (None, st\<lparr>sb_phase := Yielding batch (of_nat (length batch))\<rparr>)
           | Some (Inl (StreamNotFound _)) \<Rightarrow> Some (None, st\<lparr>sb_phase := Marking\<rparr>)
           | Some (Inl e) \<Rightarrow> Some (Some (Inl e), st\<lparr>sb_phase := Finished\<rparr>))
      | Yielding (event # rest) batch_len \<Rightarrow>
          Some (Some (Inr (EventMsg event)),
                st\<lparr>sb_phase := Yielding rest batch_len,
                   sb_last := Some (re_stream_version event),
                   sb_cursor := re_stream_version event + 1\<rparr>)
      | Yielding [] batch_len \<Rightarrow>
          Some (None, st\<lparr>sb_phase := if batch_len < CATCHUP_BATCH_SIZE then Marking else Reading\<rparr>)
      | Marking \<Rightarrow> Some (Some (Inr CaughtUp), st\<lparr>sb_phase := Live\<rparr>)
      | Live \<Rightarrow>
          (case bc_recv B (br_tx b) (sb_rx st) of
             (RecvOk event, rx) \<Rightarrow>
               if re_stream_id event \<noteq> stream_id then Some (None, st\<lparr>sb_rx := rx\<rparr>)
               else if (case sb_last st of Some last_ver \<Rightarrow> re_stream_version event \<le> last_ver
                        | None \<Rightarrow> False)
               then Some (None, st\<lparr>sb_rx := rx\<rparr>)
               else Some (Some (Inr (EventMsg event)), st\<lparr>sb_rx := rx\<rparr>)
           | (RecvLagged _, rx) \<Rightarrow>
               Some (Some (Inl lag_error), st\<lparr>sb_rx := rx, sb_phase := Finished\<rparr>)
           | (RecvClosed, rx) \<Rightarrow> Some (None, st\<lparr>sb_rx := rx, sb_phase := Finished\<rparr>)
           | (RecvPending, rx) \<Rightarrow> Some (None, st\<lparr>sb_rx := rx\<rparr>))
      | Finished \<Rightarrow> Some (None, st))"

subsection \<open>The channel's contract\<close>

text \<open>
  \<open>queue ch rx\<close> are the values sent since \<open>rx\<close> was created that it has not taken yet, \<open>live\<close> says that
  \<open>rx\<close> belongs to the channel, \<open>capacity\<close> is the number of values the channel retains (at least the
  requested capacity).
\<close>

locale broadcast_channel =
  fixes B :: "('ch, 'rx) broadcast_ops"
    and queue :: "'ch \<Rightarrow> 'rx \<Rightarrow> recorded_event list"
    and live :: "'ch \<Rightarrow> 'rx \<Rightarrow> bool"
    and capacity :: "'ch \<Rightarrow> nat"
  assumes capacity_channel: "n \<le> capacity (bc_channel B n)"
    and subscribe_new: "live (snd (bc_subscribe B ch)) (fst (bc_subscribe B ch)) \<and>
          queue (snd (bc_subscribe B ch)) (fst (bc_subscribe B ch)) = []"
    and subscribe_old: "live ch rx \<Longrightarrow> live (snd (bc_subscribe B ch)) rx \<and>
          queue (snd (bc_subscribe B ch)) rx = queue ch rx"
    and capacity_subscribe: "capacity (snd (bc_subscribe B ch)) = capacity ch"
    and send: "live ch rx \<Longrightarrow> live (snd (bc_send B ch e)) rx \<and>
          queue (snd (bc_send B ch e)) rx = queue ch rx @ [e]"
    and capacity_send: "capacity (snd (bc_send B ch e)) = capacity ch"
    and recv: "live ch rx \<Longrightarrow> (case bc_recv B ch rx of
            (RecvOk e, rx') \<Rightarrow> live ch rx' \<and> queue ch rx = e # queue ch rx'
          | (RecvLagged n, rx') \<Rightarrow> capacity ch < length (queue ch rx)
          | (RecvClosed, rx') \<Rightarrow> queue ch rx = []
          | (RecvPending, rx') \<Rightarrow> live ch rx' \<and> queue ch rx = [] \<and> queue ch rx' = [])"
begin

lemma publish_queue:
  "live (br_tx b) rx \<Longrightarrow> live (br_tx (broker_publish B es b)) rx \<and>
     queue (br_tx (broker_publish B es b)) rx = queue (br_tx b) rx @ es"
proof (induction es arbitrary: b)
  case (Cons e es)
  from Cons.IH [of "b\<lparr>br_tx := snd (bc_send B (br_tx b) e)\<rparr>"] send [OF Cons.prems, of e]
  show ?case by (simp add: broker_publish_def)
qed (simp add: broker_publish_def)

lemma recv_next:
  assumes "live ch rx" and "queue ch rx = e # q" and "length (e # q) \<le> capacity ch"
  shows "\<exists>rx'. bc_recv B ch rx = (RecvOk e, rx') \<and> live ch rx' \<and> queue ch rx' = q"
  using recv [OF assms(1)] assms(2,3) by (auto split: prod.splits recv_result.splits)

end

text \<open>The documented behaviour, executable: the values sent so far and each receiver's position.\<close>

record bc_list =
  bl_sent :: "recorded_event list"
  bl_cap :: nat

definition bc_list_ops :: "(bc_list, nat) broadcast_ops" where
  "bc_list_ops =
     \<lparr>bc_channel = (\<lambda>n. \<lparr>bl_sent = [], bl_cap = n\<rparr>),
      bc_send = (\<lambda>ch e. (True, ch\<lparr>bl_sent := bl_sent ch @ [e]\<rparr>)),
      bc_subscribe = (\<lambda>ch. (length (bl_sent ch), ch)),
      bc_recv = (\<lambda>ch rx.
        let n = length (bl_sent ch) in
        if n \<le> rx then (RecvPending, rx)
        else if bl_cap ch < n - rx then (RecvLagged (n - rx - bl_cap ch), n - bl_cap ch)
        else (RecvOk (bl_sent ch ! rx), Suc rx))\<rparr>"

interpretation bl: broadcast_channel bc_list_ops "\<lambda>ch rx. drop rx (bl_sent ch)"
  "\<lambda>ch rx. rx \<le> length (bl_sent ch)" bl_cap
  by unfold_locales
    (auto simp: bc_list_ops_def Let_def Cons_nth_drop_Suc split: prod.splits)

end
