(* ===== verification/Writer.thy ===== *)
theory Writer
  imports Dedup Broker
begin

text \<open>
  The single writer task of \<open>src/writer.rs\<close>. A request carries a token in place of its oneshot
  sender; the responses sent so far are a list of tokens with results (a dropped receiver only logs
  a warning). The mpsc channel shows in the rounds of \<open>run_writer\<close>: each round is the request that
  \<open>recv\<close> returned with those that \<open>try_recv\<close> drained behind it, the clock reading of the round and the
  I/O script of each request. The metrics of the \<open>metrics\<close> crate are a record of the recorded values.
\<close>

record append_request =
  ar_stream_id :: uuid
  ar_expected_version :: expected_version
  ar_events :: "proposed_event list"
  ar_response_tx :: nat

type_synonym append_result = "error + recorded_event list"

record writer_metrics =
  wm_append_durations :: nat
  wm_appends_total :: nat
  wm_events_total :: nat
  wm_streams_total :: nat
  wm_log_bytes :: nat
  wm_global_position :: u64

record writer_io =
  wi_append :: append_io
  wi_metadata :: "io_error option"

definition writer_io_ok :: writer_io where
  "writer_io_ok = \<lparr>wi_append = append_io_ok, wi_metadata = None\<rparr>"

record ('c, 'ch) writer_state =
  ws_store :: store
  ws_dedup :: "'c dedup_index"
  ws_broker :: "'ch broker"
  ws_metrics :: writer_metrics
  ws_responses :: "(nat \<times> append_result) list"

text \<open>The libraries the writer is built on.\<close>

record ('c, 'ch, 'rx) writer_env =
  we_crc :: crc_ops
  we_lru :: "'c lru_ops"
  we_bc :: "('ch, 'rx) broadcast_ops"
  we_uuid_str :: "uuid \<Rightarrow> string"

text \<open>\<open>WriterHandle::append\<close>: whether the channel took the request, and what the oneshot delivered.\<close>

definition writer_handle_append :: "bool \<Rightarrow> append_result option \<Rightarrow> append_result" where
  "writer_handle_append sent response =
     (if \<not> sent then Inl (InvalidArgument ''writer task closed'')
      else case response of
             None \<Rightarrow> Inl (InvalidArgument ''writer task closed'')
           | Some r \<Rightarrow> r)"

fun first_duplicate :: "uuid list \<Rightarrow> proposed_event list \<Rightarrow> uuid option" where
  "first_duplicate seen [] = None"
| "first_duplicate seen (event # events) =
     (if pe_event_id event \<in> set seen then Some (pe_event_id event)
      else first_duplicate (pe_event_id event # seen) events)"

definition validate_batch_unique_ids :: "(uuid \<Rightarrow> string) \<Rightarrow> proposed_event list \<Rightarrow> error + unit" where
  "validate_batch_unique_ids uuid_str events =
     (if length events \<le> 1 then Inr ()
      else case first_duplicate [] events of
             Some dup \<Rightarrow> Inl (InvalidArgument (''duplicate event_id '' @ uuid_str dup @ '' within batch''))
           | None \<Rightarrow> Inr ())"

definition send_response ::
  "append_request \<Rightarrow> append_result \<Rightarrow> ('c, 'ch) writer_state \<Rightarrow> ('c, 'ch) writer_state" where
  "send_response req result st =
     st\<lparr>ws_responses := ws_responses st @ [(ar_response_tx req, result)]\<rparr>"

definition update_metrics ::
  "writer_io \<Rightarrow> store \<Rightarrow> recorded_event list \<Rightarrow> writer_metrics \<Rightarrow> writer_metrics" where
  "update_metrics io s recorded m =
     (let m1 = m\<lparr>wm_append_durations := Suc (wm_append_durations m),
                 wm_appends_total := Suc (wm_appends_total m),
                 wm_events_total := wm_events_total m + length recorded,
                 wm_streams_total := length (el_streams (st_log s))\<rparr>;
          m2 = (case store_log_file_len (wi_metadata io) s of
                  Inr len \<Rightarrow> m1\<lparr>wm_log_bytes := unat len\<rparr>
                | Inl e \<Rightarrow> m1)
      in if recorded = [] then m2
         else m2\<lparr>wm_global_position := re_global_position (last recorded) + 1\<rparr>)"

text \<open>The body of the loop over a drained batch, for one request.\<close>

definition process_request ::
  "('c, 'ch, 'rx) writer_env \<Rightarrow> u64 \<Rightarrow> append_request \<times> writer_io
     \<Rightarrow> ('c, 'ch) writer_state \<Rightarrow> ('c, 'ch) writer_state" where
  "process_request W recorded_at = (\<lambda>(req, io) st.
     case validate_batch_unique_ids (we_uuid_str W) (ar_events req) of
       Inl e \<Rightarrow> send_response req (Inl e) st
     | Inr _ \<Rightarrow>
         (case dedup_check (we_lru W) (ws_dedup st) (ar_events req) of
            (Some cached, dedup) \<Rightarrow> send_response req (Inr cached) (st\<lparr>ws_dedup := dedup\<rparr>)
          | (None, dedup) \<Rightarrow>
              (case store_append (we_crc W) (wi_append io) (ws_store st) (ar_stream_id req)
                      (ar_expected_version req) recorded_at (ar_events req) of
                 (s, Inl e) \<Rightarrow> send_response req (Inl e) (st\<lparr>ws_dedup := dedup, ws_store := s\<rparr>)
               | (s, Inr recorded) \<Rightarrow>
                   send_response req (Inr recorded)
                     (st\<lparr>ws_store := s,
                         ws_metrics := update_metrics io s recorded (ws_metrics st),
                         ws_dedup := dedup_record (we_lru W) dedup recorded,
                         ws_broker := broker_publish (we_bc W) recorded (ws_broker st)\<rparr>))))"

type_synonym writer_round = "nat \<times> (append_request \<times> writer_io) list"

text \<open>The clock is read once per round and truncated to 64 bits.\<close>

definition run_writer ::
  "('c, 'ch, 'rx) writer_env \<Rightarrow> writer_round list \<Rightarrow> ('c, 'ch) writer_state \<Rightarrow> ('c, 'ch) writer_state" where
  "run_writer W rounds st =
     fold (\<lambda>(millis, batch) st.
             let recorded_at = of_nat millis
             in fold (process_request W recorded_at) batch st) rounds st"

definition spawn_writer ::
  "('c, 'ch, 'rx) writer_env \<Rightarrow> store \<Rightarrow> 'ch broker \<Rightarrow> nat \<Rightarrow> writer_metrics
     \<Rightarrow> ('c, 'ch) writer_state \<times> read_index" where
  "spawn_writer W s b dedup_capacity m =
     (let read_index = read_index_new (st_log s);
          dedup = seed_from_log (we_lru W) (dedup_new (we_lru W) dedup_capacity) (el_events (st_log s))
      in (\<lparr>ws_store = s, ws_dedup = dedup, ws_broker = b, ws_metrics = m, ws_responses = []\<rparr>,
          read_index))"

subsection \<open>Validation\<close>

lemma first_duplicate_None_iff:
  "first_duplicate seen events = None \<longleftrightarrow>
     distinct (map pe_event_id events) \<and> set seen \<inter> pe_event_id ` set events = {}"
  by (induction seen events rule: first_duplicate.induct) auto

lemma first_duplicate_Some:
  "first_duplicate seen events = Some k \<Longrightarrow> k \<in> pe_event_id ` set events"
  by (induction seen events rule: first_duplicate.induct) (auto split: if_splits)

lemma validate_Inr_iff:
  "validate_batch_unique_ids uuid_str events = Inr u \<longleftrightarrow> distinct (map pe_event_id events)"
proof (cases "length events \<le> 1")
  case True
  then show ?thesis by (cases events) (auto simp: validate_batch_unique_ids_def)
next
  case False
  with first_duplicate_None_iff [of "[]" events] show ?thesis
    by (auto simp: validate_batch_unique_ids_def split: option.splits)
qed

subsection \<open>One request\<close>

lemma process_duplicate:
  assumes "distinct (map pe_event_id (ar_events req))"
    and "dedup_check (we_lru W) (ws_dedup st) (ar_events req) = (Some cached, dedup)"
  shows "process_request W ts (req, io) st = send_response req (Inr cached) (st\<lparr>ws_dedup := dedup\<rparr>)"
  using assms validate_Inr_iff [of "we_uuid_str W" "ar_events req" "()"] by (simp add: process_request_def)

lemma process_fresh:
  assumes "distinct (map pe_event_id (ar_events req))"
    and "dedup_check (we_lru W) (ws_dedup st) (ar_events req) = (None, dedup)"
    and "store_append (we_crc W) (wi_append io) (ws_store st) (ar_stream_id req)
           (ar_expected_version req) ts (ar_events req) = (s, Inr recorded)"
  shows "process_request W ts (req, io) st = send_response req (Inr recorded)
     (st\<lparr>ws_store := s, ws_metrics := update_metrics io s recorded (ws_metrics st),
         ws_dedup := dedup_record (we_lru W) dedup recorded,
         ws_broker := broker_publish (we_bc W) recorded (ws_broker st)\<rparr>)"
  using assms validate_Inr_iff [of "we_uuid_str W" "ar_events req" "()"] by (simp add: process_request_def)

lemma process_refused:
  assumes "distinct (map pe_event_id (ar_events req))"
    and "dedup_check (we_lru W) (ws_dedup st) (ar_events req) = (None, dedup)"
    and "store_append (we_crc W) (wi_append io) (ws_store st) (ar_stream_id req)
           (ar_expected_version req) ts (ar_events req) = (s, Inl e)"
  shows "process_request W ts (req, io) st
     = send_response req (Inl e) (st\<lparr>ws_dedup := dedup, ws_store := s\<rparr>)"
  using assms validate_Inr_iff [of "we_uuid_str W" "ar_events req" "()"] by (simp add: process_request_def)

text \<open>The four ways a request is served.\<close>

lemma process_request_cases:
  obtains
    (invalid) m where "\<not> distinct (map pe_event_id (ar_events req))"
      "process_request W ts (req, io) st = send_response req (Inl (InvalidArgument m)) st"
  | (duplicate) cached dedup where "distinct (map pe_event_id (ar_events req))"
      "dedup_check (we_lru W) (ws_dedup st) (ar_events req) = (Some cached, dedup)"
      "process_request W ts (req, io) st = send_response req (Inr cached) (st\<lparr>ws_dedup := dedup\<rparr>)"
  | (refused) dedup s e where "distinct (map pe_event_id (ar_events req))"
      "dedup_check (we_lru W) (ws_dedup st) (ar_events req) = (None, dedup)"
      "store_append (we_crc W) (wi_append io) (ws_store st) (ar_stream_id req)
         (ar_expected_version req) ts (ar_events req) = (s, Inl e)"
      "process_request W ts (req, io) st
         = send_response req (Inl e) (st\<lparr>ws_dedup := dedup, ws_store := s\<rparr>)"
  | (appended) dedup s recorded where "distinct (map pe_event_id (ar_events req))"
      "dedup_check (we_lru W) (ws_dedup st) (ar_events req) = (None, dedup)"
      "store_append (we_crc W) (wi_append io) (ws_store st) (ar_stream_id req)
         (ar_expected_version req) ts (ar_events req) = (s, Inr recorded)"
      "process_request W ts (req, io) st = send_response req (Inr recorded)
         (st\<lparr>ws_store := s, ws_metrics := update_metrics io s recorded (ws_metrics st),
             ws_dedup := dedup_record (we_lru W) dedup recorded,
             ws_broker := broker_publish (we_bc W) recorded (ws_broker st)\<rparr>)"
proof (cases "validate_batch_unique_ids (we_uuid_str W) (ar_events req)")
  case (Inl e)
  then have "\<not> distinct (map pe_event_id (ar_events req))"
    using validate_Inr_iff [of "we_uuid_str W" "ar_events req" "()"] by simp
  moreover from Inl obtain m where "e = InvalidArgument m"
    by (auto simp: validate_batch_unique_ids_def split: if_splits option.splits)
  ultimately show thesis using Inl by (intro invalid [of m]) (simp_all add: process_request_def)
next
  case (Inr u)
  then have d: "distinct (map pe_event_id (ar_events req))" by (simp add: validate_Inr_iff)
  obtain hit dedup where c: "dedup_check (we_lru W) (ws_dedup st) (ar_events req) = (hit, dedup)"
    by fastforce
  obtain s r where a: "store_append (we_crc W) (wi_append io) (ws_store st) (ar_stream_id req)
         (ar_expected_version req) ts (ar_events req) = (s, r)" by fastforce
  show thesis
  proof (cases hit)
    case (Some cached)
    note c' = c [unfolded Some]
    show thesis by (rule duplicate [OF d c' process_duplicate [OF d c']])
  next
    case None
    note c' = c [unfolded None]
    show thesis
    proof (cases r)
      case (Inl e)
      note a' = a [unfolded Inl]
      show thesis by (rule refused [OF d c' a' process_refused [OF d c' a']])
    next
      case (Inr rs)
      note a' = a [unfolded Inr]
      show thesis by (rule appended [OF d c' a' process_fresh [OF d c' a']])
    qed
  qed
qed

lemma process_request_responds:
  "\<exists>r. ws_responses (process_request W ts (req, io) st)
       = ws_responses st @ [(ar_response_tx req, r)]"
  by (cases rule: process_request_cases [of req W ts io st]) (auto simp: send_response_def)

text \<open>
  Every effect of a request on the log, on a receiver and on the metrics is that of the same list
  of new events: the recorded batch, or nothing.
\<close>

definition log_events :: "('c, 'ch) writer_state \<Rightarrow> recorded_event list" where
  "log_events st = el_events (st_log (ws_store st))"

lemma process_request_events:
  fixes ts req io
  assumes bc: "broadcast_channel (we_bc W) queue live capacity"
    and rx: "live (br_tx (ws_broker st)) rx"
  defines "st' \<equiv> process_request W ts (req, io) st"
  shows "\<exists>es. log_events st' = log_events st @ es \<and> live (br_tx (ws_broker st')) rx \<and>
    queue (br_tx (ws_broker st')) rx = queue (br_tx (ws_broker st)) rx @ es \<and>
    wm_events_total (ws_metrics st') = wm_events_total (ws_metrics st) + length es"
proof (cases rule: process_request_cases [of req W ts io st])
  case (refused dedup s e)
  then have "st_log s = st_log (ws_store st)" by (auto dest: store_append_Inl_log)
  with refused rx show ?thesis by (simp add: st'_def send_response_def log_events_def)
next
  case (appended dedup s recorded)
  then have "el_events (st_log s) = log_events st @ recorded"
    by (auto simp: store_append_Inr_iff update_index_def log_events_def)
  with appended broadcast_channel.publish_queue [OF bc rx, of recorded] show ?thesis
    by (intro exI [of _ recorded])
      (auto simp: st'_def send_response_def log_events_def update_metrics_def Let_def split: sum.split)
qed (use rx in \<open>simp_all add: st'_def send_response_def log_events_def\<close>)

subsection \<open>The whole run\<close>

definition round_requests :: "writer_round list \<Rightarrow> append_request list" where
  "round_requests rounds = map fst (concat (map snd rounds))"

text \<open>Invariants of single requests carry over to runs.\<close>

lemma run_writer_induct:
  assumes "P st" and "\<And>ts req io st. P st \<Longrightarrow> P (process_request W ts (req, io) st)"
  shows "P (run_writer W rounds st)"
proof -
  have batch: "P (fold (process_request W ts) batch st)" if "P st" for ts batch st
    using that assms(2) by (induction batch arbitrary: st) auto
  show ?thesis
    using assms(1) batch unfolding run_writer_def Let_def
    by (induction rounds arbitrary: st) (auto split: prod.split)
qed

lemma batch_responds:
  "map fst (ws_responses (fold (process_request W ts) batch st))
     = map fst (ws_responses st) @ map (ar_response_tx \<circ> fst) batch"
proof (induction batch arbitrary: st)
  case (Cons q batch)
  obtain req io where q: "q = (req, io)" by fastforce
  with Cons process_request_responds [of W ts req io st] show ?case by auto
qed simp

text \<open>
  Every request the writer takes from its channel is answered exactly once, in the order in which
  the requests arrived, however they were drained into rounds.
\<close>

lemma writer_answers_in_order:
  "map fst (ws_responses (run_writer W rounds st))
     = map fst (ws_responses st) @ map ar_response_tx (round_requests rounds)"
proof (induction rounds arbitrary: st)
  case (Cons r rounds)
  obtain millis batch where r: "r = (millis, batch)" by fastforce
  have "run_writer W (r # rounds) st = run_writer W rounds (fold (process_request W (of_nat millis)) batch st)"
    by (simp add: run_writer_def r)
  with Cons.IH r show ?case by (simp add: batch_responds round_requests_def)
qed (simp add: run_writer_def round_requests_def)

text \<open>
  C16: what a subscriber's receiver is sent is exactly what the log gains, in the same order: over a
  whole run of the writer, with refused, duplicate and failed requests in it, a live receiver's queue
  grows by the events the log grew by, and the event counter by their number.
\<close>

theorem writer_publishes_what_it_appends:
  assumes "broadcast_channel (we_bc W) queue live capacity"
    and "live (br_tx (ws_broker st)) rx"
  shows "\<exists>es. log_events (run_writer W rounds st) = log_events st @ es \<and>
    queue (br_tx (ws_broker (run_writer W rounds st))) rx = queue (br_tx (ws_broker st)) rx @ es \<and>
    wm_events_total (ws_metrics (run_writer W rounds st)) = wm_events_total (ws_metrics st) + length es"
proof -
  let ?P = "\<lambda>st'. \<exists>es. log_events st' = log_events st @ es \<and> live (br_tx (ws_broker st')) rx \<and>
    queue (br_tx (ws_broker st')) rx = queue (br_tx (ws_broker st)) rx @ es \<and>
    wm_events_total (ws_metrics st') = wm_events_total (ws_metrics st) + length es"
  have step: "?P (process_request W ts (req, io) st')" if P: "?P st'" for ts req io st'
  proof -
    obtain es where "log_events st' = log_events st @ es" "live (br_tx (ws_broker st')) rx"
      "queue (br_tx (ws_broker st')) rx = queue (br_tx (ws_broker st)) rx @ es"
      "wm_events_total (ws_metrics st') = wm_events_total (ws_metrics st) + length es"
      using P by blast
    with process_request_events [OF assms(1) this(2), of ts req io] show ?thesis by auto
  qed
  have "?P (run_writer W rounds st)"
    by (rule run_writer_induct [where P = ?P]) (use assms(2) step in auto)
  then show ?thesis by blast
qed

subsection \<open>Acknowledged events\<close>

context lru_cache
begin

lemma get_entries: "set (entries (snd (lru_get L c k))) \<subseteq> set (entries c)"
  by (auto simp: entries_get drop_key_def dest: map_of_SomeD split: option.splits)

lemma get_hit: "fst (lru_get L c k) = Some v \<Longrightarrow> (k, v) \<in> set (entries c)"
  by (simp add: get_value map_of_SomeD)

lemma puts_entries:
  "set (entries (fold (\<lambda>e c. lru_put L c (f e) (g e)) es c)) \<subseteq> set (entries c) \<union> (\<lambda>e. (f e, g e)) ` set es"
proof (induction es arbitrary: c)
  case (Cons e es)
  have "set (entries (lru_put L c (f e) (g e))) \<subseteq> insert (f e, g e) (set (entries c))"
    by (auto simp: entries_put drop_key_def dest: in_set_takeD)
  with Cons.IH [of "lru_put L c (f e) (g e)"] show ?case by auto
qed simp

text \<open>
  Everything the index may answer with, and everything answered so far, is a block of the log; the
  block found under an id holds the event with that id.
\<close>

definition acks_logged :: "('c, 'ch) writer_state \<Rightarrow> bool" where
  "acks_logged st \<longleftrightarrow>
     (\<forall>(k, v) \<in> set (entries (di_cache (ws_dedup st))). sublist v (log_events st) \<and> k \<in> re_event_id ` set v) \<and>
     (\<forall>(t, r) \<in> set (ws_responses st). \<forall>rs. r = Inr rs \<longrightarrow> sublist rs (log_events st))"

lemma check_entries:
  assumes "dedup_check L d ps = (hit, d')"
  shows "set (entries (di_cache d')) \<subseteq> set (entries (di_cache d))"
    and "hit = Some v \<Longrightarrow> (pe_event_id (hd ps), v) \<in> set (entries (di_cache d)) \<and> ps \<noteq> []"
  using assms get_entries get_hit by (cases ps; fastforce simp: dedup_check_Cons)+

lemma acks_hit:
  assumes "acks_logged st" and "dedup_check L (ws_dedup st) ps = (Some v, d')"
  shows "ps \<noteq> [] \<and> sublist v (log_events st) \<and> pe_event_id (hd ps) \<in> re_event_id ` set v"
  using check_entries(2) [OF assms(2) refl] assms(1) by (auto simp: acks_logged_def)

lemma acks_answer: "acks_logged st \<Longrightarrow> (t, Inr rs) \<in> set (ws_responses st) \<Longrightarrow> sublist rs (log_events st)"
  by (auto simp: acks_logged_def)

lemma acks_spawn: "we_lru W = L \<Longrightarrow> acks_logged (fst (spawn_writer W s b n m))"
  using puts_entries [of re_event_id "\<lambda>e. [e]" "el_events (st_log s)" "lru_new L n"]
  by (auto simp: acks_logged_def spawn_writer_def seed_from_log_def dedup_new_def log_events_def
      entries_new Let_def intro: sublist_singleton)

lemma acks_extend:
  assumes "acks_logged st" and "prefix (log_events st) (log_events st')"
    and "set (entries (di_cache (ws_dedup st'))) \<subseteq> set (entries (di_cache (ws_dedup st))) \<union> X"
    and "\<And>k v. (k, v) \<in> X \<Longrightarrow> sublist v (log_events st') \<and> k \<in> re_event_id ` set v"
    and "ws_responses st' = ws_responses st @ [(t, r)]"
    and "\<And>rs. r = Inr rs \<Longrightarrow> sublist rs (log_events st')"
  shows "acks_logged st'"
proof -
  have grow: "sublist v (log_events st) \<Longrightarrow> sublist v (log_events st')" for v
    using sublist_prefix [OF _ assms(2)] .
  have "sublist v (log_events st') \<and> k \<in> re_event_id ` set v"
    if "(k, v) \<in> set (entries (di_cache (ws_dedup st')))" for k v
  proof -
    from that assms(3) consider "(k, v) \<in> set (entries (di_cache (ws_dedup st)))" | "(k, v) \<in> X" by blast
    then show ?thesis using assms(1,4) grow by cases (auto simp: acks_logged_def)
  qed
  moreover have "sublist rs (log_events st')" if "(t', Inr rs) \<in> set (ws_responses st')" for t' rs
    using that assms(5,6) grow [OF acks_answer [OF assms(1)]] by auto
  ultimately show ?thesis by (auto simp: acks_logged_def)
qed

lemma acks_request:
  assumes L: "we_lru W = L" and st: "acks_logged st"
  shows "acks_logged (process_request W ts (req, io) st)"
proof (cases rule: process_request_cases [of req W ts io st])
  case (invalid m)
  then show ?thesis by (intro acks_extend [OF st, where X = "{}"])
    (auto simp: send_response_def log_events_def)
next
  case (duplicate cached dedup)
  note c = check_entries(1) [OF duplicate(2) [unfolded L]]
  from acks_hit [OF st duplicate(2) [unfolded L]] c duplicate(3) show ?thesis
    by (intro acks_extend [OF st, where X = "{}"]) (auto simp: send_response_def log_events_def)
next
  case (refused dedup s e)
  note c = check_entries(1) [OF refused(2) [unfolded L]]
  have "el_events (st_log s) = log_events st"
    using store_append_Inl_log [OF refused(3)] by (simp add: log_events_def)
  with c refused(4) show ?thesis by (intro acks_extend [OF st, where X = "{}"])
    (auto simp: send_response_def log_events_def)
next
  case (appended dedup s recorded)
  note c = check_entries(1) [OF appended(2) [unfolded L]]
  have log: "el_events (st_log s) = log_events st @ recorded"
    using appended(3) by (auto simp: store_append_Inr_iff update_index_def log_events_def)
  moreover have "set (entries (di_cache (dedup_record L dedup recorded)))
      \<subseteq> set (entries (di_cache (ws_dedup st))) \<union> (\<lambda>e. (re_event_id e, recorded)) ` set recorded"
    using puts_entries [of re_event_id "\<lambda>_. recorded" recorded "di_cache dedup"] c
    by (auto simp: dedup_record_def)
  ultimately show ?thesis
    using appended(4) L
    by (intro acks_extend [OF st, where X = "(\<lambda>e. (re_event_id e, recorded)) ` set recorded"])
      (auto simp: send_response_def log_events_def)
qed

lemma acks_run: "we_lru W = L \<Longrightarrow> acks_logged st \<Longrightarrow> acks_logged (run_writer W rounds st)"
  by (rule run_writer_induct) (auto intro: acks_request)

end

text \<open>
  No acknowledgement without a logged event. Whatever requests a spawned writer served, also
  retries answered from the deduplication index, every successful answer is a block
  of the log.
\<close>

lemma acknowledged_events_logged:
  assumes "lru_cache (we_lru W) entries cap"
    and "(t, Inr rs) \<in> set (ws_responses (run_writer W rounds (fst (spawn_writer W s b n m))))"
  shows "sublist rs (log_events (run_writer W rounds (fst (spawn_writer W s b n m))))"
  using lru_cache.acks_answer [OF assms(1) lru_cache.acks_run [OF assms(1) refl
      lru_cache.acks_spawn [OF assms(1) refl]] assms(2)] .

subsection \<open>Retries through the writer\<close>

definition request_ids :: "append_request \<Rightarrow> uuid set" where
  "request_ids req = pe_event_id ` set (ar_events req)"

lemma finite_request_ids [simp]: "finite (request_ids req)"
  by (simp add: request_ids_def)

lemma touched_check: "touched (CheckCall (ar_events req)) \<subseteq> request_ids req"
  by (auto simp: request_ids_def split: list.split)

lemma append_ids:
  "store_append C io s sid ev ts ps = (s', Inr rs) \<Longrightarrow> map re_event_id rs = map pe_event_id ps"
  by (auto simp: store_append_Inr_iff appended_def nth_number_events mk_recorded_def
      intro!: nth_equalityI)

text \<open>The calls on the deduplication index that serving requests amounts to.\<close>

definition calls_for :: "append_request set \<Rightarrow> dedup_call list \<Rightarrow> bool" where
  "calls_for reqs calls \<longleftrightarrow> (\<forall>call \<in> set calls. \<exists>req \<in> reqs.
     touched call \<subseteq> request_ids req \<and> stored_ids call \<subseteq> request_ids req)"

lemma calls_for_simps [simp]:
  "calls_for reqs []" "calls_for reqs (xs @ ys) \<longleftrightarrow> calls_for reqs xs \<and> calls_for reqs ys"
  by (auto simp: calls_for_def)

lemma calls_for_mono: "calls_for A calls \<Longrightarrow> A \<subseteq> B \<Longrightarrow> calls_for B calls"
  by (fastforce simp: calls_for_def)

lemma request_calls:
  "\<exists>calls. ws_dedup (process_request W ts (req, io) st) = fold (dedup_step (we_lru W)) calls (ws_dedup st) \<and>
     calls_for {req} calls"
proof (cases rule: process_request_cases [of req W ts io st])
  case (invalid m)
  then show ?thesis by (intro exI [of _ "[]"]) (simp add: send_response_def)
next
  case (duplicate cached dedup)
  then show ?thesis using touched_check [of req]
    by (intro exI [of _ "[CheckCall (ar_events req)]"]) (simp add: send_response_def calls_for_def)
next
  case (refused dedup s e)
  then show ?thesis using touched_check [of req]
    by (intro exI [of _ "[CheckCall (ar_events req)]"]) (simp add: send_response_def calls_for_def)
next
  case (appended dedup s recorded)
  have "re_event_id ` set recorded = request_ids req"
    using append_ids [OF appended(3)] by (metis image_set request_ids_def)
  with appended show ?thesis using touched_check [of req]
    by (intro exI [of _ "[CheckCall (ar_events req), RecordCall recorded]"])
      (simp add: send_response_def calls_for_def)
qed

lemma batch_calls:
  "\<exists>calls. ws_dedup (fold (process_request W ts) batch st) = fold (dedup_step (we_lru W)) calls (ws_dedup st) \<and>
     calls_for (fst ` set batch) calls"
proof (induction batch arbitrary: st)
  case (Cons q batch)
  obtain req io where q: "q = (req, io)" by fastforce
  obtain cs where cs: "ws_dedup (process_request W ts (req, io) st)
      = fold (dedup_step (we_lru W)) cs (ws_dedup st)" "calls_for {req} cs"
    using request_calls by blast
  from Cons.IH [of "process_request W ts (req, io) st"] obtain ds where
    "ws_dedup (fold (process_request W ts) (q # batch) st) = fold (dedup_step (we_lru W)) (cs @ ds) (ws_dedup st)"
    "calls_for (fst ` set batch) ds"
    using cs(1) by (auto simp: q)
  with cs(2) show ?case by (intro exI [of _ "cs @ ds"]) (auto simp: q elim!: calls_for_mono)
qed (auto intro: exI [of _ "[]"])

lemma run_calls:
  "\<exists>calls. ws_dedup (run_writer W rounds st) = fold (dedup_step (we_lru W)) calls (ws_dedup st) \<and>
     calls_for (set (round_requests rounds)) calls"
proof (induction rounds arbitrary: st)
  case (Cons r rounds)
  obtain millis batch where r: "r = (millis, batch)" by fastforce
  let ?st = "fold (process_request W (of_nat millis)) batch st"
  obtain cs where cs: "ws_dedup ?st = fold (dedup_step (we_lru W)) cs (ws_dedup st)"
    "calls_for (fst ` set batch) cs"
    using batch_calls by blast
  from Cons.IH [of ?st] obtain ds where
    "ws_dedup (run_writer W (r # rounds) st) = fold (dedup_step (we_lru W)) (cs @ ds) (ws_dedup st)"
    "calls_for (set (round_requests rounds)) ds"
    using cs(1) by (auto simp: run_writer_def r)
  with cs(2) show ?case
    by (intro exI [of _ "cs @ ds"]) (auto simp: r round_requests_def elim!: calls_for_mono)
qed (auto simp: run_writer_def intro: exI [of _ "[]"])

text \<open>
  C14: retries are idempotent while the server runs and the deduplication index remembers. A request whose
  batch was appended may be sent again to the same process: as long as no other request in between used the
  id of its first event, and the ids of all these requests fit into the deduplication index, the retry is
  answered with the originally recorded events and changes neither the store, nor the broker, nor the
  metrics. (A restarted server has seeded its index event by event and answers a retried batch with its
  first event only.)
\<close>

theorem retry_is_idempotent:
  assumes "lru_cache (we_lru W) entries cap"
    and "st = run_writer W rounds (fst (spawn_writer W s b n m))"
    and "fst (dedup_check (we_lru W) (ws_dedup st) (ar_events req)) = None"
    and "distinct (map pe_event_id (ar_events req))"
    and "store_append (we_crc W) (wi_append io) (ws_store st) (ar_stream_id req)
           (ar_expected_version req) ts (ar_events req) = (s', Inr rs)"
    and "\<forall>q \<in> set (round_requests between). pe_event_id p \<notin> request_ids q"
    and "card (request_ids req \<union> (\<Union>q \<in> set (round_requests between). request_ids q)) \<le> n"
    and "p \<in> set (ar_events req)"
    and "ar_events retry = p # rest" and "distinct (map pe_event_id (ar_events retry))"
    and "st2 = run_writer W between (process_request W ts (req, io) st)"
  shows "\<exists>d. process_request W ts' (retry, io') st2 =
    st2\<lparr>ws_dedup := d, ws_responses := ws_responses st2 @ [(ar_response_tx retry, Inr rs)]\<rparr>"
proof -
  let ?L = "we_lru W"
  define d where "d = snd (dedup_check ?L (ws_dedup st) (ar_events req))"
  obtain before where "ws_dedup st = fold (dedup_step ?L) before
      (seed_from_log ?L (dedup_new ?L n) (el_events (st_log s)))"
    using run_calls [of W rounds "fst (spawn_writer W s b n m)"] assms(2) by (fastforce simp: spawn_writer_def Let_def)
  then have d: "d = fold (dedup_step ?L) (before @ [CheckCall (ar_events req)])
      (seed_from_log ?L (dedup_new ?L n) (el_events (st_log s)))"
    by (simp add: d_def)
  have "dedup_check ?L (ws_dedup st) (ar_events req) = (None, d)"
    using assms(3) by (simp add: d_def prod_eq_iff)
  from process_fresh [OF assms(4) this assms(5)]
  have "ws_dedup (process_request W ts (req, io) st) = dedup_record ?L d rs"
    by (simp add: send_response_def)
  then obtain calls where calls: "ws_dedup st2 = fold (dedup_step ?L) calls (dedup_record ?L d rs)"
    "calls_for (set (round_requests between)) calls"
    using run_calls assms(11) by metis
  have ids: "map re_event_id rs = map pe_event_id (ar_events req)" using append_ids [OF assms(5)] .
  then have ids': "re_event_id ` set rs = request_ids req" by (metis image_set request_ids_def)
  obtain e where e: "e \<in> set rs" "pe_event_id p = re_event_id e"
    using assms(8) ids' by (metis image_iff request_ids_def)
  have "card (re_event_id ` set rs \<union> (\<Union>call \<in> set calls. touched call)) \<le> n"
  proof (rule order_trans [OF card_mono assms(7)])
    show "re_event_id ` set rs \<union> (\<Union>call \<in> set calls. touched call)
        \<subseteq> request_ids req \<union> (\<Union>q \<in> set (round_requests between). request_ids q)"
      using calls(2) ids' by (fastforce simp: calls_for_def)
  qed simp
  moreover have "\<forall>call \<in> set calls. re_event_id e \<notin> stored_ids call"
    using calls(2) assms(6) e(2) by (fastforce simp: calls_for_def)
  ultimately have "fst (dedup_check ?L (ws_dedup st2) (ar_events retry)) = Some rs"
    using lru_cache.retry_hit [OF assms(1) d e(1) _ _ _ e(2), of calls rest] assms(4,9) ids calls(1)
    by simp
  then obtain d' where "dedup_check ?L (ws_dedup st2) (ar_events retry) = (Some rs, d')"
    by (metis prod.collapse)
  from process_duplicate [OF assms(10) this] show ?thesis
    by (intro exI [of _ d']) (simp add: send_response_def)
qed

subsection \<open>A concrete writer\<close>

definition demo_env :: "(lru_list, bc_list, nat) writer_env" where
  "demo_env = \<lparr>we_crc = demo_crc, we_lru = lru_list_ops, we_bc = bc_list_ops, we_uuid_str = uuid_hyphenated\<rparr>"

definition demo_metrics :: writer_metrics where
  "demo_metrics = \<lparr>wm_append_durations = 0, wm_appends_total = 0, wm_events_total = 0,
     wm_streams_total = 0, wm_log_bytes = 0, wm_global_position = 0\<rparr>"

definition demo_writer :: "(lru_list, bc_list) writer_state" where
  "demo_writer = fst (spawn_writer demo_env demo_store (broker_new bc_list_ops 16) 8 demo_metrics)"

definition demo_request :: append_request where
  "demo_request = \<lparr>ar_stream_id = 1, ar_expected_version = Any,
     ar_events = [demo_proposed 4, demo_proposed 5], ar_response_tx = 7\<rparr>"

lemma demo_env_simps [simp]:
  "we_crc demo_env = demo_crc" "we_lru demo_env = lru_list_ops" "we_bc demo_env = bc_list_ops"
  by (simp_all add: demo_env_def)

lemma demo_request_simps [simp]:
  "ar_events demo_request = [demo_proposed 4, demo_proposed 5]" "ar_response_tx demo_request = 7"
  by (simp_all add: demo_request_def)

lemma demo_request_distinct: "distinct (map pe_event_id (ar_events demo_request))"
  by (simp add: demo_proposed_id)

lemma demo_check: "fst (dedup_check lru_list_ops (ws_dedup demo_writer) (ar_events demo_request)) = None"
  by (simp add: dedup_check_Cons demo_writer_def spawn_writer_def seed_from_log_def dedup_new_def
      demo_store_def empty_log_def lru_list_ops_def)

lemma demo_store_append:
  "\<exists>s. store_append demo_crc (wi_append writer_io_ok) (ws_store demo_writer) (ar_stream_id demo_request)
     (ar_expected_version demo_request) 9 (ar_events demo_request)
   = (s, Inr (appended demo_store 1 9 [demo_proposed 4, demo_proposed 5]))"
  using demo_append [of demo_crc]
  by (simp add: demo_writer_def spawn_writer_def demo_request_def writer_io_ok_def Let_def)

lemma demo_process:
  "ws_responses (process_request demo_env 9 (demo_request, writer_io_ok) demo_writer)
     = [(7, Inr (appended demo_store 1 9 [demo_proposed 4, demo_proposed 5]))]"
proof -
  obtain s where s: "store_append (we_crc demo_env) (wi_append writer_io_ok) (ws_store demo_writer)
      (ar_stream_id demo_request) (ar_expected_version demo_request) 9 (ar_events demo_request)
      = (s, Inr (appended demo_store 1 9 [demo_proposed 4, demo_proposed 5]))"
    using demo_store_append by auto
  obtain d where "dedup_check (we_lru demo_env) (ws_dedup demo_writer) (ar_events demo_request) = (None, d)"
    using demo_check by (metis demo_env_simps(2) prod.collapse)
  from process_fresh [OF demo_request_distinct this s] show ?thesis
    by (simp add: send_response_def demo_writer_def spawn_writer_def Let_def)
qed

theorem writer_publishes_what_it_appends_witness:
  "\<exists>es. log_events (run_writer demo_env [(9, [(demo_request, writer_io_ok), (demo_request, writer_io_ok)])]
       demo_writer) = log_events demo_writer @ es \<and>
     drop 0 (bl_sent (br_tx (ws_broker (run_writer demo_env
       [(9, [(demo_request, writer_io_ok), (demo_request, writer_io_ok)])] demo_writer)))) = es"
proof -
  have "(0 :: nat) \<le> length (bl_sent (br_tx (ws_broker demo_writer)))" by simp
  moreover have "bl_sent (br_tx (ws_broker demo_writer)) = []"
    by (simp add: demo_writer_def spawn_writer_def broker_new_def bc_list_ops_def Let_def)
  ultimately show ?thesis
    using writer_publishes_what_it_appends [of demo_env "\<lambda>ch rx. drop rx (bl_sent ch)"
        "\<lambda>ch rx. rx \<le> length (bl_sent ch)" bl_cap demo_writer 0] bl.broadcast_channel_axioms
    by (simp add: demo_env_def)
qed

theorem retry_is_idempotent_witness:
  "\<exists>st2 d. st2 = process_request demo_env 9 (demo_request, writer_io_ok) demo_writer \<and>
     process_request demo_env 10 (demo_request, writer_io_ok) st2 = st2\<lparr>ws_dedup := d,
       ws_responses := ws_responses st2 @ [(7, Inr (appended demo_store 1 9 [demo_proposed 4, demo_proposed 5]))]\<rparr>"
proof -
  define st2 where "st2 = run_writer demo_env [] (process_request demo_env 9 (demo_request, writer_io_ok) demo_writer)"
  obtain s where s: "store_append (we_crc demo_env) (wi_append writer_io_ok) (ws_store demo_writer)
      (ar_stream_id demo_request) (ar_expected_version demo_request) 9 (ar_events demo_request)
      = (s, Inr (appended demo_store 1 9 [demo_proposed 4, demo_proposed 5]))"
    using demo_store_append by auto
  have start: "demo_writer = run_writer demo_env []
      (fst (spawn_writer demo_env demo_store (broker_new bc_list_ops 16) 8 demo_metrics))"
    by (simp add: run_writer_def demo_writer_def)
  have "\<exists>d. process_request demo_env 10 (demo_request, writer_io_ok) st2 = st2\<lparr>ws_dedup := d,
       ws_responses := ws_responses st2 @ [(ar_response_tx demo_request,
         Inr (appended demo_store 1 9 [demo_proposed 4, demo_proposed 5]))]\<rparr>"
    by (rule retry_is_idempotent [where between = "[]" and p = "demo_proposed 4"
          and rest = "[demo_proposed 5]" and entries = ll_entries and cap = ll_cap,
        OF _ start _ demo_request_distinct s])
      (use ll.lru_cache_axioms demo_check demo_request_distinct in
        \<open>simp_all add: st2_def round_requests_def request_ids_def demo_proposed_id card_insert_if\<close>)
  then show ?thesis by (simp add: st2_def run_writer_def)
qed

end
