(* ===== verification/Writer_Channel.thy ===== *)
theory Writer_Channel
  imports Writer
begin

text \<open>
  The writer task behind its bounded channel (\<open>run_writer\<close> and \<open>spawn_writer\<close> of \<open>src/writer.rs\<close>): clients
  hold clones of the sending half; the task waits in \<open>recv\<close>, drains with \<open>try_recv\<close>, reads the clock, serves
  the batch and starts over, and leaves its loop when the channel is empty and every sender is gone.
  Sends interleave freely with all of this. The rounds of the sequential model are what this system
  produces.
\<close>

datatype writer_phase = Receiving | Draining | Serving | LoopExited

record ('c, 'ch) writer_system =
  wy_queue :: "append_request list"
  wy_handles :: nat
  wy_phase :: writer_phase
  wy_batch :: "append_request list"
  wy_millis :: nat
  wy_state :: "('c, 'ch) writer_state"

definition writer_system_start :: "('c, 'ch) writer_state \<Rightarrow> ('c, 'ch) writer_system" where
  "writer_system_start st =
     \<lparr>wy_queue = [], wy_handles = 1, wy_phase = Receiving, wy_batch = [], wy_millis = 0, wy_state = st\<rparr>"

text \<open>What the task does; the label is the request it serves, with the outcomes of its I/O.\<close>

inductive writer_task ::
  "('c, 'ch, 'rx) writer_env \<Rightarrow> ('c, 'ch) writer_system \<Rightarrow> (append_request \<times> writer_io) list
     \<Rightarrow> ('c, 'ch) writer_system \<Rightarrow> bool" for W where
  recv: "wy_phase y = Receiving \<Longrightarrow> wy_queue y = req # rest \<Longrightarrow>
     writer_task W y [] (y\<lparr>wy_queue := rest, wy_batch := [req], wy_phase := Draining\<rparr>)"
| try_recv: "wy_phase y = Draining \<Longrightarrow> wy_queue y = req # rest \<Longrightarrow>
     writer_task W y [] (y\<lparr>wy_queue := rest, wy_batch := wy_batch y @ [req]\<rparr>)"
| drained: "wy_phase y = Draining \<Longrightarrow> wy_queue y = [] \<Longrightarrow>
     writer_task W y [] (y\<lparr>wy_millis := millis, wy_phase := Serving\<rparr>)"
| serve: "wy_phase y = Serving \<Longrightarrow> wy_batch y = req # rest \<Longrightarrow>
     writer_task W y [(req, io)] (y\<lparr>wy_batch := rest,
       wy_state := process_request W (of_nat (wy_millis y)) (req, io) (wy_state y)\<rparr>)"
| again: "wy_phase y = Serving \<Longrightarrow> wy_batch y = [] \<Longrightarrow> writer_task W y [] (y\<lparr>wy_phase := Receiving\<rparr>)"
| leave: "wy_phase y = Receiving \<Longrightarrow> wy_queue y = [] \<Longrightarrow> wy_handles y = 0 \<Longrightarrow>
     writer_task W y [] (y\<lparr>wy_phase := LoopExited\<rparr>)"

definition task_step ::
  "('c, 'ch, 'rx) writer_env \<Rightarrow> ('c, 'ch) writer_system \<Rightarrow> ('c, 'ch) writer_system \<Rightarrow> bool" where
  "task_step W y y' \<longleftrightarrow> (\<exists>served. writer_task W y served y')"

text \<open>What clients do beside it; the label is the request the channel accepted.\<close>

inductive client_step ::
  "nat \<Rightarrow> ('c, 'ch) writer_system \<Rightarrow> append_request list \<Rightarrow> ('c, 'ch) writer_system \<Rightarrow> bool" for capacity where
  send: "0 < wy_handles y \<Longrightarrow> wy_phase y \<noteq> LoopExited \<Longrightarrow> length (wy_queue y) < capacity \<Longrightarrow>
     client_step capacity y [req] (y\<lparr>wy_queue := wy_queue y @ [req]\<rparr>)"
| clone: "0 < wy_handles y \<Longrightarrow> client_step capacity y [] (y\<lparr>wy_handles := Suc (wy_handles y)\<rparr>)"
| drop_handle: "0 < wy_handles y \<Longrightarrow> client_step capacity y [] (y\<lparr>wy_handles := wy_handles y - 1\<rparr>)"

inductive writer_run ::
  "('c, 'ch, 'rx) writer_env \<Rightarrow> nat \<Rightarrow> ('c, 'ch) writer_system \<Rightarrow> append_request list
     \<Rightarrow> ('c, 'ch) writer_system \<Rightarrow> bool" for W capacity y0 where
  start: "writer_run W capacity y0 [] y0"
| task: "writer_run W capacity y0 accepted y \<Longrightarrow> task_step W y y' \<Longrightarrow> writer_run W capacity y0 accepted y'"
| client: "writer_run W capacity y0 accepted y \<Longrightarrow> client_step capacity y reqs y' \<Longrightarrow>
     writer_run W capacity y0 (accepted @ reqs) y'"

inductive_cases writer_taskE: "writer_task W y served y'"
inductive_cases client_stepE: "client_step capacity y reqs y'"

subsection \<open>The rounds behind a run\<close>

lemma run_writer_snoc:
  "run_writer W (rounds @ [(millis, batch)]) st = fold (process_request W (of_nat millis)) batch (run_writer W rounds st)"
  by (simp add: run_writer_def Let_def)

lemma round_requests_append [simp]:
  "round_requests (xs @ ys) = round_requests xs @ round_requests ys"
  by (simp add: round_requests_def)

lemma round_requests_single [simp]: "round_requests [(m, batch)] = map fst batch"
  by (simp add: round_requests_def)

definition channel_inv ::
  "('c, 'ch, 'rx) writer_env \<Rightarrow> nat \<Rightarrow> ('c, 'ch) writer_state \<Rightarrow> append_request list
     \<Rightarrow> ('c, 'ch) writer_system \<Rightarrow> bool" where
  "channel_inv W capacity st accepted y \<longleftrightarrow>
     (\<exists>rounds. wy_state y = run_writer W rounds st \<and>
        round_requests rounds @ wy_batch y @ wy_queue y = accepted) \<and>
     length (wy_queue y) \<le> capacity \<and>
     (wy_phase y = Receiving \<longrightarrow> wy_batch y = []) \<and>
     (wy_phase y = LoopExited \<longrightarrow> wy_batch y = [] \<and> wy_queue y = [] \<and> wy_handles y = 0)"

lemma channel_inv_task:
  assumes "channel_inv W capacity st accepted y" and "writer_task W y served y'"
  shows "channel_inv W capacity st accepted y'"
  using assms(2)
proof (cases rule: writer_task.cases)
  case (serve req rest io)
  from assms(1) obtain rounds where r: "wy_state y = run_writer W rounds st"
    "round_requests rounds @ wy_batch y @ wy_queue y = accepted"
    by (auto simp: channel_inv_def)
  let ?rounds = "rounds @ [(wy_millis y, [(req, io)])]"
  have "wy_state y' = run_writer W ?rounds st" "round_requests ?rounds @ wy_batch y' @ wy_queue y' = accepted"
    using serve r by (simp_all add: run_writer_snoc)
  with assms(1) serve show ?thesis unfolding channel_inv_def by auto
qed (use assms(1) in \<open>auto simp: channel_inv_def\<close>)

lemma channel_inv_client:
  assumes "channel_inv W capacity st accepted y" and "client_step capacity y reqs y'"
  shows "channel_inv W capacity st (accepted @ reqs) y'"
  using assms(2,1) by (cases rule: client_step.cases) (auto simp: channel_inv_def)

lemma channel_inv_run:
  "writer_run W capacity (writer_system_start st) accepted y \<Longrightarrow> channel_inv W capacity st accepted y"
proof (induction rule: writer_run.induct)
  case start
  have "wy_state (writer_system_start st) = run_writer W [] st"
    by (simp add: writer_system_start_def run_writer_def)
  moreover have "round_requests [] = []" by (simp add: round_requests_def)
  ultimately show ?case
    unfolding channel_inv_def by (intro conjI exI [of _ "[]"]) (simp_all add: writer_system_start_def)
qed (auto simp: task_step_def intro: channel_inv_task channel_inv_client)

lemma channel_inv_answers:
  assumes "channel_inv W capacity st accepted y"
  shows "map fst (ws_responses (wy_state y)) @ map ar_response_tx (wy_batch y @ wy_queue y)
           = map fst (ws_responses st) @ map ar_response_tx accepted"
proof -
  from assms obtain rounds where "wy_state y = run_writer W rounds st"
    and a: "round_requests rounds @ wy_batch y @ wy_queue y = accepted"
    by (auto simp: channel_inv_def)
  then show ?thesis
    unfolding a [symmetric] by (simp add: writer_answers_in_order)
qed

subsection \<open>Leaving the loop\<close>

definition phase_left :: "writer_phase \<Rightarrow> nat" where
  "phase_left ph = (case ph of Receiving \<Rightarrow> 1 | Draining \<Rightarrow> 3 | Serving \<Rightarrow> 2 | LoopExited \<Rightarrow> 0)"

definition work_left :: "('c, 'ch) writer_system \<Rightarrow> nat" where
  "work_left y = 4 * length (wy_queue y) + length (wy_batch y) + phase_left (wy_phase y)"

lemma task_progress: "wy_phase y = Receiving \<longrightarrow> wy_batch y = [] \<Longrightarrow> task_step W y y' \<Longrightarrow> work_left y' < work_left y"
  by (auto simp: task_step_def work_left_def phase_left_def elim!: writer_taskE)

lemma task_handles: "task_step W y y' \<Longrightarrow> wy_handles y' = wy_handles y"
  by (auto simp: task_step_def elim!: writer_taskE)

lemma channel_inv_step:
  "task_step W y y' \<Longrightarrow> channel_inv W capacity st accepted y \<Longrightarrow> channel_inv W capacity st accepted y'"
  by (auto simp: task_step_def intro: channel_inv_task)

lemma task_not_stuck:
  assumes "wy_phase y \<noteq> LoopExited" and "wy_handles y = 0"
  shows "\<exists>y'. task_step W y y'"
  using assms
  by (cases "wy_phase y"; cases "wy_queue y"; cases "wy_batch y") (auto simp: task_step_def intro: writer_task.intros)

interpretation writer_loop: ending_system "task_step W"
  "\<lambda>y. channel_inv W capacity st accepted y \<and> wy_handles y = 0" work_left "\<lambda>y. wy_phase y = LoopExited"
  for W capacity st accepted
proof (unfold_locales, goal_cases)
  case (1 y y')
  then have "wy_phase y = Receiving \<longrightarrow> wy_batch y = []" by (simp add: channel_inv_def)
  with 1 task_progress [of y W y'] show ?case by (auto dest: task_handles channel_inv_step)
qed (auto intro: task_not_stuck)

text \<open>
  Once the last handle is dropped the writer task ends: it makes at most four
  steps for each request that waits in the channel, one for each request of the batch at hand and three
  more, it never gets stuck, and when it has left its loop every request the channel ever accepted, from
  whichever client and however sends were interleaved with the work, was answered exactly once, in the
  order of acceptance. Its state is that of a sequential run over some rounds.
\<close>

lemma shutdown_answers_everything:
  assumes "writer_run W capacity (writer_system_start st) accepted y" and "wy_handles y = 0"
  shows "(\<forall>k y'. (task_step W ^^ k) y y' \<longrightarrow>
            k \<le> 4 * length (wy_queue y) + length (wy_batch y) + 3 \<and>
            (wy_phase y' \<noteq> LoopExited \<longrightarrow> (\<exists>y''. task_step W y' y'')) \<and>
            (wy_phase y' = LoopExited \<longrightarrow> (\<exists>rounds. wy_state y' = run_writer W rounds st) \<and>
               map fst (ws_responses (wy_state y')) = map fst (ws_responses st) @ map ar_response_tx accepted)) \<and>
         (\<exists>y'. (task_step W)\<^sup>*\<^sup>* y y' \<and> wy_phase y' = LoopExited)"
proof (intro conjI allI impI)
  have start: "channel_inv W capacity st accepted y \<and> wy_handles y = 0"
    using channel_inv_run [OF assms(1)] assms(2) ..
  show "\<exists>y'. (task_step W)\<^sup>*\<^sup>* y y' \<and> wy_phase y' = LoopExited" using writer_loop.ends [OF start] .
  fix k y'
  assume k: "(task_step W ^^ k) y y'"
  note bound = writer_loop.steps_bound [OF start k]
  then have inv: "channel_inv W capacity st accepted y'" by simp
  show "k \<le> 4 * length (wy_queue y) + length (wy_batch y) + 3"
    using bound by (simp add: work_left_def phase_left_def split: writer_phase.splits)
  show "\<exists>y''. task_step W y' y''" if "wy_phase y' \<noteq> LoopExited" using writer_loop.progress bound that by blast
  show "\<exists>rounds. wy_state y' = run_writer W rounds st" using inv by (auto simp: channel_inv_def)
  show "map fst (ws_responses (wy_state y')) = map fst (ws_responses st) @ map ar_response_tx accepted"
    if "wy_phase y' = LoopExited"
    using channel_inv_answers [OF inv] inv that by (simp add: channel_inv_def)
qed

end
