(* ===== verification/Linearizability.thy ===== *)
theory Linearizability
  imports Atomic_Store Writer_Channel
begin

text \<open>
  A running server as its clients see it. Calls of \<open>WriterHandle::append\<close> send a request into the channel
  and wait for the answer; calls of the \<open>ReadIndex\<close> methods look at the shared log under its lock; the writer
  task drains and serves beside them; the process may die at any point, also in the middle of a batch
  write, and be started again on the file it left. All of this refines the atomic store: the server is
  linearizable, and durably so.
\<close>

subsection \<open>The system\<close>

text \<open>The methods of \<open>ReadIndex\<close>; \<open>None\<close> is a panic, or a call that is not a read.\<close>

definition read_call :: "(uuid \<Rightarrow> string) \<Rightarrow> read_index \<Rightarrow> operation \<Rightarrow> answer option" where
  "read_call uuid_str r op =
     (case op of
        OpAppend sid ev ps \<Rightarrow> None
      | OpReadAll a n \<Rightarrow> map_option AnsAll (ri_read_all r a n)
      | OpReadStream sid a n \<Rightarrow> map_option AnsStream (ri_read_stream r sid a n)
      | OpStreamVersion sid \<Rightarrow> Some (AnsVersion (ri_stream_version r sid))
      | OpHead \<Rightarrow> Some (AnsHead (ri_global_position r))
      | OpListStreams \<Rightarrow> Some (AnsStreams (ri_list_streams uuid_str r)))"

text \<open>
  A node: the writer with its channel, the calls that were invoked and have not returned, the appends
  whose request is in the channel or was served, and the reads that have looked at the log.
\<close>

record ('c, 'ch) node =
  nd_writer :: "('c, 'ch) writer_system"
  nd_used :: "nat set"
  nd_calls :: "nat \<rightharpoonup> operation"
  nd_sent :: "nat set"
  nd_reads :: "nat \<rightharpoonup> answer"

abbreviation nd_state :: "('c, 'ch) node \<Rightarrow> ('c, 'ch) writer_state" where
  "nd_state n \<equiv> wy_state (nd_writer n)"

abbreviation nd_log :: "('c, 'ch) node \<Rightarrow> recorded_event list" where
  "nd_log n \<equiv> log_events (nd_state n)"

definition node_answer :: "('c, 'ch) node \<Rightarrow> nat \<Rightarrow> answer option" where
  "node_answer n c =
     (case nd_reads n c of
        Some a \<Rightarrow> Some a
      | None \<Rightarrow> map_option (\<lambda>r. AnsAppend (writer_handle_append True (Some r))) (map_of (ws_responses (nd_state n)) c))"

definition node_start :: "nat set \<Rightarrow> ('c, 'ch) writer_state \<Rightarrow> ('c, 'ch) node" where
  "node_start used st = \<lparr>nd_writer = writer_system_start st, nd_used = used, nd_calls = Map.empty,
     nd_sent = {}, nd_reads = Map.empty\<rparr>"

text \<open>
  What the service sends: a non-empty batch of events with UTF-8 types, within the width of the
  batch header. There is room while positions fit into 64 bits.
\<close>

definition sent_by_service :: "proposed_event list \<Rightarrow> bool" where
  "sent_by_service ps \<longleftrightarrow> ps \<noteq> [] \<and> utf8_events ps \<and> length ps < 2 ^ 32"

fun acceptable :: "operation \<Rightarrow> bool" where
  "acceptable (OpAppend sid ev ps) = sent_by_service ps"
| "acceptable _ = True"

definition room :: "('c, 'ch) node \<Rightarrow> append_request \<Rightarrow> bool" where
  "room n req \<longleftrightarrow> length (nd_log n) + length (ar_events req) < 2 ^ 64"

text \<open>
  The files a crash can leave: the committed file, or, when the writer is inside \<open>Store::append\<close>, the
  committed file with a prefix of the batch that was being written.
\<close>

definition crash_file :: "('c, 'ch, 'rx) writer_env \<Rightarrow> ('c, 'ch) node \<Rightarrow> bytes \<Rightarrow> bool" where
  "crash_file W n f \<longleftrightarrow>
     f = st_file (ws_store (nd_state n)) \<or>
     (\<exists>req rest dedup s rs. wy_phase (nd_writer n) = Serving \<and> wy_batch (nd_writer n) = req # rest \<and>
        distinct (map pe_event_id (ar_events req)) \<and> room n req \<and>
        dedup_check (we_lru W) (ws_dedup (nd_state n)) (ar_events req) = (None, dedup) \<and>
        store_append (we_crc W) append_io_ok (ws_store (nd_state n)) (ar_stream_id req)
          (ar_expected_version req) (of_nat (wy_millis (nd_writer n))) (ar_events req) = (s, Inr rs) \<and>
        prefix (st_file (ws_store (nd_state n))) f \<and> prefix f (st_file s))"

inductive node_step ::
  "('c, 'ch, 'rx) writer_env \<Rightarrow> nat \<Rightarrow> ('ch broker \<times> nat \<times> writer_metrics) \<Rightarrow> ('c, 'ch) node
     \<Rightarrow> call_event option \<Rightarrow> ('c, 'ch) node \<Rightarrow> bool" for W capacity startup where
  invoke: "c \<notin> nd_used n \<Longrightarrow> acceptable op \<Longrightarrow>
     node_step W capacity startup n (Some (Invoke c op))
       (n\<lparr>nd_used := insert c (nd_used n), nd_calls := (nd_calls n)(c \<mapsto> op)\<rparr>)"
| send: "nd_calls n c = Some (OpAppend sid ev ps) \<Longrightarrow> c \<notin> nd_sent n \<Longrightarrow>
     client_step capacity (nd_writer n) [\<lparr>ar_stream_id = sid, ar_expected_version = ev, ar_events = ps, ar_response_tx = c\<rparr>] y \<Longrightarrow>
     node_step W capacity startup n None (n\<lparr>nd_writer := y, nd_sent := insert c (nd_sent n)\<rparr>)"
| handles: "client_step capacity (nd_writer n) [] y \<Longrightarrow>
     node_step W capacity startup n None (n\<lparr>nd_writer := y\<rparr>)"
| task: "writer_task W (nd_writer n) served y \<Longrightarrow>
     \<forall>(req, io) \<in> set served. wi_append io = append_io_ok \<and> room n req \<Longrightarrow>
     node_step W capacity startup n None (n\<lparr>nd_writer := y\<rparr>)"
| read: "nd_calls n c = Some op \<Longrightarrow> nd_reads n c = None \<Longrightarrow>
     read_call (we_uuid_str W) (read_index_new (st_log (ws_store (nd_state n)))) op = Some a \<Longrightarrow>
     node_step W capacity startup n None (n\<lparr>nd_reads := (nd_reads n)(c \<mapsto> a)\<rparr>)"
| return: "nd_calls n c \<noteq> None \<Longrightarrow> node_answer n c = Some a \<Longrightarrow>
     node_step W capacity startup n (Some (Return c a)) (n\<lparr>nd_calls := (nd_calls n)(c := None)\<rparr>)"
| crash: "crash_file W n f \<Longrightarrow> store_open (we_crc W) open_io_ok (Some f) = (f', Inr s) \<Longrightarrow>
     startup = (b, dedup_capacity, m) \<Longrightarrow>
     node_step W capacity startup n (Some Crash)
       (node_start (nd_used n) (fst (spawn_writer W s b dedup_capacity m)))"

inductive_cases node_stepE: "node_step W capacity startup n l n'"

subsection \<open>One request\<close>

lemma spec_step_acked_iff:
  "spec_step es (Acked sid ev ts ps rs) es' \<longleftrightarrow>
     spec_accepts es sid ev \<and> (\<forall>p \<in> set ps. event_valid p) \<and> rs = spec_batch es sid ts ps \<and> es' = es @ rs"
  by (auto elim: spec_step.cases intro: spec_step.acked)

lemma append_refusal:
  assumes "log_wf (st_log s)" and "store_append C append_io_ok s sid ev ts ps = (s', Inl e)"
  shows "spec_refuses (el_events (st_log s)) sid ev ps e"
proof (cases "check_expected_version (st_log s) sid ev")
  case (Inl e')
  with assms(2) have "e' = e" by (simp add: store_append_def)
  with check_expected_version_Inl [OF Inl] accepts_iff_matches [OF assms(1)] show ?thesis
    by (auto simp: spec_refuses_def)
next
  case (Inr gv)
  obtain g v where gv: "gv = (g, v)" by fastforce
  have b: "build_records (crc_hash C) sid ts ps g v = Inl e"
    using assms(2) Inr gv by (auto simp: store_append_def append_io_ok_def Let_def split: sum.splits)
  then have "\<exists>p \<in> set ps. \<not> event_valid p" using build_records_Inl_iff by blast
  with build_records_Inl_kind [OF b] show ?thesis by (auto simp: spec_refuses_def)
qed

text \<open>
  Serving a request performs its call: the answer and the new log are ones the specification allows,
  and store, log and deduplication index keep agreeing.
\<close>

lemma request_performs:
  fixes req io ts
  assumes lru: "lru_cache (we_lru W) entries cap" and acks: "lru_cache.acks_logged entries st"
    and sim: "store_sim (we_crc W) (ws_store st) (log_events st)" and io: "wi_append io = append_io_ok"
    and ps: "sendable (ws_store st) (ar_events req)"
  defines "st' \<equiv> process_request W ts (req, io) st"
  shows "\<exists>r. ws_responses st' = ws_responses st @ [(ar_response_tx req, r)] \<and>
    performs uuid_str (log_events st) (OpAppend (ar_stream_id req) (ar_expected_version req) (ar_events req))
      (AnsAppend r) (log_events st') \<and>
    store_sim (we_crc W) (ws_store st') (log_events st')"
proof (cases rule: process_request_cases [of req W ts io st])
  case (invalid m)
  then have "performs uuid_str (log_events st) (OpAppend (ar_stream_id req) (ar_expected_version req) (ar_events req))
      (AnsAppend (Inl (InvalidArgument m))) (log_events st)"
    by (intro performs.refuse) (simp add: spec_refuses_def)
  with invalid sim show ?thesis by (simp add: st'_def send_response_def log_events_def)
next
  case (duplicate cached dedup)
  note hit = lru_cache.acks_hit [OF lru acks duplicate(2)]
  have "performs uuid_str (log_events st) (OpAppend (ar_stream_id req) (ar_expected_version req) (ar_events req))
      (AnsAppend (Inr cached)) (log_events st)"
    using hit duplicate(1) by (intro performs.retry) auto
  with duplicate(3) sim show ?thesis by (simp add: st'_def send_response_def log_events_def)
next
  case (refused dedup s e)
  have wf: "log_wf (st_log (ws_store st))" using sim by (simp add: store_sim_def)
  note a = refused(3) [unfolded io]
  have "performs uuid_str (log_events st) (OpAppend (ar_stream_id req) (ar_expected_version req) (ar_events req))
      (AnsAppend (Inl e)) (log_events st)"
    using append_refusal [OF wf a] by (intro performs.refuse) (simp add: log_events_def)
  moreover have "store_sim (we_crc W) s (log_events st)" using sim_refused [OF sim a] by blast
  ultimately show ?thesis using refused(4) store_append_Inl_log [OF a]
    by (simp add: st'_def send_response_def log_events_def)
next
  case (appended dedup s recorded)
  note a = appended(3) [unfolded io]
  from sim_acked [OF sim ps a] have
    r: "spec_accepts (log_events st) (ar_stream_id req) (ar_expected_version req)"
      "\<forall>p \<in> set (ar_events req). event_valid p"
      "recorded = spec_batch (log_events st) (ar_stream_id req) ts (ar_events req)"
    and s: "store_sim (we_crc W) s (log_events st @ recorded)"
    by (auto simp: spec_step_acked_iff)
  have "performs uuid_str (log_events st) (OpAppend (ar_stream_id req) (ar_expected_version req) (ar_events req))
      (AnsAppend (Inr recorded)) (log_events st @ recorded)"
    unfolding r(3) using appended(1) r(1,2) by (intro performs.append)
  moreover have "log_events st' = log_events st @ recorded"
    using s appended(4) by (simp add: st'_def send_response_def log_events_def store_sim_def)
  ultimately show ?thesis using s appended(4) by (simp add: st'_def send_response_def)
qed

subsection \<open>The refinement\<close>

definition node_abs :: "('c, 'ch) node \<Rightarrow> atomic_store" where
  "node_abs n = \<lparr>at_log = nd_log n, at_used = nd_used n,
     at_calls = (\<lambda>c. if node_answer n c = None then nd_calls n c else None),
     at_done = (\<lambda>c. if nd_calls n c = None then None else node_answer n c)\<rparr>"

fun is_append :: "operation \<Rightarrow> bool" where
  "is_append (OpAppend sid ev ps) = True"
| "is_append _ = False"

definition waiting :: "('c, 'ch) node \<Rightarrow> append_request list" where
  "waiting n = wy_batch (nd_writer n) @ wy_queue (nd_writer n)"

text \<open>
  Every request in the channel or in the batch belongs to one call that is waiting for it; every
  answer belongs to a request that was sent.
\<close>

definition calls_inv :: "('c, 'ch) node \<Rightarrow> bool" where
  "calls_inv n \<longleftrightarrow>
     (\<forall>c op. nd_calls n c = Some op \<longrightarrow> c \<in> nd_used n \<and> acceptable op \<and>
        (is_append op \<longrightarrow> nd_reads n c = None) \<and> (c \<in> nd_sent n \<longrightarrow> is_append op)) \<and>
     (\<forall>c. nd_reads n c \<noteq> None \<longrightarrow> c \<in> nd_used n) \<and>
     fst ` set (ws_responses (nd_state n)) \<subseteq> nd_sent n \<and> nd_sent n \<subseteq> nd_used n"

definition waiting_inv :: "('c, 'ch) node \<Rightarrow> bool" where
  "waiting_inv n \<longleftrightarrow>
     (\<forall>req \<in> set (waiting n). ar_response_tx req \<in> nd_sent n \<and> node_answer n (ar_response_tx req) = None \<and>
        nd_calls n (ar_response_tx req)
          = Some (OpAppend (ar_stream_id req) (ar_expected_version req) (ar_events req))) \<and>
     distinct (map ar_response_tx (waiting n)) \<and>
     (wy_phase (nd_writer n) = Receiving \<longrightarrow> wy_batch (nd_writer n) = [])"

definition node_sim ::
  "('c, 'ch, 'rx) writer_env \<Rightarrow> ('c \<Rightarrow> (uuid \<times> recorded_event list) list) \<Rightarrow> ('c \<Rightarrow> nat)
     \<Rightarrow> ('c, 'ch) node \<Rightarrow> atomic_store \<Rightarrow> bool" where
  "node_sim W entries cap n a \<longleftrightarrow>
     lru_cache (we_lru W) entries cap \<and> lru_cache.acks_logged entries (nd_state n) \<and>
     store_sim (we_crc W) (ws_store (nd_state n)) (nd_log n) \<and>
     calls_inv n \<and> waiting_inv n \<and> a = node_abs n"

text \<open>Steps that touch neither answers nor the log do not show.\<close>

lemma node_answer_cong:
  "nd_reads n' = nd_reads n \<Longrightarrow> ws_responses (nd_state n') = ws_responses (nd_state n) \<Longrightarrow> node_answer n' = node_answer n"
  by (auto simp: node_answer_def fun_eq_iff split: option.split)

lemma node_abs_cong:
  "node_answer n' = node_answer n \<Longrightarrow> nd_calls n' = nd_calls n \<Longrightarrow> nd_used n' = nd_used n \<Longrightarrow> nd_log n' = nd_log n \<Longrightarrow>
   node_abs n' = node_abs n"
  by (simp add: node_abs_def cong: if_cong)

lemma node_abs_sel [simp]:
  "at_log (node_abs n) = nd_log n" "at_used (node_abs n) = nd_used n"
  "at_calls (node_abs n) c = (if node_answer n c = None then nd_calls n c else None)"
  "at_done (node_abs n) c = (if nd_calls n c = None then None else node_answer n c)"
  by (simp_all add: node_abs_def)

lemma calls_inv_call:
  assumes "calls_inv n" and "nd_calls n c = Some op"
  shows "c \<in> nd_used n" "acceptable op" "is_append op \<Longrightarrow> nd_reads n c = None" "c \<in> nd_sent n \<Longrightarrow> is_append op"
  using assms unfolding calls_inv_def by blast+

lemma unanswered:
  "calls_inv n \<Longrightarrow> c \<notin> nd_sent n \<Longrightarrow> nd_reads n c = None \<Longrightarrow> node_answer n c = None"
  by (force simp: calls_inv_def node_answer_def map_of_eq_None_iff)

lemma sim_invoke:
  assumes "node_sim W entries cap n a" and "c \<notin> nd_used n" and "acceptable op"
  defines "n' \<equiv> n\<lparr>nd_used := insert c (nd_used n), nd_calls := (nd_calls n)(c \<mapsto> op)\<rparr>"
  shows "atomic_step uuid_str a (Some (Invoke c op)) (node_abs n')" "node_sim W entries cap n' (node_abs n')"
proof -
  have inv: "calls_inv n" "waiting_inv n" and a: "a = node_abs n" using assms(1) by (simp_all add: node_sim_def)
  have c: "c \<notin> nd_sent n" "nd_reads n c = None" "nd_calls n c = None"
    using inv(1) assms(2) unfolding calls_inv_def by (blast, blast, cases "nd_calls n c", auto)
  have ans: "node_answer n' = node_answer n" unfolding n'_def by (rule node_answer_cong) simp_all
  have none: "node_answer n c = None" using unanswered [OF inv(1) c(1,2)] .
  have eq: "node_abs n' = a\<lparr>at_used := insert c (at_used a), at_calls := (at_calls a)(c \<mapsto> op)\<rparr>"
    using none c(3) unfolding a node_abs_def ans by (auto simp: n'_def fun_eq_iff)
  show "atomic_step uuid_str a (Some (Invoke c op)) (node_abs n')"
    unfolding eq by (rule atomic_step.invoke) (simp add: a assms(2))
  have "calls_inv n'" using inv(1) assms(3) c by (auto simp: n'_def calls_inv_def)
  moreover have "waiting_inv n'"
    using inv(2) c unfolding waiting_inv_def ans by (auto simp: n'_def waiting_def)
  ultimately show "node_sim W entries cap n' (node_abs n')"
    using assms(1) by (simp add: node_sim_def) (simp add: n'_def)
qed

lemma sim_return:
  assumes "node_sim W entries cap n a" and "nd_calls n c \<noteq> None" and "node_answer n c = Some r"
  defines "n' \<equiv> n\<lparr>nd_calls := (nd_calls n)(c := None)\<rparr>"
  shows "atomic_step uuid_str a (Some (Return c r)) (node_abs n')" "node_sim W entries cap n' (node_abs n')"
proof -
  have inv: "calls_inv n" "waiting_inv n" and a: "a = node_abs n" using assms(1) by (simp_all add: node_sim_def)
  have ans: "node_answer n' = node_answer n" unfolding n'_def by (rule node_answer_cong) simp_all
  have "node_abs n' = a\<lparr>at_done := (at_done a)(c := None)\<rparr>"
    using assms(3) unfolding a node_abs_def ans by (auto simp: n'_def fun_eq_iff)
  moreover have "at_done a c = Some r" using assms(2,3) a by auto
  ultimately show "atomic_step uuid_str a (Some (Return c r)) (node_abs n')"
    by (simp add: atomic_step.return)
  have "calls_inv n'" using inv(1) by (auto simp: n'_def calls_inv_def)
  moreover have "waiting_inv n'"
    using inv(2) assms(3) unfolding waiting_inv_def ans by (auto simp: n'_def waiting_def)
  ultimately show "node_sim W entries cap n' (node_abs n')"
    using assms(1) by (simp add: node_sim_def) (simp add: n'_def)
qed

lemma sim_quiet:
  assumes "node_sim W entries cap n a" and "wy_state y = nd_state n"
    and "wy_batch y @ wy_queue y = waiting n" and "wy_phase y = Receiving \<longrightarrow> wy_batch y = []"
  shows "node_sim W entries cap (n\<lparr>nd_writer := y\<rparr>) a"
proof -
  let ?n = "n\<lparr>nd_writer := y\<rparr>"
  have ans: "node_answer ?n = node_answer n" by (rule node_answer_cong) (simp_all add: assms(2))
  have "node_abs ?n = node_abs n" by (rule node_abs_cong [OF ans]) (simp_all add: assms(2))
  moreover have "calls_inv ?n" using assms(1,2) by (simp add: node_sim_def calls_inv_def)
  moreover have "waiting_inv ?n"
    using assms(1,3,4) unfolding node_sim_def waiting_inv_def ans by (simp add: waiting_def)
  ultimately show ?thesis using assms(1,2) by (simp add: node_sim_def)
qed

lemma sim_send:
  assumes sim: "node_sim W entries cap n a" and c: "nd_calls n c = Some (OpAppend sid ev ps)" "c \<notin> nd_sent n"
    and y: "wy_state y = nd_state n" "wy_batch y = wy_batch (nd_writer n)" "wy_phase y = wy_phase (nd_writer n)"
      "wy_queue y = wy_queue (nd_writer n) @ [\<lparr>ar_stream_id = sid, ar_expected_version = ev, ar_events = ps, ar_response_tx = c\<rparr>]"
  defines "n' \<equiv> n\<lparr>nd_writer := y, nd_sent := insert c (nd_sent n)\<rparr>"
  shows "node_sim W entries cap n' a"
proof -
  have inv: "calls_inv n" "waiting_inv n" using sim by (simp_all add: node_sim_def)
  have c': "nd_reads n c = None" "c \<in> nd_used n" using inv(1) c(1) by (auto simp: calls_inv_def)
  have none: "node_answer n c = None" using unanswered [OF inv(1) c(2) c'(1)] .
  have ans: "node_answer n' = node_answer n" unfolding n'_def by (rule node_answer_cong) (simp_all add: y(1))
  have "node_abs n' = node_abs n" unfolding n'_def by (rule node_abs_cong [OF ans [unfolded n'_def]]) (simp_all add: y(1))
  moreover have "calls_inv n'" using inv(1) c c' y(1) by (auto simp: n'_def calls_inv_def)
  moreover have "waiting_inv n'"
    using inv(2) c none y unfolding waiting_inv_def ans by (auto simp: n'_def waiting_def)
  ultimately show ?thesis using sim y(1) by (simp add: node_sim_def) (simp add: n'_def)
qed

text \<open>Serving a request and reading are the moments at which calls are performed.\<close>

lemma sim_perform:
  assumes sim: "node_sim W entries cap n a" and c: "nd_calls n c = Some op" "node_answer n c = None"
    and p: "performs uuid_str (nd_log n) op r (nd_log n')"
    and n': "node_answer n' = (node_answer n)(c \<mapsto> r)" "nd_calls n' = nd_calls n" "nd_used n' = nd_used n"
  shows "atomic_step uuid_str a None (node_abs n')"
proof -
  have a: "a = node_abs n" using sim by (simp add: node_sim_def)
  have "node_abs n' = a\<lparr>at_log := nd_log n', at_calls := (at_calls a)(c := None), at_done := (at_done a)(c \<mapsto> r)\<rparr>"
    unfolding a node_abs_def n' using c by (auto simp: fun_eq_iff)
  moreover have "at_calls a c = Some op" "performs uuid_str (at_log a) op r (nd_log n')" using a c p by simp_all
  ultimately show ?thesis by (simp add: atomic_step.perform)
qed

lemma list_streams_performs:
  assumes "log_wf (ri_log r)" and "uuid_text uuid_str uuid_parse"
  shows "performs uuid_str (el_events (ri_log r)) OpListStreams (AnsStreams (ri_list_streams uuid_str r)) (el_events (ri_log r))"
proof -
  have "sort_key uuid_str (map fst (el_streams (ri_log r)))
      = sort_key uuid_str (remdups (map re_stream_id (el_events (ri_log r))))"
    using assms(1) streams_entries(1) [OF assms(1)]
    by (intro sort_key_image_unique uuid_text.inj_str [OF assms(2)]) (simp_all add: log_wf_def index_ok_def)
  then show ?thesis unfolding list_streams_as_map [OF assms(1)] by (simp add: performs.list_streams)
qed

lemma read_call_performs:
  assumes wf: "log_wf (ri_log r)" and "uuid_text uuid_str uuid_parse" and "read_call uuid_str r op = Some a"
  shows "performs uuid_str (el_events (ri_log r)) op a (el_events (ri_log r))"
proof (cases op)
  case (OpReadAll x n)
  with assms(3) ri_reader.read_all [OF wf] show ?thesis by (auto simp: read_call_def intro: performs.read_all)
next
  case (OpReadStream sid x n)
  with assms(3) have "a = AnsStream (if stream_events (el_events (ri_log r)) sid = [] then Inl (StreamNotFound sid)
      else Inr (take (unat n) (drop (unat x) (stream_events (el_events (ri_log r)) sid))))"
    using ri_reader.read_stream [OF wf] by (auto simp: read_call_def)
  with OpReadStream show ?thesis using performs.read_stream [OF refl] by blast
next
  case (OpStreamVersion sid)
  with assms(3) have "a = AnsVersion (if stream_events (el_events (ri_log r)) sid = [] then None
      else Some (of_nat (length (stream_events (el_events (ri_log r)) sid) - 1)))"
    using ri_reader.stream_version [OF wf] by (auto simp: read_call_def)
  with OpStreamVersion show ?thesis using performs.stream_version [OF refl] by blast
next
  case OpHead
  with assms(3) ri_reader.global_position [OF wf] show ?thesis by (auto simp: read_call_def intro: performs.head)
next
  case OpListStreams
  with assms(3) list_streams_performs [OF assms(1,2)] show ?thesis by (simp add: read_call_def)
qed (use assms(3) in \<open>simp add: read_call_def\<close>)

lemma sim_read:
  assumes sim: "node_sim W entries cap n a" and c: "nd_calls n c = Some op" "nd_reads n c = None"
    and r: "read_call (we_uuid_str W) (read_index_new (st_log (ws_store (nd_state n)))) op = Some r"
    and tx: "uuid_text (we_uuid_str W) uuid_parse"
  defines "n' \<equiv> n\<lparr>nd_reads := (nd_reads n)(c \<mapsto> r)\<rparr>"
  shows "atomic_step (we_uuid_str W) a None (node_abs n') \<and> node_sim W entries cap n' (node_abs n')"
proof
  have inv: "calls_inv n" "waiting_inv n" using sim by (simp_all add: node_sim_def)
  have wf: "log_wf (ri_log (read_index_new (st_log (ws_store (nd_state n)))))"
    using sim by (simp add: node_sim_def store_sim_def read_index_new_def)
  have read: "\<not> is_append op" using r by (cases op) (simp_all add: read_call_def)
  then have sent: "c \<notin> nd_sent n" using inv(1) c(1) by (auto simp: calls_inv_def)
  have none: "node_answer n c = None" using unanswered [OF inv(1) sent c(2)] .
  have log: "el_events (ri_log (read_index_new (st_log (ws_store (nd_state n))))) = nd_log n"
    by (simp add: read_index_new_def log_events_def)
  have p: "performs (we_uuid_str W) (nd_log n) op r (nd_log n)"
    using read_call_performs [OF wf tx r] by (simp add: log)
  have ans: "node_answer n' = (node_answer n)(c \<mapsto> r)"
    by (auto simp: n'_def node_answer_def fun_eq_iff split: option.split)
  show "atomic_step (we_uuid_str W) a None (node_abs n')"
    by (rule sim_perform [OF sim c(1) none _ ans]) (use p in \<open>simp_all add: n'_def\<close>)
  have "calls_inv n'" using inv(1) c read by (auto simp: n'_def calls_inv_def)
  moreover have "waiting_inv n'"
    using inv(2) sent unfolding waiting_inv_def ans by (auto simp: n'_def waiting_def)
  ultimately show "node_sim W entries cap n' (node_abs n')"
    using sim by (simp add: node_sim_def) (simp add: n'_def)
qed

lemma sim_serve:
  fixes ts
  assumes sim: "node_sim W entries cap n a"
    and y: "wy_phase (nd_writer n) = Serving" "wy_batch (nd_writer n) = req # rest"
    and io: "wi_append io = append_io_ok" and room: "room n req"
  defines "n' \<equiv> n\<lparr>nd_writer := (nd_writer n)\<lparr>wy_batch := rest,
       wy_state := process_request W ts (req, io) (nd_state n)\<rparr>\<rparr>"
  shows "atomic_step uuid_str a None (node_abs n') \<and> node_sim W entries cap n' (node_abs n')"
proof
  let ?c = "ar_response_tx req" and ?op = "OpAppend (ar_stream_id req) (ar_expected_version req) (ar_events req)"
  have inv: "calls_inv n" "waiting_inv n" and lru: "lru_cache (we_lru W) entries cap"
    and acks: "lru_cache.acks_logged entries (nd_state n)"
    and store: "store_sim (we_crc W) (ws_store (nd_state n)) (nd_log n)"
    using sim by (simp_all add: node_sim_def)
  have req: "req \<in> set (waiting n)" by (simp add: waiting_def y)
  then have c: "nd_calls n ?c = Some ?op" "node_answer n ?c = None" "?c \<in> nd_sent n"
    using inv(2) by (auto simp: waiting_inv_def)
  have "sendable (ws_store (nd_state n)) (ar_events req)"
    using calls_inv_call(2) [OF inv(1) c(1)] room
    by (simp add: sendable_def sent_by_service_def room_def log_events_def)
  from request_performs [OF lru acks store io this, of ts uuid_str] obtain r where
    r: "ws_responses (nd_state n') = ws_responses (nd_state n) @ [(?c, r)]"
      "performs uuid_str (nd_log n) ?op (AnsAppend r) (nd_log n')"
      "store_sim (we_crc W) (ws_store (nd_state n')) (nd_log n')"
    by (auto simp: n'_def)
  have "nd_reads n ?c = None" using calls_inv_call(3) [OF inv(1) c(1)] by simp
  with c(2) r(1) have ans: "node_answer n' = (node_answer n)(?c \<mapsto> AnsAppend r)"
    by (intro ext) (auto simp: node_answer_def writer_handle_append_def n'_def map_add_def split: option.splits)
  show "atomic_step uuid_str a None (node_abs n')"
    by (rule sim_perform [OF sim c(1,2) r(2) ans]) (simp_all add: n'_def)
  have "calls_inv n'" using inv(1) c(3) r(1) unfolding calls_inv_def by (simp add: n'_def)
  moreover have "waiting_inv n'"
    using inv(2) y unfolding waiting_inv_def ans by (auto simp: n'_def waiting_def) (metis imageI)+
  moreover have "lru_cache.acks_logged entries (nd_state n')"
    using lru_cache.acks_request [OF lru refl acks] by (simp add: n'_def)
  ultimately show "node_sim W entries cap n' (node_abs n')" using lru r(3) by (simp add: node_sim_def)
qed

text \<open>
  Whatever file a crash leaves, it opens, and the log is the old one, or the old one with the append that
  was being written.
\<close>

lemma crash_reopens:
  assumes sim: "node_sim W entries cap n a" and f: "crash_file W n f"
  shows "\<exists>f' s. store_open (we_crc W) open_io_ok (Some f) = (f', Inr s) \<and>
    store_sim (we_crc W) s (el_events (st_log s)) \<and>
    (el_events (st_log s) = at_log a \<or>
     (\<exists>c sid ev ps r. at_calls a c = Some (OpAppend sid ev ps) \<and>
        performs uuid_str (at_log a) (OpAppend sid ev ps) r (el_events (st_log s))))"
proof -
  let ?s = "ws_store (nd_state n)" and ?C = "we_crc W"
  have inv: "calls_inv n" "waiting_inv n" and store: "store_sim ?C ?s (nd_log n)" and a: "a = node_abs n"
    using sim by (simp_all add: node_sim_def)
  from store have C: "crc_streaming ?C" "store_inv ?C ?s" by (simp_all add: store_sim_def)
  from f [unfolded crash_file_def] show ?thesis
  proof (elim disjE exE conjE)
    assume "f = st_file ?s"
    with reopen_same [OF C] store a show ?thesis by (simp add: log_events_def)
  next
    fix req rest dedup s1 rs
    assume y: "wy_phase (nd_writer n) = Serving" "wy_batch (nd_writer n) = req # rest"
      and d: "distinct (map pe_event_id (ar_events req))" and room: "room n req"
      and app: "store_append ?C append_io_ok ?s (ar_stream_id req) (ar_expected_version req)
        (of_nat (wy_millis (nd_writer n))) (ar_events req) = (s1, Inr rs)"
      and torn: "prefix (st_file ?s) f" "prefix f (st_file s1)"
    let ?ps = "ar_events req" and ?ts = "of_nat (wy_millis (nd_writer n)) :: u64"
    let ?b = "batch_bytes ?C (store_global_position ?s) (appended ?s (ar_stream_id req) ?ts ?ps)"
    have c: "nd_calls n (ar_response_tx req) = Some (OpAppend (ar_stream_id req) (ar_expected_version req) ?ps)"
        "node_answer n (ar_response_tx req) = None"
      using inv(2) y by (auto simp: waiting_inv_def waiting_def)
    have ps: "?ps \<noteq> []" "utf8_events ?ps" "length ?ps < 2 ^ 32"
      using calls_inv_call(2) [OF inv(1) c(1)] by (simp_all add: sent_by_service_def)
    have ok: "sendable ?s ?ps" using ps room by (simp add: sendable_def room_def log_events_def)
    note s1 = app [unfolded store_append_Inr_iff]
    obtain t where t: "f = st_file ?s @ t" "prefix t ?b"
      using torn s1 by (auto simp: prefix_def store_global_position_def)
    from sim_acked [OF store ok app] have acked: "store_sim ?C s1 (nd_log n @ rs)"
      "performs uuid_str (nd_log n) (OpAppend (ar_stream_id req) (ar_expected_version req) ?ps)
         (AnsAppend (Inr rs)) (nd_log n @ rs)"
      using d by (auto simp: spec_step_acked_iff intro: performs.append)
    have log1: "el_events (st_log s1) = nd_log n @ rs" using acked(1) by (simp add: store_sim_def)
    have "store_open ?C open_io_ok (Some f) = (if t = ?b then (Some f, Inr s1) else (Some (st_file ?s), Inr ?s))"
      using reopen_crashed [OF C ps(1) _ ps(2,3) t(2)] s1 t(1) by (simp add: store_global_position_def)
    moreover have "at_calls a (ar_response_tx req) = Some (OpAppend (ar_stream_id req) (ar_expected_version req) ?ps)"
      "at_log a = nd_log n" "nd_log n = el_events (st_log ?s)"
      using a c by (simp_all add: log_events_def)
    ultimately show ?thesis
      using acked store log1 by (cases "t = ?b") (metis, metis)
  qed
qed

lemma sim_crash:
  fixes b k m
  assumes sim: "node_sim W entries cap n a" and f: "crash_file W n f"
    and s: "store_open (we_crc W) open_io_ok (Some f) = (f', Inr s)"
  defines "n' \<equiv> node_start (nd_used n) (fst (spawn_writer W s b k m))"
  shows "atomic_step uuid_str a (Some Crash) (node_abs n') \<and> node_sim W entries cap n' (node_abs n')"
proof
  have lru: "lru_cache (we_lru W) entries cap" and a: "a = node_abs n" using sim by (simp_all add: node_sim_def)
  have n': "nd_log n' = el_events (st_log s)" "ws_store (nd_state n') = s" "node_answer n' = Map.empty"
    "nd_calls n' = Map.empty" "nd_used n' = nd_used n"
    by (auto simp: n'_def node_start_def writer_system_start_def spawn_writer_def log_events_def Let_def
        node_answer_def fun_eq_iff)
  note r = crash_reopens [OF sim f, of uuid_str, unfolded s]
  have eq: "node_abs n' = a\<lparr>at_log := el_events (st_log s), at_calls := Map.empty, at_done := Map.empty\<rparr>"
    unfolding a node_abs_def n' by simp
  show "atomic_step uuid_str a (Some Crash) (node_abs n')"
    unfolding eq by (rule atomic_step.crash) (use r in auto)
  have "calls_inv n'" "waiting_inv n'"
    by (auto simp: n'_def node_start_def writer_system_start_def spawn_writer_def Let_def calls_inv_def
        waiting_inv_def waiting_def)
  moreover have "lru_cache.acks_logged entries (nd_state n')"
    using lru_cache.acks_spawn [OF lru refl] by (simp add: n'_def node_start_def writer_system_start_def)
  ultimately show "node_sim W entries cap n' (node_abs n')"
    using lru r n'(1,2) by (auto simp: node_sim_def)
qed

lemma task_quiet:
  "writer_task W y [] y' \<Longrightarrow> wy_phase y = Receiving \<longrightarrow> wy_batch y = [] \<Longrightarrow>
   wy_state y' = wy_state y \<and> wy_batch y' @ wy_queue y' = wy_batch y @ wy_queue y \<and>
   (wy_phase y' = Receiving \<longrightarrow> wy_batch y' = [])"
  by (auto elim!: writer_taskE)

lemma client_quiet:
  "client_step capacity y [] y' \<Longrightarrow> wy_state y' = wy_state y \<and> wy_batch y' = wy_batch y \<and>
   wy_queue y' = wy_queue y \<and> wy_phase y' = wy_phase y"
  by (auto elim!: client_stepE)

lemma node_simulates:
  assumes "uuid_text (we_uuid_str W) uuid_parse"
    and sim: "node_sim W entries cap n a" and step: "node_step W capacity startup n l n'"
  shows "(\<exists>a'. atomic_step (we_uuid_str W) a l a' \<and> node_sim W entries cap n' a') \<or>
    (\<not> visible l \<and> node_sim W entries cap n' a)"
  using step
proof (cases rule: node_step.cases)
  case (task served y)
  show ?thesis
  proof (cases served)
    case Nil
    have "wy_phase (nd_writer n) = Receiving \<longrightarrow> wy_batch (nd_writer n) = []"
      using sim by (simp add: node_sim_def waiting_inv_def)
    from task_quiet [OF task(3) [unfolded Nil] this] sim_quiet [OF sim, of y] task(1,2) show ?thesis
      by (simp add: visible_def waiting_def)
  next
    case (Cons r rs)
    with task(3) obtain req io rest where serve: "served = [(req, io)]" "wy_phase (nd_writer n) = Serving"
      "wy_batch (nd_writer n) = req # rest" "y = (nd_writer n)\<lparr>wy_batch := rest,
         wy_state := process_request W (of_nat (wy_millis (nd_writer n))) (req, io) (nd_state n)\<rparr>"
      by (auto elim!: writer_taskE)
    with task(4) sim_serve [where ts = "of_nat (wy_millis (nd_writer n))" and uuid_str = "we_uuid_str W",
        OF sim serve(2,3), of io] task(1,2)
    show ?thesis by auto
  qed
next
  case (send c sid ev ps y)
  from send(5) show ?thesis
    using sim_send [OF sim send(3,4), of y] send(1,2) by (auto simp: visible_def elim!: client_stepE)
next
  case (handles y)
  have "wy_phase (nd_writer n) = Receiving \<longrightarrow> wy_batch (nd_writer n) = []"
    using sim by (simp add: node_sim_def waiting_inv_def)
  with client_quiet [OF handles(3)] sim_quiet [OF sim, of y] handles(1,2) show ?thesis
    by (simp add: visible_def waiting_def)
next
  case (invoke c op)
  with sim_invoke [OF sim invoke(3,4)] show ?thesis by auto
next
  case (read c op r)
  with sim_read [OF sim read(3,4,5) assms(1)] show ?thesis by auto
next
  case (return c r)
  with sim_return [OF sim return(3,4)] show ?thesis by auto
next
  case (crash f f' s b k m)
  with sim_crash [OF sim crash(3,4)] show ?thesis by blast
qed

interpretation node_refines: trace_simulation "node_step W capacity startup" "atomic_step (we_uuid_str W)"
  "\<lambda>n a. uuid_text (we_uuid_str W) uuid_parse \<and> node_sim W entries cap n a" visible
  by unfold_locales (use node_simulates in blast)

lemma node_sim_start:
  assumes "crc_streaming (we_crc W)" and "lru_cache (we_lru W) entries cap"
    and "store_inv (we_crc W) s" and "log_wf (st_log s)"
  shows "node_sim W entries cap (node_start {} (fst (spawn_writer W s b k m))) (atomic_start (el_events (st_log s)))"
proof -
  let ?n = "node_start {} (fst (spawn_writer W s b k m))"
  have "calls_inv ?n" "waiting_inv ?n"
    by (auto simp: node_start_def writer_system_start_def spawn_writer_def Let_def calls_inv_def
        waiting_inv_def waiting_def)
  moreover have "lru_cache.acks_logged entries (nd_state ?n)"
    using lru_cache.acks_spawn [OF assms(2) refl] by (simp add: node_start_def writer_system_start_def)
  moreover have "store_sim (we_crc W) (ws_store (nd_state ?n)) (nd_log ?n)"
    using assms by (simp add: store_sim_def log_events_def node_start_def writer_system_start_def spawn_writer_def Let_def)
  moreover have "atomic_start (el_events (st_log s)) = node_abs ?n"
    by (auto simp: atomic_start_def node_abs_def node_start_def writer_system_start_def spawn_writer_def Let_def
        log_events_def node_answer_def)
  ultimately show ?thesis using assms(2) by (simp add: node_sim_def)
qed

text \<open>Every run of a server has an atomic run with the same history that ends in the same log.\<close>

lemma node_traces:
  assumes "crc_streaming (we_crc W)" and "lru_cache (we_lru W) entries cap" and "uuid_text (we_uuid_str W) uuid_parse"
    and "store_inv (we_crc W) s" and "log_wf (st_log s)"
    and "run (node_step W capacity (b, k, m)) (node_start {} (fst (spawn_writer W s b k m))) ls n"
  shows "\<exists>ls'. run (atomic_step (we_uuid_str W)) (atomic_start (el_events (st_log s))) ls' (node_abs n) \<and>
    history ls' = history ls \<and> node_sim W entries cap n (node_abs n)"
proof -
  from node_refines.traces [OF assms(6)] node_sim_start [OF assms(1,2,4,5)] assms(3)
  obtain ls' a where "run (atomic_step (we_uuid_str W)) (atomic_start (el_events (st_log s))) ls' a"
    "filter visible ls' = filter visible ls" "node_sim W entries cap n a" by blast
  moreover from this(3) have "a = node_abs n" by (simp add: node_sim_def)
  ultimately show ?thesis using history_cong by blast
qed

subsection \<open>Properties\<close>

text \<open>
  C1: the server is durably linearizable. Take any run of a server that starts on a consistent log: clients
  call append and the read methods concurrently, requests go through the bounded channel, the writer
  drains and serves them, the process crashes and restarts, possibly in the middle of a batch write. Then
  the atomic event store has a run with the same history of invocations, returns and crashes that ends in
  the same log: every call takes effect at one moment between its invocation and its return, no
  performed call is lost by a crash, and at most the one append that was being written is completed by
  it. And from every state the server can be restarted, whatever file a crash leaves.
\<close>

theorem server_durably_linearizable:
  assumes "crc_streaming (we_crc W)" and "lru_cache (we_lru W) entries cap" and "uuid_text (we_uuid_str W) uuid_parse"
    and "store_inv (we_crc W) s" and "log_wf (st_log s)"
    and "run (node_step W capacity (b, k, m)) (node_start {} (fst (spawn_writer W s b k m))) ls n"
  shows "(\<exists>ls' a. run (atomic_step (we_uuid_str W)) (atomic_start (el_events (st_log s))) ls' a \<and>
            history ls' = history ls \<and> at_log a = log_events (wy_state (nd_writer n))) \<and>
         (\<forall>f. crash_file W n f \<longrightarrow> (\<exists>f' s'. store_open (we_crc W) open_io_ok (Some f) = (f', Inr s')))"
proof -
  from node_traces [OF assms] obtain ls' where
    run: "run (atomic_step (we_uuid_str W)) (atomic_start (el_events (st_log s))) ls' (node_abs n)"
      "history ls' = history ls" and sim: "node_sim W entries cap n (node_abs n)" by blast
  have "\<exists>f' s'. store_open (we_crc W) open_io_ok (Some f) = (f', Inr s')" if "crash_file W n f" for f
    using crash_reopens [OF sim that] by blast
  with run show ?thesis by (metis node_abs_sel(1))
qed

text \<open>
  C6: reads see what was acknowledged. Once an append has returned successfully to its client, every
  complete read of the log that any client invokes afterwards (from position 0, not cut off by its limit)
  returns the acknowledged events as one block, also when the server crashed and restarted in between.
\<close>

theorem read_after_acknowledgement:
  assumes "crc_streaming (we_crc W)" and "lru_cache (we_lru W) entries cap" and "uuid_text (we_uuid_str W) uuid_parse"
    and "store_inv (we_crc W) s" and "log_wf (st_log s)"
    and "run (node_step W capacity (b, k, m)) (node_start {} (fst (spawn_writer W s b k m))) ls n"
    and "history ls = xs @ Return c (AnsAppend (Inr rs)) # ys"
    and "Invoke d (OpReadAll 0 limit) \<in> set ys" and "Return d (AnsAll es) \<in> set ys" and "length es < unat limit"
  shows "\<exists>before after. es = before @ rs @ after"
proof -
  from node_traces [OF assms(1-6)] assms(7) obtain ls' where
    "run (atomic_step (we_uuid_str W)) (atomic_start (el_events (st_log s))) ls' (node_abs n)"
    "history ls' = xs @ Return c (AnsAppend (Inr rs)) # ys" by auto
  from atomic_read_after_ack [OF this assms(8-10)] show ?thesis by (auto simp: sublist_def)
qed

text \<open>
  C5: optimistic concurrency control works under concurrency and crashes. Of two appends to one stream that
  expect the same version (or both expect a new stream) and are not retries (their first event id is used
  by no other call), at most one ever succeeds, in every history of a server on a new log file.
\<close>

theorem one_writer_wins:
  assumes "crc_streaming (we_crc W)" and "lru_cache (we_lru W) entries cap" and "uuid_text (we_uuid_str W) uuid_parse"
    and "store_open (we_crc W) io None = (f, Inr s)"
    and "run (node_step W capacity (b, k, m)) (node_start {} (fst (spawn_writer W s b k m))) ls n"
    and "Invoke c (OpAppend sid ev ps) \<in> set (history ls)" and "ps \<noteq> []"
    and "Invoke d (OpAppend sid ev qs) \<in> set (history ls)" and "qs \<noteq> []"
    and "\<forall>c' op. Invoke c' op \<in> set (history ls) \<longrightarrow> c' \<noteq> c \<longrightarrow> pe_event_id (hd ps) \<notin> op_ids op"
    and "\<forall>c' op. Invoke c' op \<in> set (history ls) \<longrightarrow> c' \<noteq> d \<longrightarrow> pe_event_id (hd qs) \<notin> op_ids op"
    and "c \<noteq> d" and "ev \<noteq> Any" and "Return c (AnsAppend (Inr rs)) \<in> set (history ls)"
  shows "Return d (AnsAppend (Inr rs')) \<notin> set (history ls)"
proof -
  have s: "store_inv (we_crc W) s" "log_wf (st_log s)" "el_events (st_log s) = []"
    using store_sim_created [OF assms(1,4)] by (simp_all add: store_sim_def)
  from node_traces [OF assms(1-3) s(1,2) assms(5)] obtain ls' where
    run: "run (atomic_step (we_uuid_str W)) (atomic_start []) ls' (node_abs n)"
    and h: "history ls' = history ls" and sim: "node_sim W entries cap n (node_abs n)" by (auto simp: s(3))
  have "numbered (at_log (node_abs n))" "length (at_log (node_abs n)) < 2 ^ 64"
    using sim by (simp_all add: node_sim_def store_sim_def log_wf_def log_events_def)
  from atomic_one_winner [OF run this, unfolded h, OF assms(6-14)] show ?thesis .
qed

subsection \<open>A concrete history\<close>

text \<open>
  Two clients want to create the same stream; the first is served and answered, a third client reads
  the log, the second call is invoked, and the process crashes.
\<close>

abbreviation demo_batch :: "recorded_event list" where
  "demo_batch \<equiv> appended demo_store 1 9 [demo_proposed 4, demo_proposed 5]"

definition demo_history :: "call_event list" where
  "demo_history =
     [Invoke 7 (OpAppend 1 NoStream [demo_proposed 4, demo_proposed 5]), Return 7 (AnsAppend (Inr demo_batch)),
      Invoke 9 (OpReadAll 0 10), Return 9 (AnsAll demo_batch),
      Invoke 8 (OpAppend 1 NoStream [demo_proposed 6]), Crash]"

definition demo_create :: append_request where
  "demo_create = \<lparr>ar_stream_id = 1, ar_expected_version = NoStream,
     ar_events = [demo_proposed 4, demo_proposed 5], ar_response_tx = 7\<rparr>"

definition demo_served :: "(lru_list, bc_list) writer_state" where
  "demo_served = process_request demo_env 9 (demo_create, writer_io_ok) demo_writer"

lemma demo_served_facts:
  "ws_responses demo_served = [(7, Inr demo_batch)]"
  "el_events (st_log (ws_store demo_served)) = demo_batch"
  "store_sim demo_crc (ws_store demo_served) demo_batch"
proof -
  have s0: "store_sim demo_crc demo_store []"
    using store_sim_created [OF crc_streaming_demo demo_open] .
  have ok: "sendable demo_store [demo_proposed 4, demo_proposed 5]"
    using utf8_events_demo by (simp add: sendable_def) (simp add: demo_store_def empty_log_def)
  have w: "ws_store demo_writer = demo_store" "ws_responses demo_writer = []"
    by (simp_all add: demo_writer_def spawn_writer_def Let_def)
  obtain s where a: "store_append demo_crc append_io_ok demo_store 1 NoStream 9
      [demo_proposed 4, demo_proposed 5] = (s, Inr demo_batch)"
    by (simp add: store_append_Inr_iff version_matches_def append_io_ok_def demo_store_def empty_log_def)
  obtain d where d: "dedup_check (we_lru demo_env) (ws_dedup demo_writer) (ar_events demo_create) = (None, d)"
    using demo_check by (metis demo_env_simps(2) demo_create_def append_request.select_convs(3) demo_request_simps(1) prod.collapse)
  have eq: "demo_served = send_response demo_create (Inr demo_batch)
     (demo_writer\<lparr>ws_store := s, ws_metrics := update_metrics writer_io_ok s demo_batch (ws_metrics demo_writer),
         ws_dedup := dedup_record (we_lru demo_env) d demo_batch,
         ws_broker := broker_publish (we_bc demo_env) demo_batch (ws_broker demo_writer)\<rparr>)"
    unfolding demo_served_def
    by (rule process_fresh [OF _ d]) (use a w demo_request_distinct in \<open>simp_all add: demo_create_def writer_io_ok_def\<close>)
  have st: "ws_store demo_served = s" and r: "ws_responses demo_served = [(7, Inr demo_batch)]"
    unfolding eq by (simp_all add: send_response_def w demo_create_def)
  show "ws_responses demo_served = [(7, Inr demo_batch)]" by (fact r)
  from sim_acked [OF s0 ok a] show "store_sim demo_crc (ws_store demo_served) demo_batch" by (simp add: st)
  then show "el_events (st_log (ws_store demo_served)) = demo_batch" by (simp add: store_sim_def)
qed

abbreviation demo_startup :: "bc_list broker \<times> nat \<times> writer_metrics" where
  "demo_startup \<equiv> (broker_new bc_list_ops 16, 8, demo_metrics)"

definition demo_sys where
  "demo_sys q ph b t st = \<lparr>wy_queue = q, wy_handles = 1, wy_phase = ph, wy_batch = b, wy_millis = t, wy_state = st\<rparr>"

definition demo_node where
  "demo_node y used calls sent reads =
     \<lparr>nd_writer = y, nd_used = used, nd_calls = calls, nd_sent = sent, nd_reads = reads\<rparr>"

text \<open>The first call, from its invocation to its return.\<close>

lemma demo_first_call:
  "\<exists>ls. run (node_step demo_env 64 demo_startup) (node_start {} demo_writer) ls
       (demo_node (demo_sys [] Serving [] 9 demo_served) {7} Map.empty {7} Map.empty) \<and>
     history ls = [Invoke 7 (OpAppend 1 NoStream [demo_proposed 4, demo_proposed 5]), Return 7 (AnsAppend (Inr demo_batch))]"
proof -
  let ?step = "node_step demo_env 64 demo_startup"
  let ?op = "OpAppend 1 NoStream [demo_proposed 4, demo_proposed 5]"
  let ?n = "\<lambda>y calls sent. demo_node y {7} calls sent Map.empty"
  let ?y1 = "demo_sys [] Receiving [] 0 demo_writer" and ?y2 = "demo_sys [demo_create] Receiving [] 0 demo_writer"
  let ?y3 = "demo_sys [] Draining [demo_create] 0 demo_writer" and ?y4 = "demo_sys [] Serving [demo_create] 9 demo_writer"
  let ?y5 = "demo_sys [] Serving [] 9 demo_served"
  have 1: "?step (node_start {} demo_writer) (Some (Invoke 7 ?op)) (?n ?y1 [7 \<mapsto> ?op] {})"
    using node_step.invoke [of 7 "node_start {} demo_writer" ?op demo_env 64 demo_startup] utf8_events_demo
    by (simp add: sent_by_service_def node_start_def writer_system_start_def demo_node_def demo_sys_def)
  have "client_step 64 ?y1 [demo_create] ?y2"
    using client_step.send [of ?y1 64 demo_create] by (simp add: demo_sys_def)
  then have 2: "?step (?n ?y1 [7 \<mapsto> ?op] {}) None (?n ?y2 [7 \<mapsto> ?op] {7})"
    using node_step.send [of "?n ?y1 [7 \<mapsto> ?op] {}" 7 1 NoStream "[demo_proposed 4, demo_proposed 5]" 64 ?y2 demo_env demo_startup]
    by (simp add: demo_node_def demo_create_def)
  have task: "?step (?n y [7 \<mapsto> ?op] {7}) None (?n y' [7 \<mapsto> ?op] {7})"
    if "writer_task demo_env y served y'" "\<forall>(req, io) \<in> set served. io = writer_io_ok \<and> req = demo_create"
      "wy_state y = demo_writer" for y served y'
    using node_step.task [of demo_env "?n y [7 \<mapsto> ?op] {7}" served y' 64 demo_startup] that
    by (fastforce simp: demo_node_def writer_io_ok_def room_def demo_create_def log_events_def demo_writer_def
        spawn_writer_def demo_store_def empty_log_def Let_def)
  have 3: "?step (?n ?y2 [7 \<mapsto> ?op] {7}) None (?n ?y3 [7 \<mapsto> ?op] {7})"
    using writer_task.recv [of ?y2 demo_create "[]" demo_env] by (intro task [of _ "[]"]) (simp_all add: demo_sys_def)
  have 4: "?step (?n ?y3 [7 \<mapsto> ?op] {7}) None (?n ?y4 [7 \<mapsto> ?op] {7})"
    using writer_task.drained [of ?y3 demo_env 9] by (intro task [of _ "[]"]) (simp_all add: demo_sys_def)
  have 5: "?step (?n ?y4 [7 \<mapsto> ?op] {7}) None (?n ?y5 [7 \<mapsto> ?op] {7})"
    using writer_task.serve [of ?y4 demo_create "[]" demo_env writer_io_ok]
    by (intro task [of _ "[(demo_create, writer_io_ok)]"]) (simp_all add: demo_sys_def demo_served_def)
  have 6: "?step (?n ?y5 [7 \<mapsto> ?op] {7}) (Some (Return 7 (AnsAppend (Inr demo_batch)))) (?n ?y5 Map.empty {7})"
    using node_step.return [of "?n ?y5 [7 \<mapsto> ?op] {7}" 7 "AnsAppend (Inr demo_batch)" demo_env 64 demo_startup]
    by (simp add: demo_node_def node_answer_def demo_sys_def demo_served_facts writer_handle_append_def)
  note cons = run_Cons [where step = ?step]
  have "run ?step (node_start {} demo_writer) [Some (Invoke 7 ?op), None, None, None, None, Some (Return 7 (AnsAppend (Inr demo_batch)))]
      (?n ?y5 Map.empty {7})"
    by (rule cons [OF 1 cons [OF 2 cons [OF 3 cons [OF 4 cons [OF 5 cons [OF 6 run_Nil]]]]]])
  moreover have "history [Some (Invoke 7 ?op), None, None, None, None, Some (Return 7 (AnsAppend (Inr demo_batch)))]
      = [Invoke 7 ?op, Return 7 (AnsAppend (Inr demo_batch))]" by simp
  ultimately show ?thesis by blast
qed

text \<open>The read, the second invocation and the crash.\<close>

lemma demo_later_calls:
  fixes n0 :: "(lru_list, bc_list) node"
  defines "n0 \<equiv> demo_node (demo_sys [] Serving [] 9 demo_served) {7} Map.empty {7} Map.empty"
  shows "\<exists>ls n. run (node_step demo_env 64 demo_startup) n0 ls n \<and>
     history ls = [Invoke 9 (OpReadAll 0 10), Return 9 (AnsAll demo_batch), Invoke 8 (OpAppend 1 NoStream [demo_proposed 6]), Crash]"
proof -
  let ?step = "node_step demo_env 64 demo_startup"
  let ?y = "demo_sys [] Serving [] 9 demo_served"
  let ?op = "OpReadAll 0 10" and ?op' = "OpAppend 1 NoStream [demo_proposed 6]"
  let ?n1 = "demo_node ?y {7, 9} [9 \<mapsto> ?op] {7} Map.empty" and ?n2 = "demo_node ?y {7, 9} [9 \<mapsto> ?op] {7} [9 \<mapsto> AnsAll demo_batch]"
  let ?n3 = "demo_node ?y {7, 9} Map.empty {7} [9 \<mapsto> AnsAll demo_batch]"
  let ?n4 = "demo_node ?y {7, 8, 9} [8 \<mapsto> ?op'] {7} [9 \<mapsto> AnsAll demo_batch]"
  have 1: "?step n0 (Some (Invoke 9 ?op)) ?n1"
    using node_step.invoke [of 9 n0 ?op demo_env 64 demo_startup]
    by (simp add: n0_def demo_node_def insert_commute)
  have "length demo_batch = 2" by simp
  then have "read_call (we_uuid_str demo_env) (read_index_new (st_log (ws_store demo_served))) ?op = Some (AnsAll demo_batch)"
    using ri_reader.read_all [of "read_index_new (st_log (ws_store demo_served))" 0 10] demo_served_facts(2,3)
    by (simp add: read_call_def read_index_new_def store_sim_def)
  then have 2: "?step ?n1 None ?n2"
    using node_step.read [of ?n1 9 ?op demo_env "AnsAll demo_batch" 64 demo_startup]
    by (simp add: demo_node_def demo_sys_def)
  have 3: "?step ?n2 (Some (Return 9 (AnsAll demo_batch))) ?n3"
    using node_step.return [of ?n2 9 "AnsAll demo_batch" demo_env 64 demo_startup]
    by (simp add: demo_node_def node_answer_def)
  have 4: "?step ?n3 (Some (Invoke 8 ?op')) ?n4"
    using node_step.invoke [of 8 ?n3 ?op' demo_env 64 demo_startup] utf8_events_demo
    by (simp add: demo_node_def sent_by_service_def insert_commute)
  have "crash_file demo_env ?n4 (st_file (ws_store demo_served))"
    by (simp add: crash_file_def demo_node_def demo_sys_def)
  moreover have "store_open (we_crc demo_env) open_io_ok (Some (st_file (ws_store demo_served)))
      = (Some (st_file (ws_store demo_served)), Inr (ws_store demo_served))"
    using reopen_same [of demo_crc "ws_store demo_served"] demo_served_facts(3) by (simp add: store_sim_def)
  ultimately obtain n5 where 5: "?step ?n4 (Some Crash) n5"
    using node_step.crash [of demo_env ?n4 _ _ _ demo_startup] by blast
  note cons = run_Cons [where step = ?step]
  have "history [Some (Invoke 9 ?op), None, Some (Return 9 (AnsAll demo_batch)), Some (Invoke 8 ?op'), Some Crash]
      = [Invoke 9 ?op, Return 9 (AnsAll demo_batch), Invoke 8 ?op', Crash]" by simp
  with cons [OF 1 cons [OF 2 cons [OF 3 cons [OF 4 cons [OF 5 run_Nil]]]]] show ?thesis by blast
qed

lemma demo_node_run:
  "\<exists>ls n. run (node_step demo_env 64 demo_startup) (node_start {} (fst (spawn_writer demo_env demo_store
       (broker_new bc_list_ops 16) 8 demo_metrics))) ls n \<and> history ls = demo_history"
proof -
  obtain ls1 n1 where 1: "run (node_step demo_env 64 demo_startup) (node_start {} demo_writer) ls1 n1"
    "n1 = demo_node (demo_sys [] Serving [] 9 demo_served) {7} Map.empty {7} Map.empty"
    "history ls1 = [Invoke 7 (OpAppend 1 NoStream [demo_proposed 4, demo_proposed 5]), Return 7 (AnsAppend (Inr demo_batch))]"
    using demo_first_call by blast
  obtain ls2 n2 where "run (node_step demo_env 64 demo_startup) n1 ls2 n2"
    "history ls2 = [Invoke 9 (OpReadAll 0 10), Return 9 (AnsAll demo_batch), Invoke 8 (OpAppend 1 NoStream [demo_proposed 6]), Crash]"
    using demo_later_calls 1(2) by blast
  with 1 have "run (node_step demo_env 64 demo_startup) (node_start {} demo_writer) (ls1 @ ls2) n2 \<and> history (ls1 @ ls2) = demo_history"
    by (auto simp: run_append demo_history_def)
  then show ?thesis unfolding demo_writer_def by blast
qed

lemma demo_libraries:
  "crc_streaming (we_crc demo_env)" "lru_cache (we_lru demo_env) ll_entries ll_cap"
  "uuid_text (we_uuid_str demo_env) uuid_parse_hyphenated"
  using crc_streaming_demo ll.lru_cache_axioms hyphenated.uuid_text_axioms by (simp_all add: demo_env_def)

theorem server_durably_linearizable_witness:
  "\<exists>ns n ls a. run (node_step demo_env 64 demo_startup) (node_start {} (fst (spawn_writer demo_env demo_store
       (broker_new bc_list_ops 16) 8 demo_metrics))) ns n \<and> history ns = demo_history \<and>
     run (atomic_step uuid_hyphenated) (atomic_start []) ls a \<and> history ls = demo_history"
proof -
  obtain ns n where ns: "run (node_step demo_env 64 demo_startup) (node_start {} (fst (spawn_writer demo_env demo_store
       (broker_new bc_list_ops 16) 8 demo_metrics))) ns n" "history ns = demo_history"
    using demo_node_run by blast
  have "store_inv (we_crc demo_env) demo_store" "log_wf (st_log demo_store)" using store_inv_demo log_wf_demo by simp_all
  from server_durably_linearizable [OF demo_libraries this ns(1)] obtain ls a where
    "run (atomic_step (we_uuid_str demo_env)) (atomic_start (el_events (st_log demo_store))) ls a" "history ls = history ns"
    by blast
  moreover have "we_uuid_str demo_env = uuid_hyphenated" "el_events (st_log demo_store) = []"
    by (simp_all add: demo_env_def demo_store_def empty_log_def)
  ultimately show ?thesis using ns by metis
qed

theorem read_after_acknowledgement_witness:
  "\<exists>ls n es. run (node_step demo_env 64 demo_startup) (node_start {} (fst (spawn_writer demo_env demo_store
       (broker_new bc_list_ops 16) 8 demo_metrics))) ls n \<and>
     Return 7 (AnsAppend (Inr demo_batch)) \<in> set (history ls) \<and> Return 9 (AnsAll es) \<in> set (history ls) \<and>
     (\<exists>before after. es = before @ demo_batch @ after)"
proof -
  obtain ls n where run: "run (node_step demo_env 64 demo_startup) (node_start {} (fst (spawn_writer demo_env demo_store
       (broker_new bc_list_ops 16) 8 demo_metrics))) ls n" and h: "history ls = demo_history"
    using demo_node_run by blast
  have split: "history ls = [Invoke 7 (OpAppend 1 NoStream [demo_proposed 4, demo_proposed 5])] @ Return 7 (AnsAppend (Inr demo_batch))
      # drop 2 demo_history" by (simp add: h demo_history_def)
  have "\<exists>before after. demo_batch = before @ demo_batch @ after"
    by (rule read_after_acknowledgement [OF demo_libraries _ _ run split, where d = 9 and limit = 10])
      (use store_inv_demo log_wf_demo in \<open>simp_all add: demo_history_def\<close>)
  with run h show ?thesis
    by (intro exI [of _ ls] exI [of _ n] exI [of _ demo_batch]) (simp add: demo_history_def)
qed

theorem one_writer_wins_witness:
  "\<exists>ls n. run (node_step demo_env 64 demo_startup) (node_start {} (fst (spawn_writer demo_env demo_store
       (broker_new bc_list_ops 16) 8 demo_metrics))) ls n \<and> history ls = demo_history \<and>
     Return 7 (AnsAppend (Inr demo_batch)) \<in> set (history ls) \<and>
     (\<forall>rs. Return 8 (AnsAppend (Inr rs)) \<notin> set (history ls))"
proof -
  obtain ls n where run: "run (node_step demo_env 64 demo_startup) (node_start {} (fst (spawn_writer demo_env demo_store
       (broker_new bc_list_ops 16) 8 demo_metrics))) ls n" and h: "history ls = demo_history"
    using demo_node_run by blast
  have "Return 8 (AnsAppend (Inr rs)) \<notin> set (history ls)" for rs
    by (rule one_writer_wins [where c = 7 and d = 8 and ps = "[demo_proposed 4, demo_proposed 5]"
          and qs = "[demo_proposed 6]" and sid = 1 and ev = NoStream and io = open_io_ok and rs = demo_batch,
        OF demo_libraries _ run])
      (auto simp: h demo_history_def demo_open demo_proposed_id)
  moreover have "Return 7 (AnsAppend (Inr demo_batch)) \<in> set (history ls)" by (simp add: h demo_history_def)
  ultimately show ?thesis using run h by blast
qed

end
