(* ===== verification/Service.thy ===== *)
theory Service
  imports Writer
begin

text \<open>
  The gRPC service of \<open>src/service.rs\<close> with the messages of \<open>proto/eventfold.proto\<close>. A handler
  returns \<open>Inl\<close> of a \<open>tonic::Status\<close> (a code and a message) or \<open>Inr\<close> of the response; an outer \<open>None\<close> is a
  panic. UUID text is a parameter (see \<open>Uuid_Text\<close>); string fields that hold UUIDs are strings,
  the event type is its UTF-8 bytes.
\<close>

record uuid_ops =
  uu_str :: "uuid \<Rightarrow> string"
  uu_parse :: "string \<Rightarrow> string + uuid"

datatype code =
    StatusOk | Cancelled | Unknown | InvalidArg | DeadlineExceeded | NotFound | AlreadyExists
  | PermissionDenied | ResourceExhausted | FailedPrecondition | Aborted | OutOfRange | Unimplemented
  | Internal | Unavailable | DataLoss | Unauthenticated

datatype status = Status (st_code: code) (st_message: string)

subsection \<open>Messages\<close>

record proto_proposed_event =
  pp_event_id :: string
  pp_event_type :: rstring
  pp_metadata :: bytes
  pp_payload :: bytes

record proto_recorded_event =
  pr_event_id :: string
  pr_stream_id :: string
  pr_stream_version :: u64
  pr_global_position :: u64
  pr_event_type :: rstring
  pr_metadata :: bytes
  pr_payload :: bytes
  pr_recorded_at :: u64

datatype ev_kind = KindAny | KindNoStream | KindExact u64

record proto_expected_version =
  pv_kind :: "ev_kind option"

record proto_append_request =
  pa_stream_id :: string
  pa_expected_version :: "proto_expected_version option"
  pa_events :: "proto_proposed_event list"

record proto_append_response =
  px_first_stream_version :: u64
  px_last_stream_version :: u64
  px_first_global_position :: u64
  px_last_global_position :: u64

record proto_stream_info =
  ps_stream_id :: string
  ps_event_count :: u64
  ps_latest_version :: u64

datatype sub_content = ContentEvent proto_recorded_event | ContentCaughtUp

subsection \<open>Conversions\<close>

definition error_to_status :: "uuid_ops \<Rightarrow> error \<Rightarrow> status" where
  "error_to_status U err =
     (let message = error_display (uu_str U) err in
      case err of
        WrongExpectedVersion _ _ \<Rightarrow> Status FailedPrecondition message
      | StreamNotFound _ \<Rightarrow> Status NotFound message
      | Io _ \<Rightarrow> Status Internal message
      | CorruptRecord _ _ \<Rightarrow> Status DataLoss message
      | InvalidHeader _ \<Rightarrow> Status DataLoss message
      | EventTooLarge _ _ \<Rightarrow> Status InvalidArg message
      | InvalidArgument _ \<Rightarrow> Status InvalidArg message)"

definition parse_uuid :: "uuid_ops \<Rightarrow> string \<Rightarrow> string \<Rightarrow> status + uuid" where
  "parse_uuid U s field_name =
     (case uu_parse U s of
        Inl e \<Rightarrow> Inl (Status InvalidArg (''invalid '' @ field_name @ '': '' @ e))
      | Inr u \<Rightarrow> Inr u)"

definition proto_to_expected_version :: "proto_expected_version option \<Rightarrow> status + expected_version" where
  "proto_to_expected_version ev =
     (case ev of
        None \<Rightarrow> Inl (Status InvalidArg ''expected_version is required'')
      | Some ev \<Rightarrow>
          (case pv_kind ev of
             Some KindAny \<Rightarrow> Inr Any
           | Some KindNoStream \<Rightarrow> Inr NoStream
           | Some (KindExact v) \<Rightarrow> Inr (Exact v)
           | None \<Rightarrow> Inl (Status InvalidArg ''expected_version.kind is required'')))"

definition recorded_to_proto :: "uuid_ops \<Rightarrow> recorded_event \<Rightarrow> proto_recorded_event" where
  "recorded_to_proto U e =
     \<lparr>pr_event_id = uu_str U (re_event_id e), pr_stream_id = uu_str U (re_stream_id e),
      pr_stream_version = re_stream_version e, pr_global_position = re_global_position e,
      pr_event_type = re_event_type e, pr_metadata = re_metadata e, pr_payload = re_payload e,
      pr_recorded_at = re_recorded_at e\<rparr>"

definition stream_info_to_proto :: "uuid_ops \<Rightarrow> stream_info \<Rightarrow> proto_stream_info" where
  "stream_info_to_proto U s =
     \<lparr>ps_stream_id = uu_str U (si_stream_id s), ps_event_count = si_event_count s,
      ps_latest_version = si_latest_version s\<rparr>"

definition proto_to_proposed_event :: "uuid_ops \<Rightarrow> proto_proposed_event \<Rightarrow> status + proposed_event" where
  "proto_to_proposed_event U p =
     and_then (parse_uuid U (pp_event_id p) ''event_id'') (\<lambda>event_id.
       Inr \<lparr>pe_event_id = event_id, pe_event_type = pp_event_type p, pe_metadata = pp_metadata p,
            pe_payload = pp_payload p\<rparr>)"

subsection \<open>Unary handlers\<close>

text \<open>
  \<open>append\<close>: \<open>writer_append\<close> is the result of \<open>WriterHandle::append\<close>. Indexing an empty result would
  panic.
\<close>

definition append_arguments ::
  "uuid_ops \<Rightarrow> proto_append_request \<Rightarrow> status + uuid \<times> expected_version \<times> proposed_event list" where
  "append_arguments U req =
     and_then (parse_uuid U (pa_stream_id req) ''stream_id'') (\<lambda>stream_id.
     and_then (proto_to_expected_version (pa_expected_version req)) (\<lambda>expected_version.
     if pa_events req = [] then Inl (Status InvalidArg ''events must not be empty'')
     else and_then (collect_results (map (proto_to_proposed_event U) (pa_events req))) (\<lambda>events.
       Inr (stream_id, expected_version, events))))"

definition append_response ::
  "uuid_ops \<Rightarrow> append_result \<Rightarrow> (status + proto_append_response) option" where
  "append_response U result =
     (case result of
        Inl e \<Rightarrow> Some (Inl (error_to_status U e))
      | Inr recorded \<Rightarrow>
          if recorded = [] then None
          else let f = hd recorded; l = last recorded in
               Some (Inr \<lparr>px_first_stream_version = re_stream_version f,
                          px_last_stream_version = re_stream_version l,
                          px_first_global_position = re_global_position f,
                          px_last_global_position = re_global_position l\<rparr>))"

definition service_append ::
  "uuid_ops \<Rightarrow> (uuid \<Rightarrow> expected_version \<Rightarrow> proposed_event list \<Rightarrow> append_result)
     \<Rightarrow> proto_append_request \<Rightarrow> (status + proto_append_response) option" where
  "service_append U writer_append req =
     (case append_arguments U req of
        Inl s \<Rightarrow> Some (Inl s)
      | Inr (stream_id, expected_version, events) \<Rightarrow>
          append_response U (writer_append stream_id expected_version events))"

record service_metrics =
  sm_reads_stream :: nat
  sm_reads_all :: nat
  sm_subscriptions_active :: int

definition service_read_stream ::
  "uuid_ops \<Rightarrow> read_index \<Rightarrow> string \<Rightarrow> u64 \<Rightarrow> u64 \<Rightarrow> service_metrics
     \<Rightarrow> (status + proto_recorded_event list) option \<times> service_metrics" where
  "service_read_stream U read_index req_stream_id from_version max_count m =
     (let m' = m\<lparr>sm_reads_stream := Suc (sm_reads_stream m)\<rparr> in
      case parse_uuid U req_stream_id ''stream_id'' of
        Inl s \<Rightarrow> (Some (Inl s), m')
      | Inr stream_id \<Rightarrow>
          (case ri_read_stream read_index stream_id from_version max_count of
             None \<Rightarrow> (None, m')
           | Some (Inl e) \<Rightarrow> (Some (Inl (error_to_status U e)), m')
           | Some (Inr events) \<Rightarrow> (Some (Inr (map (recorded_to_proto U) events)), m')))"

definition service_read_all ::
  "uuid_ops \<Rightarrow> read_index \<Rightarrow> u64 \<Rightarrow> u64 \<Rightarrow> service_metrics
     \<Rightarrow> proto_recorded_event list option \<times> service_metrics" where
  "service_read_all U read_index from_position max_count m =
     (let m' = m\<lparr>sm_reads_all := Suc (sm_reads_all m)\<rparr> in
      (map_option (map (recorded_to_proto U)) (ri_read_all read_index from_position max_count), m'))"

definition service_list_streams :: "uuid_ops \<Rightarrow> read_index \<Rightarrow> proto_stream_info list" where
  "service_list_streams U read_index =
     map (stream_info_to_proto U) (ri_list_streams (uu_str U) read_index)"

subsection \<open>Streaming handlers\<close>

text \<open>
  The response stream of a subscription RPC. Its body starts at the first poll: the gauge guard is
  created there and the broker subscription is made there. The guard is dropped when the body
  returns or the client drops the stream.
\<close>

datatype 'rx sub_stream = NotStarted | Running "'rx subscriber" | Ended

definition subscription_gauge_new :: "service_metrics \<Rightarrow> service_metrics" where
  "subscription_gauge_new m = m\<lparr>sm_subscriptions_active := sm_subscriptions_active m + 1\<rparr>"

definition subscription_gauge_drop :: "service_metrics \<Rightarrow> service_metrics" where
  "subscription_gauge_drop m = m\<lparr>sm_subscriptions_active := sm_subscriptions_active m - 1\<rparr>"

definition map_item :: "uuid_ops \<Rightarrow> item \<Rightarrow> status + sub_content" where
  "map_item U i =
     (case i of
        Inr (EventMsg e) \<Rightarrow> Inr (ContentEvent (recorded_to_proto U e))
      | Inr CaughtUp \<Rightarrow> Inr ContentCaughtUp
      | Inl e \<Rightarrow> Inl (error_to_status U e))"

text \<open>
  A poll of a response stream. A status ends the response: the transport sends it as trailers and drops the
  stream with its guard, so yielding an error and the end of the stream are one step.
\<close>

definition service_sub_poll ::
  "uuid_ops \<Rightarrow> ('ch broker \<Rightarrow> 'rx subscriber \<times> 'ch broker)
     \<Rightarrow> ('ch broker \<Rightarrow> 'rx subscriber \<Rightarrow> (item option \<times> 'rx subscriber) option)
     \<Rightarrow> 'ch broker \<times> service_metrics \<Rightarrow> 'rx sub_stream
     \<Rightarrow> ((status + sub_content) option \<times> 'rx sub_stream \<times> 'ch broker \<times> service_metrics) option" where
  "service_sub_poll U subscribe step = (\<lambda>(b, m) s.
     case s of
       NotStarted \<Rightarrow> (case subscribe b of (sub, b') \<Rightarrow>
                        Some (None, Running sub, b', subscription_gauge_new m))
     | Running sub \<Rightarrow>
         (case step b sub of
            None \<Rightarrow> None
          | Some (Some (Inl e), sub') \<Rightarrow>
              Some (Some (Inl (error_to_status U e)), Ended, b, subscription_gauge_drop m)
          | Some (Some i, sub') \<Rightarrow> Some (Some (map_item U i), Running sub', b, m)
          | Some (None, sub') \<Rightarrow>
              if sb_phase sub' = Finished then Some (None, Ended, b, subscription_gauge_drop m)
              else Some (None, Running sub', b, m))
     | Ended \<Rightarrow> Some (None, Ended, b, m))"

definition service_sub_drop :: "service_metrics \<Rightarrow> 'rx sub_stream \<Rightarrow> 'rx sub_stream \<times> service_metrics" where
  "service_sub_drop m s =
     (case s of Running _ \<Rightarrow> (Ended, subscription_gauge_drop m) | _ \<Rightarrow> (Ended, m))"

definition service_subscribe_all_poll ::
  "uuid_ops \<Rightarrow> ('ch, 'rx) broadcast_ops \<Rightarrow> read_index \<Rightarrow> u64 \<Rightarrow> 'ch broker \<times> service_metrics
     \<Rightarrow> 'rx sub_stream
     \<Rightarrow> ((status + sub_content) option \<times> 'rx sub_stream \<times> 'ch broker \<times> service_metrics) option" where
  "service_subscribe_all_poll U B read_index from_position =
     service_sub_poll U (\<lambda>b. subscribe_all B b from_position) (subscribe_all_step B read_index)"

text \<open>\<open>subscribe_stream\<close> first validates the stream id; then the stream is polled like the global one.\<close>

definition service_subscribe_stream_poll ::
  "uuid_ops \<Rightarrow> ('ch, 'rx) broadcast_ops \<Rightarrow> read_index \<Rightarrow> uuid \<Rightarrow> u64 \<Rightarrow> 'ch broker \<times> service_metrics
     \<Rightarrow> 'rx sub_stream
     \<Rightarrow> ((status + sub_content) option \<times> 'rx sub_stream \<times> 'ch broker \<times> service_metrics) option" where
  "service_subscribe_stream_poll U B read_index stream_id from_version =
     service_sub_poll U (\<lambda>b. subscribe_stream B b from_version)
       (subscribe_stream_step B stream_id read_index)"

definition service_subscribe_stream :: "uuid_ops \<Rightarrow> string \<Rightarrow> status + uuid" where
  "service_subscribe_stream U req_stream_id = parse_uuid U req_stream_id ''stream_id''"

subsection \<open>Argument checks\<close>

lemma parse_uuid_Inr_iff: "parse_uuid U s f = Inr u \<longleftrightarrow> uu_parse U s = Inr u"
  by (simp add: parse_uuid_def split: sum.split)

lemma parse_uuid_Inl: "parse_uuid U s f = Inl e \<Longrightarrow> st_code e = InvalidArg"
  by (auto simp: parse_uuid_def split: sum.splits)

lemma proto_to_proposed_Inr_iff:
  "proto_to_proposed_event U p = Inr e \<longleftrightarrow> uu_parse U (pp_event_id p) = Inr (pe_event_id e) \<and>
     pe_event_type e = pp_event_type p \<and> pe_metadata e = pp_metadata p \<and> pe_payload e = pp_payload p"
  by (cases e) (auto simp: proto_to_proposed_event_def and_then_eq_Inr parse_uuid_Inr_iff)

lemma proto_to_proposed_Inl: "Inl e = proto_to_proposed_event U p \<Longrightarrow> st_code e = InvalidArg"
  by (auto simp: proto_to_proposed_event_def and_then_eq_Inl eq_commute [of "Inl e"] dest: parse_uuid_Inl)

lemma append_arguments_Inl: "append_arguments U req = Inl e \<Longrightarrow> st_code e = InvalidArg"
  by (auto simp: append_arguments_def and_then_eq_Inl
      proto_to_expected_version_def dest!: parse_uuid_Inl collect_results_Inl proto_to_proposed_Inl
      split: option.splits ev_kind.splits if_splits)

lemma append_arguments_Inr:
  "append_arguments U req = Inr (sid, ev, events) \<longleftrightarrow>
     uu_parse U (pa_stream_id req) = Inr sid \<and>
     proto_to_expected_version (pa_expected_version req) = Inr ev \<and>
     pa_events req \<noteq> [] \<and> map (proto_to_proposed_event U) (pa_events req) = map Inr events"
  by (auto simp: append_arguments_def and_then_eq_Inr parse_uuid_Inr_iff collect_results_Inr_iff)

subsection \<open>The append call through the writer\<close>

definition append_task :: "uuid \<times> expected_version \<times> proposed_event list \<Rightarrow> nat \<Rightarrow> append_request" where
  "append_task = (\<lambda>(sid, ev, events) token.
     \<lparr>ar_stream_id = sid, ar_expected_version = ev, ar_events = events, ar_response_tx = token\<rparr>)"

text \<open>
  The whole RPC: validation, the request served by the writer task, the answer taken from its
  oneshot. A request with bad arguments never reaches the writer.
\<close>

definition rpc_append ::
  "uuid_ops \<Rightarrow> ('c, 'ch, 'rx) writer_env \<Rightarrow> u64 \<Rightarrow> writer_io \<Rightarrow> nat \<Rightarrow> proto_append_request
     \<Rightarrow> ('c, 'ch) writer_state
     \<Rightarrow> (status + proto_append_response) option \<times> ('c, 'ch) writer_state" where
  "rpc_append U W ts io token req st =
     (let served = (\<lambda>sid ev events. process_request W ts (append_task (sid, ev, events) token, io) st);
          answer = (\<lambda>sid ev events. writer_handle_append True
                      (map_option snd (find (\<lambda>(t, r). t = token) (rev (ws_responses (served sid ev events))))))
      in (service_append U answer req,
          case append_arguments U req of
            Inl _ \<Rightarrow> st
          | Inr (sid, ev, events) \<Rightarrow> served sid ev events))"

lemma append_task_simps [simp]:
  "ar_stream_id (append_task (sid, ev, events) t) = sid"
  "ar_expected_version (append_task (sid, ev, events) t) = ev"
  "ar_events (append_task (sid, ev, events) t) = events"
  "ar_response_tx (append_task (sid, ev, events) t) = t"
  by (simp_all add: append_task_def)

lemma rpc_append_answer:
  assumes "append_arguments U req = Inr (sid, ev, events)"
    and "process_request W ts (append_task (sid, ev, events) token, io) st = st'"
    and "ws_responses st' = ws_responses st @ [(token, r)]"
  shows "rpc_append U W ts io token req st = (append_response U r, st')"
  using assms by (simp add: rpc_append_def service_append_def writer_handle_append_def Let_def)

context lru_cache
begin

definition answers_nonempty :: "'c dedup_index \<Rightarrow> bool" where
  "answers_nonempty d \<longleftrightarrow> (\<forall>kv \<in> set (entries (di_cache d)). snd kv \<noteq> [])"

lemma nonempty_step: "answers_nonempty d \<Longrightarrow> answers_nonempty (dedup_step L call d)"
proof (cases call)
  case (CheckCall ps)
  then show "answers_nonempty d \<Longrightarrow> ?thesis"
    using get_entries by (cases ps) (auto simp: answers_nonempty_def dedup_check_Cons)
next
  case (RecordCall rs)
  then show "answers_nonempty d \<Longrightarrow> ?thesis"
    using puts_entries [of re_event_id "\<lambda>_. rs" rs "di_cache d"]
    by (cases "rs = []") (fastforce simp: answers_nonempty_def dedup_record_def)+
qed

lemma nonempty_steps: "answers_nonempty d \<Longrightarrow> answers_nonempty (fold (dedup_step L) calls d)"
  by (induction calls arbitrary: d) (simp_all add: nonempty_step)

lemma nonempty_seeded: "answers_nonempty (seed_from_log L (dedup_new L n) es)"
  using puts_entries [of re_event_id "\<lambda>e. [e]" es "lru_new L n"]
  by (fastforce simp: answers_nonempty_def seed_from_log_def dedup_new_def entries_new)

lemma check_nonempty:
  "answers_nonempty d \<Longrightarrow> dedup_check L d ps = (Some v, d') \<Longrightarrow> v \<noteq> []"
  using check_entries(2) [of d ps "Some v" d' v] by (fastforce simp: answers_nonempty_def)

end

lemma writer_answers_nonempty:
  assumes "lru_cache (we_lru W) entries cap"
  shows "lru_cache.answers_nonempty entries (ws_dedup (run_writer W rounds (fst (spawn_writer W s b n m))))"
proof -
  obtain calls where "ws_dedup (run_writer W rounds (fst (spawn_writer W s b n m)))
      = fold (dedup_step (we_lru W)) calls (seed_from_log (we_lru W) (dedup_new (we_lru W) n) (el_events (st_log s)))"
    using run_calls [of W rounds "fst (spawn_writer W s b n m)"]
    by (auto simp: spawn_writer_def Let_def)
  then show ?thesis
    using lru_cache.nonempty_steps [OF assms lru_cache.nonempty_seeded [OF assms]] by metis
qed

text \<open>
  The Append RPC never panics. Whatever the request and whatever the writer served before, the
  handler returns a status or a response: an accepted batch is never empty, nor is an answer from
  the deduplication index.
\<close>

lemma append_rpc_total:
  assumes "lru_cache (we_lru W) entries cap"
    and "st = run_writer W rounds (fst (spawn_writer W s b n m))"
  shows "fst (rpc_append U W ts io token req st) \<noteq> None"
proof (cases "append_arguments U req")
  case (Inl e)
  then show ?thesis by (simp add: rpc_append_def service_append_def)
next
  case (Inr args)
  obtain sid ev events where args: "args = (sid, ev, events)" by (cases args)
  let ?q = "append_task (sid, ev, events) token"
  let ?st = "process_request W ts (?q, io) st"
  have ev: "events \<noteq> []" using Inr by (auto simp: args append_arguments_Inr)
  have "\<exists>r. ws_responses ?st = ws_responses st @ [(token, r)] \<and> (\<forall>rs. r = Inr rs \<longrightarrow> rs \<noteq> [])"
  proof (cases rule: process_request_cases [of ?q W ts io st])
    case (duplicate cached dedup)
    with lru_cache.check_nonempty [OF assms(1)] writer_answers_nonempty [OF assms(1)] assms(2)
    show ?thesis by (simp add: send_response_def) metis
  next
    case (appended dedup s' rs)
    then have "length rs = length events" by (auto simp: store_append_Inr_iff)
    with appended ev show ?thesis by (auto simp: send_response_def)
  qed (simp_all add: send_response_def)
  then obtain r where r: "ws_responses ?st = ws_responses st @ [(token, r)]" "\<forall>rs. r = Inr rs \<longrightarrow> rs \<noteq> []"
    by blast
  from rpc_append_answer [OF Inr [unfolded args] refl r(1)] r(2) show ?thesis
    by (auto simp: append_response_def Let_def split: sum.split)
qed

lemma rpc_append_fresh:
  assumes "append_arguments U req = Inr (sid, ev, events)"
    and "fst (dedup_check (we_lru W) (ws_dedup st) events) = None"
    and "rpc_append U W ts io token req st = (Some (Inr resp), st')"
  shows "\<exists>recorded. st' = process_request W ts (append_task (sid, ev, events) token, io) st \<and>
    store_append (we_crc W) (wi_append io) (ws_store st) sid ev ts events = (ws_store st', Inr recorded) \<and>
    append_response U (Inr recorded) = Some (Inr resp)"
proof -
  let ?q = "append_task (sid, ev, events) token"
  let ?st = "process_request W ts (?q, io) st"
  obtain r where r: "ws_responses ?st = ws_responses st @ [(token, r)]"
    using process_request_responds [of W ts ?q io st] by auto
  with rpc_append_answer [OF assms(1) refl r] assms(3)
  have st': "st' = ?st" and resp: "append_response U r = Some (Inr resp)" by auto
  show ?thesis
  proof (cases rule: process_request_cases [of ?q W ts io st])
    case (invalid m)
    with r have "r = Inl (InvalidArgument m)" by (auto simp: send_response_def)
    with resp show ?thesis by (simp add: append_response_def)
  next
    case (duplicate cached dedup)
    with assms(2) show ?thesis by simp
  next
    case (refused dedup s e)
    with r have "r = Inl e" by (auto simp: send_response_def)
    with resp show ?thesis by (simp add: append_response_def)
  next
    case (appended dedup s recorded)
    with r resp st' show ?thesis by (intro exI [of _ recorded]) (simp add: send_response_def)
  qed
qed

lemma recorded_matches:
  assumes "uuid_text (uu_str U) (uu_parse U)"
    and "store_append C io s sid ev ts events = (s', Inr recorded)"
    and "map (proto_to_proposed_event U) ps = map Inr events" and "i < length events"
  shows "uu_parse U (pr_event_id (recorded_to_proto U (recorded ! i))) = uu_parse U (pp_event_id (ps ! i))"
    and "pr_event_type (recorded_to_proto U (recorded ! i)) = pp_event_type (ps ! i)"
    and "pr_metadata (recorded_to_proto U (recorded ! i)) = pp_metadata (ps ! i)"
    and "pr_payload (recorded_to_proto U (recorded ! i)) = pp_payload (ps ! i)"
proof -
  have "length ps = length events" using arg_cong [OF assms(3), of length] by simp
  then have "proto_to_proposed_event U (ps ! i) = Inr (events ! i)"
    using assms(4) arg_cong [OF assms(3), of "\<lambda>xs. xs ! i"] by simp
  then have p: "uu_parse U (pp_event_id (ps ! i)) = Inr (pe_event_id (events ! i))"
    "pe_event_type (events ! i) = pp_event_type (ps ! i)" "pe_metadata (events ! i) = pp_metadata (ps ! i)"
    "pe_payload (events ! i) = pp_payload (ps ! i)"
    by (simp_all add: proto_to_proposed_Inr_iff)
  have "recorded ! i = mk_recorded sid ts (events ! i) (re_global_position (recorded ! i))
      (re_stream_version (recorded ! i))"
    using assms(2,4) by (auto simp: store_append_Inr_iff appended_def nth_number_events mk_recorded_def)
  then have r: "re_event_id (recorded ! i) = pe_event_id (events ! i)"
    "re_event_type (recorded ! i) = pe_event_type (events ! i)"
    "re_metadata (recorded ! i) = pe_metadata (events ! i)"
    "re_payload (recorded ! i) = pe_payload (events ! i)"
    by (metis mk_recorded_def recorded_event.select_convs)+
  show "uu_parse U (pr_event_id (recorded_to_proto U (recorded ! i))) = uu_parse U (pp_event_id (ps ! i))"
    "pr_event_type (recorded_to_proto U (recorded ! i)) = pp_event_type (ps ! i)"
    "pr_metadata (recorded_to_proto U (recorded ! i)) = pp_metadata (ps ! i)"
    "pr_payload (recorded_to_proto U (recorded ! i)) = pp_payload (ps ! i)"
    using p r uuid_text.parse_str [OF assms(1)] by (simp_all add: recorded_to_proto_def)
qed

text \<open>
  C15: what a client newly appends is what a client reads. Take an Append RPC that is not a retry as far as the
  server can tell: the deduplication index does not know the id of its first event. If it was answered with
  positions, a ReadStream RPC for the same stream from the first of them, for as many events as were sent,
  returns exactly these events: same ids, types, metadata and payloads, in order. (A call that the index
  takes for a retry is answered with the events recorded for the earlier one, whatever it carries itself.)
\<close>

theorem append_rpc_then_read:
  assumes "uuid_text (uu_str U) (uu_parse U)" and "log_wf (st_log (ws_store st))"
    and "length (log_events st) + length (pa_events req) < 2 ^ 64"
    and "append_arguments U req = Inr (sid, ev, events)"
    and "fst (dedup_check (we_lru W) (ws_dedup st) events) = None"
    and "rpc_append U W ts io token req st = (Some (Inr resp), st')"
  shows "\<exists>rs. fst (service_read_stream U (read_index_new (st_log (ws_store st'))) (pa_stream_id req)
      (px_first_stream_version resp) (of_nat (length (pa_events req))) m) = Some (Inr rs) \<and>
    map (\<lambda>r. (uu_parse U (pr_event_id r), pr_event_type r, pr_metadata r, pr_payload r)) rs =
    map (\<lambda>p. (uu_parse U (pp_event_id p), pp_event_type p, pp_metadata p, pp_payload p)) (pa_events req)"
proof -
  let ?q = "append_task (sid, ev, events) token"
  from assms(4) have parse: "uu_parse U (pa_stream_id req) = Inr sid" and ne: "pa_events req \<noteq> []"
    and evs: "map (proto_to_proposed_event U) (pa_events req) = map Inr events"
    by (auto simp: append_arguments_Inr)
  have len: "length events = length (pa_events req)" using arg_cong [OF evs, of length] by simp
  obtain recorded where st': "st' = process_request W ts (?q, io) st" and
    app: "store_append (we_crc W) (wi_append io) (ws_store st) sid ev ts events = (ws_store st', Inr recorded)"
    and resp: "append_response U (Inr recorded) = Some (Inr resp)"
    using rpc_append_fresh [OF assms(4-6)] by blast
  have first: "px_first_stream_version resp = re_stream_version (hd recorded)"
    using resp by (auto simp: append_response_def Let_def split: if_splits)
  have rl: "length recorded = length events" using app by (auto simp: store_append_Inr_iff)
  have "ri_read_stream (read_index_new (st_log (ws_store st'))) sid (re_stream_version (hd recorded))
      (of_nat (length recorded)) = Some (Inr recorded)"
    unfolding ri_of_store using ne len assms(3)
    by (intro append_read_back [OF assms(2) _ _ app]) (auto simp: log_events_def)
  then have "fst (service_read_stream U (read_index_new (st_log (ws_store st'))) (pa_stream_id req)
      (px_first_stream_version resp) (of_nat (length (pa_events req))) m)
      = Some (Inr (map (recorded_to_proto U) recorded))"
    using first rl len parse by (simp add: service_read_stream_def parse_uuid_Inr_iff [THEN iffD2] Let_def)
  moreover have "map (\<lambda>r. (uu_parse U (pr_event_id r), pr_event_type r, pr_metadata r, pr_payload r))
      (map (recorded_to_proto U) recorded) =
    map (\<lambda>p. (uu_parse U (pp_event_id p), pp_event_type p, pp_metadata p, pp_payload p)) (pa_events req)"
    using app evs len rl by (intro nth_equalityI) (simp_all add: recorded_matches [OF assms(1)])
  ultimately show ?thesis by blast
qed

text \<open>
  C27: a malformed Append request (an unparsable stream or event id, a missing expected version or an
  expected version without a kind, no events) is answered with \<open>INVALID_ARGUMENT\<close> and never reaches
  the writer: no state changes.
\<close>

theorem append_rpc_rejects_malformed:
  assumes "(\<exists>e. uu_parse U (pa_stream_id req) = Inl e) \<or> pa_expected_version req = None \<or>
    (\<exists>v. pa_expected_version req = Some v \<and> pv_kind v = None) \<or> pa_events req = [] \<or>
    (\<exists>p \<in> set (pa_events req). \<exists>e. uu_parse U (pp_event_id p) = Inl e)"
  shows "\<exists>m. rpc_append U W ts io token req st = (Some (Inl (Status InvalidArg m)), st)"
proof -
  have "append_arguments U req \<noteq> Inr (sid, ev, events)" for sid ev events
  proof
    assume "append_arguments U req = Inr (sid, ev, events)"
    then have a: "uu_parse U (pa_stream_id req) = Inr sid" "pa_events req \<noteq> []"
      "proto_to_expected_version (pa_expected_version req) = Inr ev"
      "map (proto_to_proposed_event U) (pa_events req) = map Inr events"
      by (simp_all add: append_arguments_Inr)
    have "\<forall>p \<in> set (pa_events req). \<exists>e. proto_to_proposed_event U p = Inr e"
      using arg_cong [OF a(4), of set] by (auto simp: set_eq_iff image_iff)
    then have "\<forall>p \<in> set (pa_events req). \<exists>u. uu_parse U (pp_event_id p) = Inr u"
      by (metis proto_to_proposed_Inr_iff)
    with a(1-3) assms show False by (fastforce simp: proto_to_expected_version_def)
  qed
  then obtain e where e: "append_arguments U req = Inl e"
    by (cases "append_arguments U req") auto
  then obtain m where "e = Status InvalidArg m" by (metis append_arguments_Inl status.collapse)
  with e show ?thesis by (simp add: rpc_append_def service_append_def)
qed

subsection \<open>The subscription gauge\<close>

definition is_running :: "'rx sub_stream \<Rightarrow> bool" where
  "is_running s \<longleftrightarrow> (case s of Running _ \<Rightarrow> True | _ \<Rightarrow> False)"

lemma is_running_simps [simp]: "\<not> is_running NotStarted" "is_running (Running sub)" "\<not> is_running Ended"
  by (simp_all add: is_running_def)

text \<open>Clients open, poll and drop response streams in any order.\<close>

datatype stream_op = OpenStream | PollStream nat | DropStream nat

fun streams_step ::
  "uuid_ops \<Rightarrow> (nat \<Rightarrow> 'ch broker \<Rightarrow> 'rx subscriber \<times> 'ch broker)
     \<Rightarrow> (nat \<Rightarrow> 'ch broker \<Rightarrow> 'rx subscriber \<Rightarrow> (item option \<times> 'rx subscriber) option)
     \<Rightarrow> stream_op \<Rightarrow> 'rx sub_stream list \<times> 'ch broker \<times> service_metrics
     \<Rightarrow> ('rx sub_stream list \<times> 'ch broker \<times> service_metrics) option" where
  "streams_step U subs steps OpenStream (ss, b, m) = Some (ss @ [NotStarted], b, m)"
| "streams_step U subs steps (PollStream i) (ss, b, m) =
     (if i < length ss
      then case service_sub_poll U (subs i) (steps i) (b, m) (ss ! i) of
             None \<Rightarrow> None
           | Some (_, s, b', m') \<Rightarrow> Some (ss[i := s], b', m')
      else Some (ss, b, m))"
| "streams_step U subs steps (DropStream i) (ss, b, m) =
     (if i < length ss
      then case service_sub_drop m (ss ! i) of (s, m') \<Rightarrow> Some (ss[i := s], b, m')
      else Some (ss, b, m))"

fun streams_run ::
  "uuid_ops \<Rightarrow> (nat \<Rightarrow> 'ch broker \<Rightarrow> 'rx subscriber \<times> 'ch broker)
     \<Rightarrow> (nat \<Rightarrow> 'ch broker \<Rightarrow> 'rx subscriber \<Rightarrow> (item option \<times> 'rx subscriber) option)
     \<Rightarrow> stream_op list \<Rightarrow> 'rx sub_stream list \<times> 'ch broker \<times> service_metrics
     \<Rightarrow> ('rx sub_stream list \<times> 'ch broker \<times> service_metrics) option" where
  "streams_run U subs steps [] y = Some y"
| "streams_run U subs steps (op # ops) y =
     (case streams_step U subs steps op y of None \<Rightarrow> None | Some y' \<Rightarrow> streams_run U subs steps ops y')"

definition count_running :: "'rx sub_stream list \<Rightarrow> int" where
  "count_running ss = (\<Sum>s \<leftarrow> ss. of_bool (is_running s))"

lemma count_running_update:
  "i < length ss \<Longrightarrow> count_running (ss[i := s])
     = count_running ss - of_bool (is_running (ss ! i)) + of_bool (is_running s)"
proof (induction ss arbitrary: i)
  case (Cons x xs)
  then show ?case by (cases i) (simp_all add: count_running_def)
qed simp

lemma count_running_filter: "count_running ss = int (length (filter is_running ss))"
  by (induction ss) (simp_all add: count_running_def)

lemma poll_gauge:
  assumes "service_sub_poll U subscribe step (b, m) s = Some (i, s', b', m')"
  shows "sm_subscriptions_active m' - sm_subscriptions_active m
     = of_bool (is_running s') - of_bool (is_running s)"
  using assms
  by (auto simp: service_sub_poll_def subscription_gauge_new_def subscription_gauge_drop_def
      split: sub_stream.splits prod.splits option.splits sum.splits if_splits)

lemma streams_step_gauge:
  assumes "streams_step U subs steps op (ss, b, m) = Some (ss', b', m')"
  shows "sm_subscriptions_active m' - sm_subscriptions_active m = count_running ss' - count_running ss"
proof (cases op)
  case OpenStream
  with assms show ?thesis by (auto simp: count_running_def)
next
  case (PollStream i)
  show ?thesis
  proof (cases "i < length ss")
    case True
    then obtain x s where p: "service_sub_poll U (subs i) (steps i) (b, m) (ss ! i) = Some (x, s, b', m')"
      "ss' = ss[i := s]"
      using assms PollStream by (auto split: option.splits)
    with poll_gauge [OF p(1)] True show ?thesis by (simp add: count_running_update)
  qed (use assms PollStream in auto)
next
  case (DropStream i)
  with assms show ?thesis
    by (cases "ss ! i") (auto simp: service_sub_drop_def subscription_gauge_drop_def
        count_running_update split: if_splits)
qed

lemma streams_run_gauge:
  assumes "streams_run U subs steps ops (ss, b, m) = Some (ss', b', m')"
  shows "sm_subscriptions_active m' - sm_subscriptions_active m = count_running ss' - count_running ss"
  using assms
proof (induction ops arbitrary: ss b m)
  case (Cons op ops)
  then obtain ss1 b1 m1 where "streams_step U subs steps op (ss, b, m) = Some (ss1, b1, m1)"
    "streams_run U subs steps ops (ss1, b1, m1) = Some (ss', b', m')"
    by (auto split: option.splits)
  with streams_step_gauge Cons.IH show ?case by fastforce
qed simp

text \<open>
  C29: the active-subscriptions gauge is exact. Whatever the clients do (open, poll to the end, lag
  out, disconnect in the middle, disconnect before the first poll), the gauge equals the number of
  response streams that are running.
\<close>

theorem subscription_gauge_exact:
  assumes "streams_run U subs steps ops ([], b, m) = Some (ss, b', m')"
    and "sm_subscriptions_active m = 0"
  shows "sm_subscriptions_active m' = int (length (filter is_running ss))"
  using streams_run_gauge [OF assms(1)] assms(2) count_running_filter [of ss]
  by (simp add: count_running_def)

subsection \<open>Concrete calls\<close>

definition demo_uuid_ops :: uuid_ops where
  "demo_uuid_ops = \<lparr>uu_str = uuid_hyphenated, uu_parse = uuid_parse_hyphenated\<rparr>"

definition demo_proto_event :: "nat \<Rightarrow> proto_proposed_event" where
  "demo_proto_event n = \<lparr>pp_event_id = uuid_hyphenated (of_nat n), pp_event_type = ascii ''Ab'',
     pp_metadata = [], pp_payload = [2]\<rparr>"

definition demo_proto_request :: proto_append_request where
  "demo_proto_request = \<lparr>pa_stream_id = uuid_hyphenated 1,
     pa_expected_version = Some \<lparr>pv_kind = Some KindAny\<rparr>,
     pa_events = [demo_proto_event 4, demo_proto_event 5]\<rparr>"

lemma demo_uuid_text: "uuid_text (uu_str demo_uuid_ops) (uu_parse demo_uuid_ops)"
  using hyphenated.uuid_text_axioms by (simp add: demo_uuid_ops_def)

lemma demo_proto_to_proposed:
  "proto_to_proposed_event demo_uuid_ops (demo_proto_event n) = Inr (demo_proposed n)"
  by (simp add: proto_to_proposed_Inr_iff demo_uuid_ops_def demo_proto_event_def demo_proposed_def
      hyphenated.parse_str)

lemma demo_arguments:
  "append_arguments demo_uuid_ops demo_proto_request = Inr (1, Any, [demo_proposed 4, demo_proposed 5])"
  using demo_proto_to_proposed [of 4] demo_proto_to_proposed [of 5]
  by (simp add: append_arguments_Inr demo_proto_request_def proto_to_expected_version_def)
    (simp add: demo_uuid_ops_def hyphenated.parse_str)

lemma demo_task: "append_task (1, Any, [demo_proposed 4, demo_proposed 5]) 7 = demo_request"
  by (simp add: append_task_def demo_request_def)

lemma demo_rpc:
  "\<exists>resp st. rpc_append demo_uuid_ops demo_env 9 writer_io_ok 7 demo_proto_request demo_writer
     = (Some (Inr resp), st)"
proof -
  have r: "ws_responses demo_writer = []" by (simp add: demo_writer_def spawn_writer_def Let_def)
  have "rpc_append demo_uuid_ops demo_env 9 writer_io_ok 7 demo_proto_request demo_writer
      = (append_response demo_uuid_ops (Inr (appended demo_store 1 9 [demo_proposed 4, demo_proposed 5])),
         process_request demo_env 9 (demo_request, writer_io_ok) demo_writer)"
    by (rule rpc_append_answer [OF demo_arguments]) (simp_all add: demo_task demo_process r)
  then show ?thesis by (simp add: append_response_def demo_batch Let_def)
qed

theorem append_rpc_then_read_witness:
  "\<exists>resp st rs. rpc_append demo_uuid_ops demo_env 9 writer_io_ok 7 demo_proto_request demo_writer
       = (Some (Inr resp), st) \<and>
     fst (service_read_stream demo_uuid_ops (read_index_new (st_log (ws_store st))) (uuid_hyphenated 1)
       (px_first_stream_version resp) 2 \<lparr>sm_reads_stream = 0, sm_reads_all = 0, sm_subscriptions_active = 0\<rparr>)
       = Some (Inr rs) \<and> map pr_payload rs = [[2], [2]]"
proof -
  obtain resp st where r: "rpc_append demo_uuid_ops demo_env 9 writer_io_ok 7 demo_proto_request demo_writer
       = (Some (Inr resp), st)" using demo_rpc by blast
  have w: "ws_store demo_writer = demo_store" by (simp add: demo_writer_def spawn_writer_def Let_def)
  have "\<exists>rs. fst (service_read_stream demo_uuid_ops (read_index_new (st_log (ws_store st)))
      (pa_stream_id demo_proto_request) (px_first_stream_version resp)
      (of_nat (length (pa_events demo_proto_request)))
      \<lparr>sm_reads_stream = 0, sm_reads_all = 0, sm_subscriptions_active = 0\<rparr>) = Some (Inr rs) \<and>
    map (\<lambda>r. (uu_parse demo_uuid_ops (pr_event_id r), pr_event_type r, pr_metadata r, pr_payload r)) rs =
    map (\<lambda>p. (uu_parse demo_uuid_ops (pp_event_id p), pp_event_type p, pp_metadata p, pp_payload p))
      (pa_events demo_proto_request)"
    by (rule append_rpc_then_read [OF demo_uuid_text _ _ demo_arguments _ r])
      (use demo_check log_wf_demo in \<open>simp_all add: w log_events_def demo_proto_request_def,
        simp add: demo_store_def empty_log_def\<close>)
  then obtain rs where rs: "fst (service_read_stream demo_uuid_ops (read_index_new (st_log (ws_store st)))
      (uuid_hyphenated 1) (px_first_stream_version resp) 2
      \<lparr>sm_reads_stream = 0, sm_reads_all = 0, sm_subscriptions_active = 0\<rparr>) = Some (Inr rs)"
    "map pr_payload rs = map pp_payload (pa_events demo_proto_request)"
    by (auto simp: demo_proto_request_def dest!: arg_cong [where f = "map (snd \<circ> snd \<circ> snd)"]
        simp: comp_def)
  with r show ?thesis by (auto simp: demo_proto_request_def demo_proto_event_def)
qed

theorem append_rpc_rejects_malformed_witness:
  "\<exists>m. rpc_append demo_uuid_ops demo_env 9 writer_io_ok 7 (demo_proto_request\<lparr>pa_events := []\<rparr>) demo_writer
     = (Some (Inl (Status InvalidArg m)), demo_writer)"
  by (rule append_rpc_rejects_malformed) simp

theorem subscription_gauge_exact_witness:
  "\<exists>b m. streams_run demo_uuid_ops (\<lambda>_ b. subscribe_all bc_list_ops b 0)
       (\<lambda>_. subscribe_all_step bc_list_ops (read_index_new empty_log))
       [OpenStream, OpenStream, PollStream 0, DropStream 1]
       ([], broker_new bc_list_ops 16, \<lparr>sm_reads_stream = 0, sm_reads_all = 0, sm_subscriptions_active = 0\<rparr>)
       = Some ([Running (fst (subscribe_all bc_list_ops (broker_new bc_list_ops 16) 0)), Ended], b, m) \<and>
     sm_subscriptions_active m = 1"
proof -
  obtain b m where r: "streams_run demo_uuid_ops (\<lambda>_ b. subscribe_all bc_list_ops b 0)
       (\<lambda>_. subscribe_all_step bc_list_ops (read_index_new empty_log))
       [OpenStream, OpenStream, PollStream 0, DropStream 1]
       ([], broker_new bc_list_ops 16, \<lparr>sm_reads_stream = 0, sm_reads_all = 0, sm_subscriptions_active = 0\<rparr>)
       = Some ([Running (fst (subscribe_all bc_list_ops (broker_new bc_list_ops 16) 0)), Ended], b, m)"
    by (simp add: service_sub_poll_def service_sub_drop_def case_prod_beta)
  from subscription_gauge_exact [OF r] r show ?thesis by auto
qed

end
