(* ===== verification/Auth.thy ===== *)
theory Auth
  imports Service
begin

text \<open>
  The JWT interceptor of \<open>src/auth.rs\<close>. Token decoding is the \<open>jsonwebtoken\<close> crate's and header text
  the \<open>http\<close> crate's, so both are parameters (\<open>jwt_ops\<close>); the locale \<open>jwt_decoder\<close> states what a
  successful decode guarantees.
\<close>

datatype jwt_algorithm = HS256

record jwt_validation =
  jv_algorithm :: jwt_algorithm
  jv_validate_exp :: bool
  jv_leeway :: nat
  jv_required_spec_claims :: "string list"

record claims =
  cl_sub :: string
  cl_exp :: u64

record 'key jwt_ops =
  jw_key_from_secret :: "string \<Rightarrow> 'key"
  jw_decode :: "nat \<Rightarrow> string \<Rightarrow> 'key \<Rightarrow> jwt_validation \<Rightarrow> string + claims"
  jw_to_str :: "bytes \<Rightarrow> string option"

record 'key jwt_interceptor =
  ji_decoding_key :: 'key
  ji_validation :: jwt_validation

definition jwt_interceptor_new :: "'key jwt_ops \<Rightarrow> string \<Rightarrow> 'key jwt_interceptor" where
  "jwt_interceptor_new J secret =
     \<lparr>ji_decoding_key = jw_key_from_secret J secret,
      ji_validation = \<lparr>jv_algorithm = HS256, jv_validate_exp = True, jv_leeway = 0,
                       jv_required_spec_claims = [''exp'', ''sub'']\<rparr>\<rparr>"

definition strip_prefix :: "string \<Rightarrow> string \<Rightarrow> string option" where
  "strip_prefix p s = (if take (length p) s = p then Some (drop (length p) s) else None)"

lemma strip_prefix_Some_iff: "strip_prefix p s = Some t \<longleftrightarrow> s = p @ t"
  by (auto simp: strip_prefix_def) (metis append_take_drop_id)

text \<open>
  The call at time \<open>now\<close> (in seconds) for a request whose \<open>authorization\<close> metadata is \<open>header\<close>; \<open>Inr\<close>
  passes the request on unchanged.
\<close>

definition jwt_call ::
  "'key jwt_ops \<Rightarrow> nat \<Rightarrow> 'key jwt_interceptor \<Rightarrow> bytes option \<Rightarrow> status + unit" where
  "jwt_call J now i header =
     (case header of
        None \<Rightarrow> Inl (Status Unauthenticated ''missing authorization header'')
      | Some hval \<Rightarrow>
          (case jw_to_str J hval of
             None \<Rightarrow> Inl (Status Unauthenticated ''missing authorization header'')
           | Some token_str \<Rightarrow>
               (case strip_prefix ''Bearer '' token_str of
                  None \<Rightarrow> Inl (Status Unauthenticated ''invalid authorization header format'')
                | Some token \<Rightarrow>
                    (case jw_decode J now token (ji_decoding_key i) (ji_validation i) of
                       Inr _ \<Rightarrow> Inr ()
                     | Inl e \<Rightarrow> Inl (Status Unauthenticated e)))))"

subsection \<open>What a decode guarantees\<close>

text \<open>
  \<open>signed key tok c\<close>: \<open>tok\<close> is a well-formed HS256 token over claims \<open>c\<close> with a valid signature for \<open>key\<close>.
\<close>

locale jwt_decoder =
  fixes J :: "'key jwt_ops"
    and signed :: "'key \<Rightarrow> string \<Rightarrow> claims \<Rightarrow> bool"
  assumes decode_signed: "jw_decode J now tok key v = Inr c \<Longrightarrow> signed key tok c"
    and decode_unexpired: "jw_decode J now tok key v = Inr c \<Longrightarrow> jv_validate_exp v \<Longrightarrow>
          now \<le> unat (cl_exp c) + jv_leeway v"
begin

lemma call_admits:
  assumes "jwt_call J now (jwt_interceptor_new J secret) header = Inr ()"
  shows "\<exists>hval tok c. header = Some hval \<and> jw_to_str J hval = Some (''Bearer '' @ tok) \<and>
    signed (jw_key_from_secret J secret) tok c \<and> now \<le> unat (cl_exp c)"
proof -
  from assms obtain hval ts tok c where
    h: "header = Some hval" "jw_to_str J hval = Some ts" "strip_prefix ''Bearer '' ts = Some tok" and
    d: "jw_decode J now tok (jw_key_from_secret J secret)
          (ji_validation (jwt_interceptor_new J secret)) = Inr c"
    by (auto simp: jwt_call_def jwt_interceptor_new_def split: option.splits sum.splits)
  have "ts = ''Bearer '' @ tok" using h(3) by (simp only: strip_prefix_Some_iff)
  moreover have "now \<le> unat (cl_exp c)"
    using decode_unexpired [OF d] by (simp add: jwt_interceptor_new_def)
  ultimately show ?thesis using h(1,2) decode_signed [OF d] by blast
qed

end

lemma jwt_call_cases:
  "jwt_call J now i header = Inr () \<or> (\<exists>m. jwt_call J now i header = Inl (Status Unauthenticated m))"
  by (auto simp: jwt_call_def split: option.splits sum.splits)

text \<open>
  A decoder with the documented behaviour over an ideal signature: a token is its key, subject and
  expiry separated by dots.
\<close>

fun split_dot :: "string \<Rightarrow> string list" where
  "split_dot [] = [[]]"
| "split_dot (c # cs) =
     (if c = CHR ''.'' then [] # split_dot cs
      else case split_dot cs of [] \<Rightarrow> [[c]] | w # ws \<Rightarrow> (c # w) # ws)"

definition ideal_signed :: "string \<Rightarrow> string \<Rightarrow> claims \<Rightarrow> bool" where
  "ideal_signed key tok c \<longleftrightarrow> split_dot tok = [key, cl_sub c, u64_to_string (cl_exp c)]"

definition ideal_jwt :: "string jwt_ops" where
  "ideal_jwt = \<lparr>jw_key_from_secret = (\<lambda>s. s),
     jw_decode = (\<lambda>now tok key v.
       case split_dot tok of
         [k, sub, e] \<Rightarrow>
           (let x = of_nat (dec_val e 0) in
            if k \<noteq> key \<or> u64_to_string x \<noteq> e then Inl ''InvalidSignature''
            else if jv_validate_exp v \<and> unat x + jv_leeway v < now then Inl ''ExpiredSignature''
            else Inr \<lparr>cl_sub = sub, cl_exp = x\<rparr>)
       | _ \<Rightarrow> Inl ''InvalidToken''),
     jw_to_str = (\<lambda>bs. if list_all (\<lambda>b. 32 \<le> b \<and> b < 127) bs
                       then Some (map (\<lambda>b. char_of (unat b)) bs) else None)\<rparr>"

interpretation ideal: jwt_decoder ideal_jwt ideal_signed
proof
  fix now tok key v c
  assume d: "jw_decode ideal_jwt now tok key v = Inr c"
  obtain k sub e where t: "split_dot tok = [k, sub, e]"
  proof (cases "split_dot tok" rule: remdups_adj.cases)
    case (3 k sub ws)
    with d that show thesis by (cases ws; cases "tl ws") (auto simp: ideal_jwt_def)
  qed (use d in \<open>auto simp: ideal_jwt_def\<close>)
  with d show "ideal_signed key tok c"
    by (auto simp: ideal_jwt_def ideal_signed_def Let_def split: if_splits)
  from d t show "jv_validate_exp v \<Longrightarrow> now \<le> unat (cl_exp c) + jv_leeway v"
    by (auto simp: ideal_jwt_def Let_def split: if_splits)
qed

end
