(* ===== verification/Metrics.thy ===== *)
theory Metrics
  imports Domain_Types
begin

text \<open>
  The metrics endpoint of \<open>src/metrics.rs\<close>. The process-wide \<open>OnceLock\<close> is a state component; the
  Prometheus recorder and the HTTP framework are parameters: \<open>install\<close> is the handle the exporter
  would return, \<open>render\<close> the exposition text of a handle, and a bind may fail.
\<close>

datatype metrics_error = AlreadyInstalled

record 'h metrics_handle =
  mh_inner :: 'h

definition metrics_render :: "('h \<Rightarrow> string) \<Rightarrow> 'h metrics_handle \<Rightarrow> string" where
  "metrics_render render h = render (mh_inner h)"

type_synonym 'h recorder_lock = "'h metrics_handle option"

definition install_recorder ::
  "'h \<Rightarrow> 'h recorder_lock \<Rightarrow> (metrics_error + 'h metrics_handle) \<times> 'h recorder_lock" where
  "install_recorder prom lock =
     (case lock of
        None \<Rightarrow> (let h = \<lparr>mh_inner = prom\<rparr> in (Inr h, Some h))
      | Some h \<Rightarrow> (Inl AlreadyInstalled, Some h))"

definition get_installed_handle :: "'h recorder_lock \<Rightarrow> 'h metrics_handle option" where
  "get_installed_handle lock = lock"

text \<open>
  The handler of \<open>GET /metrics\<close>: content type and body; no other route exists. A \<open>get\<close> route of the
  framework also answers \<open>HEAD\<close>, without the body.
\<close>

definition metrics_router ::
  "('h \<Rightarrow> string) \<Rightarrow> 'h metrics_handle \<Rightarrow> string \<times> string \<Rightarrow> (string \<times> string) option" where
  "metrics_router render h = (\<lambda>(method, path).
     if path = ''/metrics'' \<and> method = ''GET''
     then Some (''text/plain; version=0.0.4'', metrics_render render h)
     else if path = ''/metrics'' \<and> method = ''HEAD'' then Some (''text/plain; version=0.0.4'', [])
     else None)"

text \<open>
  The server task: \<open>None\<close> when binding failed (the task ends at once), otherwise the bound address
  with the router it serves.
\<close>

definition serve_metrics ::
  "('h \<Rightarrow> string) \<Rightarrow> 'h metrics_handle \<Rightarrow> io_error + 'addr
     \<Rightarrow> ('addr \<times> (string \<times> string \<Rightarrow> (string \<times> string) option)) option" where
  "serve_metrics render h bind =
     (case bind of Inl e \<Rightarrow> None | Inr a \<Rightarrow> Some (a, metrics_router render h))"

definition serve_metrics_on_listener ::
  "('h \<Rightarrow> string) \<Rightarrow> 'h metrics_handle \<Rightarrow> 'addr
     \<Rightarrow> 'addr \<times> (string \<times> string \<Rightarrow> (string \<times> string) option)" where
  "serve_metrics_on_listener render h a = (a, metrics_router render h)"

subsection \<open>The recorder is installed once\<close>

fun install_all :: "'h list \<Rightarrow> 'h recorder_lock \<Rightarrow> (metrics_error + 'h metrics_handle) list \<times> 'h recorder_lock" where
  "install_all [] lock = ([], lock)"
| "install_all (p # ps) lock =
     (let (r, lock') = install_recorder p lock; (rs, lock'') = install_all ps lock'
      in (r # rs, lock''))"

lemma install_all_installed:
  "install_all ps (Some h) = (replicate (length ps) (Inl AlreadyInstalled), Some h)"
  by (induction ps) (simp_all add: install_recorder_def)

lemma install_all_first:
  "install_all (p # ps) None =
     (Inr \<lparr>mh_inner = p\<rparr> # replicate (length ps) (Inl AlreadyInstalled), Some \<lparr>mh_inner = p\<rparr>)"
  by (simp add: install_recorder_def install_all_installed Let_def)

end
