(* ===== verification/Server.thy ===== *)
theory Server
  imports Auth Metrics
begin

text \<open>
  The server binary of \<open>src/main.rs\<close>: configuration from the environment, start-up and authenticated
  requests; the end of the process is in \<open>Shutdown\<close>. The environment is a map (\<open>None\<close>: unset or not Unicode); the standard
  library's socket address parser and every effect that can fail are arguments. Logging is left out.
\<close>

subsection \<open>Configuration\<close>

record tls_config =
  tc_cert_path :: string
  tc_key_path :: string
  tc_ca_path :: "string option"

record 'addr config =
  cf_data_path :: string
  cf_listen_addr :: 'addr
  cf_broker_capacity :: nat
  cf_dedup_capacity :: nat
  cf_tls :: "tls_config option"
  cf_metrics_listen :: "'addr option"
  cf_jwt_secret :: "string option"

definition DEFAULT_LISTEN_ADDR :: string where "DEFAULT_LISTEN_ADDR = ''[::]:2113''"
definition DEFAULT_BROKER_CAPACITY :: nat where "DEFAULT_BROKER_CAPACITY = 4096"
definition DEFAULT_DEDUP_CAPACITY :: nat where "DEFAULT_DEDUP_CAPACITY = 65536"
definition DEFAULT_METRICS_LISTEN_ADDR :: string where "DEFAULT_METRICS_LISTEN_ADDR = ''[::]:9090''"

text \<open>An error message that \<open>from_env\<close> returns, or a panic inside it; \<open>server_main\<close> keeps them apart.\<close>

datatype failure = Failed string | Panic string

type_synonym env_vars = "string \<Rightarrow> string option"

definition listen_from_env :: "(string \<Rightarrow> string + 'addr) \<Rightarrow> env_vars \<Rightarrow> failure + 'addr" where
  "listen_from_env parse_addr var =
     (case var ''EVENTFOLD_LISTEN'' of
        Some v \<Rightarrow>
          (case parse_addr v of
             Inl e \<Rightarrow> Inl (Failed (''EVENTFOLD_LISTEN is not a valid socket address: '' @ e))
           | Inr a \<Rightarrow> Inr a)
      | None \<Rightarrow>
          (case parse_addr DEFAULT_LISTEN_ADDR of
             Inl e \<Rightarrow> Inl (Panic ''default listen address is valid'')
           | Inr a \<Rightarrow> Inr a))"

definition broker_capacity_from_env :: "env_vars \<Rightarrow> failure + nat" where
  "broker_capacity_from_env var =
     (case var ''EVENTFOLD_BROKER_CAPACITY'' of
        Some v \<Rightarrow>
          (case parse_usize v of
             Inl e \<Rightarrow> Inl (Failed (''EVENTFOLD_BROKER_CAPACITY is not a valid usize: '' @ int_error_display e))
           | Inr n \<Rightarrow> Inr n)
      | None \<Rightarrow> Inr DEFAULT_BROKER_CAPACITY)"

definition dedup_capacity_from_env :: "env_vars \<Rightarrow> failure + nat" where
  "dedup_capacity_from_env var =
     (case var ''EVENTFOLD_DEDUP_CAPACITY'' of
        Some v \<Rightarrow>
          (case parse_usize v of
             Inl e \<Rightarrow> Inl (Failed (''EVENTFOLD_DEDUP_CAPACITY is not a valid usize: '' @ int_error_display e))
           | Inr raw \<Rightarrow>
               if raw = 0 then Inl (Failed ''EVENTFOLD_DEDUP_CAPACITY must be nonzero'') else Inr raw)
      | None \<Rightarrow> Inr DEFAULT_DEDUP_CAPACITY)"

definition metrics_listen_from_env ::
  "(string \<Rightarrow> string + 'addr) \<Rightarrow> env_vars \<Rightarrow> failure + 'addr option" where
  "metrics_listen_from_env parse_addr var =
     (case var ''EVENTFOLD_METRICS_LISTEN'' of
        Some v \<Rightarrow>
          if v = [] then Inr None
          else (case parse_addr v of
                  Inl e \<Rightarrow> Inl (Failed (''EVENTFOLD_METRICS_LISTEN is not a valid socket address: '' @ e))
                | Inr a \<Rightarrow> Inr (Some a))
      | None \<Rightarrow>
          (case parse_addr DEFAULT_METRICS_LISTEN_ADDR of
             Inl e \<Rightarrow> Inl (Panic ''default metrics listen address is valid'')
           | Inr a \<Rightarrow> Inr (Some a)))"

definition tls_from_env :: "env_vars \<Rightarrow> failure + tls_config option" where
  "tls_from_env var =
     (case (var ''EVENTFOLD_TLS_CERT'', var ''EVENTFOLD_TLS_KEY'', var ''EVENTFOLD_TLS_CA'') of
        (None, None, None) \<Rightarrow> Inr None
      | (Some cert, Some key, ca) \<Rightarrow>
          Inr (Some \<lparr>tc_cert_path = cert, tc_key_path = key, tc_ca_path = ca\<rparr>)
      | (Some _, None, _) \<Rightarrow> Inl (Failed ''EVENTFOLD_TLS_CERT is set but EVENTFOLD_TLS_KEY is missing'')
      | (None, Some _, _) \<Rightarrow> Inl (Failed ''EVENTFOLD_TLS_KEY is set but EVENTFOLD_TLS_CERT is missing'')
      | (None, None, Some _) \<Rightarrow> Inl (Failed
          ''EVENTFOLD_TLS_CA is set but EVENTFOLD_TLS_CERT and EVENTFOLD_TLS_KEY are both missing''))"

definition jwt_secret_from_env :: "env_vars \<Rightarrow> string option" where
  "jwt_secret_from_env var =
     (case var ''EVENTFOLD_JWT_SECRET'' of
        Some v \<Rightarrow> if v \<noteq> [] then Some v else None
      | None \<Rightarrow> None)"

definition config_from_env :: "(string \<Rightarrow> string + 'addr) \<Rightarrow> env_vars \<Rightarrow> failure + 'addr config" where
  "config_from_env parse_addr var =
     (case var ''EVENTFOLD_DATA'' of
        None \<Rightarrow> Inl (Failed ''EVENTFOLD_DATA environment variable is required'')
      | Some data_path \<Rightarrow>
          and_then (listen_from_env parse_addr var) (\<lambda>listen_addr.
          and_then (broker_capacity_from_env var) (\<lambda>broker_capacity.
          and_then (dedup_capacity_from_env var) (\<lambda>dedup_capacity.
          and_then (metrics_listen_from_env parse_addr var) (\<lambda>metrics_listen.
          and_then (tls_from_env var) (\<lambda>tls.
          Inr \<lparr>cf_data_path = data_path, cf_listen_addr = listen_addr,
               cf_broker_capacity = broker_capacity, cf_dedup_capacity = dedup_capacity,
               cf_tls = tls, cf_metrics_listen = metrics_listen,
               cf_jwt_secret = jwt_secret_from_env var\<rparr>))))))"

subsection \<open>Start-up\<close>

text \<open>
  The results of the effects of \<open>main\<close>: opening the log, installing the recorder, reading the PEM
  files, building the TLS configuration, binding, asking the listener for its address. \<open>tokio::sync::broadcast::channel\<close> documents a panic
  for a capacity of zero or above half of \<open>usize\<close>.
\<close>

record 'h startup_io =
  su_open :: open_io
  su_prom :: 'h
  su_cert :: "io_error + bytes"
  su_key :: "io_error + bytes"
  su_ca :: "io_error + bytes"
  su_tls_error :: "string option"
  su_bind_error :: "io_error option"
  su_local_addr_error :: "io_error option"

datatype 'a startup = Exited nat | Panicked string | Started 'a

datatype tls_mode = Plaintext | Tls | MutualTls

record ('key, 'addr, 'c, 'ch) server =
  sv_writer :: "('c, 'ch) writer_state"
  sv_auth :: "'key jwt_interceptor option"
  sv_tls :: tls_mode
  sv_metrics :: "'addr option"
  sv_listen :: 'addr
  sv_serving_all :: bool
  sv_serving_store :: bool

definition channel_panics :: "nat \<Rightarrow> bool" where
  "channel_panics capacity \<longleftrightarrow> capacity = 0 \<or> (2 ^ 64 - 1) div 2 < capacity"

definition tls_setup :: "'h startup_io \<Rightarrow> tls_config option \<Rightarrow> tls_mode option" where
  "tls_setup io tls =
     (case tls of
        None \<Rightarrow> Some Plaintext
      | Some t \<Rightarrow>
          (case su_cert io of Inl _ \<Rightarrow> None
           | Inr cert \<Rightarrow>
          (case su_key io of Inl _ \<Rightarrow> None
           | Inr key \<Rightarrow>
          (case tc_ca_path t of
             Some ca_path \<Rightarrow>
               (case su_ca io of Inl _ \<Rightarrow> None
                | Inr ca \<Rightarrow> if su_tls_error io = None then Some MutualTls else None)
           | None \<Rightarrow> if su_tls_error io = None then Some Tls else None))))"

definition server_main ::
  "('c, 'ch, 'rx) writer_env \<Rightarrow> 'key jwt_ops \<Rightarrow> (string \<Rightarrow> string + 'addr) \<Rightarrow> writer_metrics \<Rightarrow> env_vars
     \<Rightarrow> 'h startup_io \<Rightarrow> (string \<Rightarrow> bytes option) \<Rightarrow> 'h recorder_lock
     \<Rightarrow> (string \<Rightarrow> bytes option) \<times> 'h recorder_lock \<times> ('key, 'addr, 'c, 'ch) server startup" where
  "server_main W J parse_addr m0 var io files lock =
     (case config_from_env parse_addr var of
        Inl (Failed msg) \<Rightarrow> (files, lock, Exited 1)
      | Inl (Panic msg) \<Rightarrow> (files, lock, Panicked msg)
      | Inr config \<Rightarrow>
     (case store_open (we_crc W) (su_open io) (files (cf_data_path config)) of
        (file, r) \<Rightarrow>
     (let files' = files(cf_data_path config := file) in
      case r of
        Inl e \<Rightarrow> (files', lock, Exited 1)
      | Inr store \<Rightarrow>
      if channel_panics (cf_broker_capacity config)
      then (files', lock, Panicked ''broadcast channel capacity'')
      else
      let broker = broker_new (we_bc W) (cf_broker_capacity config);
          (writer, read_index) = spawn_writer W store broker (cf_dedup_capacity config) m0
      in case install_recorder (su_prom io) lock of
           (Inl e, lock') \<Rightarrow> (files', lock', Exited 1)
         | (Inr handle, lock') \<Rightarrow>
      (case tls_setup io (cf_tls config) of
         None \<Rightarrow> (files', lock', Exited 1)
       | Some tls \<Rightarrow>
      (case su_bind_error io of
         Some e \<Rightarrow> (files', lock', Exited 1)
       | None \<Rightarrow>
      (case su_local_addr_error io of
         Some e \<Rightarrow> (files', lock', Panicked ''bound listener should have a local address'')
       | None \<Rightarrow>
           (files', lock', Started
              \<lparr>sv_writer = writer,
               sv_auth = map_option (jwt_interceptor_new J) (cf_jwt_secret config),
               sv_tls = tls, sv_metrics = cf_metrics_listen config,
               sv_listen = cf_listen_addr config,
               sv_serving_all = True, sv_serving_store = True\<rparr>)))))))"

subsection \<open>Requests\<close>

text \<open>The intercepted Append call: with a secret configured, the interceptor runs first.\<close>

definition server_append ::
  "uuid_ops \<Rightarrow> ('c, 'ch, 'rx) writer_env \<Rightarrow> 'key jwt_ops \<Rightarrow> nat \<Rightarrow> bytes option \<Rightarrow> u64 \<Rightarrow> writer_io
     \<Rightarrow> nat \<Rightarrow> proto_append_request \<Rightarrow> ('key, 'addr, 'c, 'ch) server
     \<Rightarrow> (status + proto_append_response) option \<times> ('key, 'addr, 'c, 'ch) server" where
  "server_append U W J now header ts io token req sv =
     (let run = (case rpc_append U W ts io token req (sv_writer sv) of
                   (r, writer) \<Rightarrow> (r, sv\<lparr>sv_writer := writer\<rparr>))
      in case sv_auth sv of
           None \<Rightarrow> run
         | Some i \<Rightarrow>
             (case jwt_call J now i header of
                Inl s \<Rightarrow> (Some (Inl s), sv)
              | Inr _ \<Rightarrow> run))"

subsection \<open>Which configurations are accepted\<close>

lemma listen_Inr_iff:
  "listen_from_env P var = Inr a \<longleftrightarrow>
     (case var ''EVENTFOLD_LISTEN'' of None \<Rightarrow> P DEFAULT_LISTEN_ADDR | Some v \<Rightarrow> P v) = Inr a"
  by (auto simp: listen_from_env_def split: option.splits sum.splits)

lemma broker_capacity_Inr_iff:
  "broker_capacity_from_env var = Inr n \<longleftrightarrow>
     (case var ''EVENTFOLD_BROKER_CAPACITY'' of None \<Rightarrow> n = DEFAULT_BROKER_CAPACITY
      | Some v \<Rightarrow> parse_usize v = Inr n)"
  by (auto simp: broker_capacity_from_env_def split: option.splits sum.splits)

lemma dedup_capacity_Inr_iff:
  "dedup_capacity_from_env var = Inr n \<longleftrightarrow>
     (case var ''EVENTFOLD_DEDUP_CAPACITY'' of None \<Rightarrow> n = DEFAULT_DEDUP_CAPACITY
      | Some v \<Rightarrow> parse_usize v = Inr n \<and> n \<noteq> 0)"
  by (auto simp: dedup_capacity_from_env_def split: option.splits sum.splits)

lemma metrics_listen_Inr_iff:
  "metrics_listen_from_env P var = Inr a \<longleftrightarrow>
     (case var ''EVENTFOLD_METRICS_LISTEN'' of
        None \<Rightarrow> map_sum id Some (P DEFAULT_METRICS_LISTEN_ADDR) = Inr a
      | Some v \<Rightarrow> if v = [] then a = None else map_sum id Some (P v) = Inr a)"
  by (auto simp: metrics_listen_from_env_def split: option.splits sum.splits)

lemma tls_Inr_iff:
  "tls_from_env var = Inr t \<longleftrightarrow>
     (case t of
        None \<Rightarrow> var ''EVENTFOLD_TLS_CERT'' = None \<and> var ''EVENTFOLD_TLS_KEY'' = None \<and>
                var ''EVENTFOLD_TLS_CA'' = None
      | Some c \<Rightarrow> var ''EVENTFOLD_TLS_CERT'' = Some (tc_cert_path c) \<and>
                var ''EVENTFOLD_TLS_KEY'' = Some (tc_key_path c) \<and>
                var ''EVENTFOLD_TLS_CA'' = tc_ca_path c)"
  by (cases t) (auto simp: tls_from_env_def split: option.splits)

lemma jwt_secret_from_env_iff:
  "jwt_secret_from_env var = (if var ''EVENTFOLD_JWT_SECRET'' = Some [] then None
     else var ''EVENTFOLD_JWT_SECRET'')"
  by (auto simp: jwt_secret_from_env_def split: option.splits)

lemmas config_field_iffs = listen_Inr_iff broker_capacity_Inr_iff dedup_capacity_Inr_iff
  metrics_listen_Inr_iff tls_Inr_iff jwt_secret_from_env_iff

lemma config_fields:
  "config_from_env P var = Inr cfg \<longleftrightarrow>
     var ''EVENTFOLD_DATA'' = Some (cf_data_path cfg) \<and>
     listen_from_env P var = Inr (cf_listen_addr cfg) \<and>
     broker_capacity_from_env var = Inr (cf_broker_capacity cfg) \<and>
     dedup_capacity_from_env var = Inr (cf_dedup_capacity cfg) \<and>
     metrics_listen_from_env P var = Inr (cf_metrics_listen cfg) \<and>
     tls_from_env var = Inr (cf_tls cfg) \<and> cf_jwt_secret cfg = jwt_secret_from_env var"
  by (cases cfg) (auto simp: config_from_env_def and_then_eq_Inr split: option.splits)

text \<open>
  C30: exactly which environments give a configuration, and which one: the data path is required,
  addresses and capacities must parse (the deduplication capacity must not be zero), the TLS
  certificate and key come together and the CA only with them, an empty metrics address disables
  the endpoint, and an empty JWT secret counts as unset.
\<close>

theorem config_accepted_iff:
  "config_from_env P var = Inr cfg \<longleftrightarrow>
     var ''EVENTFOLD_DATA'' = Some (cf_data_path cfg) \<and>
     (case var ''EVENTFOLD_LISTEN'' of None \<Rightarrow> P DEFAULT_LISTEN_ADDR | Some v \<Rightarrow> P v)
       = Inr (cf_listen_addr cfg) \<and>
     (case var ''EVENTFOLD_BROKER_CAPACITY'' of None \<Rightarrow> cf_broker_capacity cfg = 4096
      | Some v \<Rightarrow> parse_usize v = Inr (cf_broker_capacity cfg)) \<and>
     (case var ''EVENTFOLD_DEDUP_CAPACITY'' of None \<Rightarrow> cf_dedup_capacity cfg = 65536
      | Some v \<Rightarrow> parse_usize v = Inr (cf_dedup_capacity cfg) \<and> cf_dedup_capacity cfg \<noteq> 0) \<and>
     (case var ''EVENTFOLD_METRICS_LISTEN'' of
        None \<Rightarrow> map_sum id Some (P DEFAULT_METRICS_LISTEN_ADDR) = Inr (cf_metrics_listen cfg)
      | Some v \<Rightarrow> if v = [] then cf_metrics_listen cfg = None
                  else map_sum id Some (P v) = Inr (cf_metrics_listen cfg)) \<and>
     (case cf_tls cfg of
        None \<Rightarrow> var ''EVENTFOLD_TLS_CERT'' = None \<and> var ''EVENTFOLD_TLS_KEY'' = None \<and>
                var ''EVENTFOLD_TLS_CA'' = None
      | Some c \<Rightarrow> var ''EVENTFOLD_TLS_CERT'' = Some (tc_cert_path c) \<and>
                var ''EVENTFOLD_TLS_KEY'' = Some (tc_key_path c) \<and>
                var ''EVENTFOLD_TLS_CA'' = tc_ca_path c) \<and>
     cf_jwt_secret cfg = (if var ''EVENTFOLD_JWT_SECRET'' = Some [] then None
       else var ''EVENTFOLD_JWT_SECRET'')"
  unfolding config_fields config_field_iffs DEFAULT_BROKER_CAPACITY_def DEFAULT_DEDUP_CAPACITY_def
  by (rule refl)

subsection \<open>Start-up and authentication\<close>

lemma server_main_Started:
  assumes "server_main W J P m0 var io files lock = (files', lock', Started sv)"
  shows "\<exists>cfg s. config_from_env P var = Inr cfg \<and>
    store_open (we_crc W) (su_open io) (files (cf_data_path cfg)) = (files' (cf_data_path cfg), Inr s) \<and>
    sv_writer sv = fst (spawn_writer W s (broker_new (we_bc W) (cf_broker_capacity cfg))
      (cf_dedup_capacity cfg) m0) \<and>
    sv_auth sv = map_option (jwt_interceptor_new J) (cf_jwt_secret cfg) \<and>
    sv_serving_all sv \<and> sv_serving_store sv"
  using assms
  by (auto simp: server_main_def Let_def
      split: sum.splits failure.splits prod.splits if_splits option.splits)

text \<open>A configuration that started once starts again on any file that opens.\<close>

lemma server_main_again:
  assumes "server_main W J P m0 var io files lock = (files', lock', Started sv)"
    and "config_from_env P var = Inr cfg"
    and "store_open (we_crc W) (su_open io) (files2 (cf_data_path cfg)) = (f, Inr s)"
  shows "\<exists>files3 lock3 sv2. server_main W J P m0 var io files2 None = (files3, lock3, Started sv2) \<and>
    sv_writer sv2 = fst (spawn_writer W s (broker_new (we_bc W) (cf_broker_capacity cfg))
      (cf_dedup_capacity cfg) m0)"
  using assms
  by (auto simp: server_main_def install_recorder_def Let_def case_prod_beta
      split: sum.splits prod.splits if_splits option.splits)

text \<open>
  C28: with \<open>EVENTFOLD_JWT_SECRET\<close> set to a non-empty secret, no Append reaches the writer without a
  token. Every call is either refused with \<open>UNAUTHENTICATED\<close>, leaving the server as it was, or its
  \<open>authorization\<close> header was \<open>Bearer\<close> with a token signed with that secret and not expired.
\<close>

theorem jwt_secret_guards_append:
  assumes "jwt_decoder J valid_sig"
    and "server_main W J P m0 var io files lock = (files', lock', Started sv)"
    and "var ''EVENTFOLD_JWT_SECRET'' = Some secret" and "secret \<noteq> []"
  shows "(\<exists>m. server_append U W J now header ts wio token req sv
            = (Some (Inl (Status Unauthenticated m)), sv)) \<or>
    (\<exists>hval tok c. header = Some hval \<and> jw_to_str J hval = Some (''Bearer '' @ tok) \<and>
       valid_sig (jw_key_from_secret J secret) tok c \<and> now \<le> unat (cl_exp c))"
proof -
  obtain cfg where cfg: "config_from_env P var = Inr cfg"
    "sv_auth sv = map_option (jwt_interceptor_new J) (cf_jwt_secret cfg)"
    using server_main_Started [OF assms(2)] by blast
  have "cf_jwt_secret cfg = jwt_secret_from_env var"
    using cfg(1) by (simp add: config_fields)
  with cfg(2) assms(3,4) have a: "sv_auth sv = Some (jwt_interceptor_new J secret)"
    by (simp add: jwt_secret_from_env_iff)
  from jwt_call_cases [of J now "jwt_interceptor_new J secret" header] show ?thesis
  proof
    assume "jwt_call J now (jwt_interceptor_new J secret) header = Inr ()"
    from jwt_decoder.call_admits [OF assms(1) this] show ?thesis by blast
  next
    assume "\<exists>m. jwt_call J now (jwt_interceptor_new J secret) header = Inl (Status Unauthenticated m)"
    with a show ?thesis by (auto simp: server_append_def)
  qed
qed

text \<open>
  C39: \<open>EVENTFOLD_BROKER_CAPACITY=0\<close> is accepted as a configuration, although the broker needs a
  positive capacity: the log is opened (and created), then the process panics.
\<close>

lemma zero_broker_capacity_panics:
  assumes "config_from_env P var = Inr cfg" and "var ''EVENTFOLD_BROKER_CAPACITY'' = Some ''0''"
    and "su_open io = open_io_ok" and "files (cf_data_path cfg) = None"
  shows "\<exists>msg. server_main W J P m0 var io files lock
    = (files(cf_data_path cfg \<mapsto> encode_header), lock, Panicked msg)"
proof -
  have "broker_capacity_from_env var = Inr (cf_broker_capacity cfg)"
    using assms(1) by (simp add: config_fields)
  moreover have "parse_usize ''0'' = Inr 0" by (simp add: parse_usize_def)
  ultimately have "cf_broker_capacity cfg = 0" using assms(2) by (simp add: broker_capacity_Inr_iff)
  with assms show ?thesis
    by (simp add: server_main_def store_open_def open_new_def open_io_ok_def channel_panics_def Let_def)
qed

subsection \<open>A concrete server\<close>

definition demo_parse_addr :: "string \<Rightarrow> string + string" where
  "demo_parse_addr s = (if s = [] then Inl ''invalid socket address syntax'' else Inr s)"

definition demo_vars :: "string \<Rightarrow> env_vars" where
  "demo_vars capacity = [''EVENTFOLD_DATA'' \<mapsto> ''/data/log'', ''EVENTFOLD_JWT_SECRET'' \<mapsto> ''key'',
     ''EVENTFOLD_DEDUP_CAPACITY'' \<mapsto> ''8'', ''EVENTFOLD_BROKER_CAPACITY'' \<mapsto> capacity]"

definition demo_startup_io :: "unit startup_io" where
  "demo_startup_io = \<lparr>su_open = open_io_ok, su_prom = (), su_cert = Inl ''none'', su_key = Inl ''none'',
     su_ca = Inl ''none'', su_tls_error = None, su_bind_error = None, su_local_addr_error = None\<rparr>"

lemma demo_config:
  assumes "parse_usize capacity = Inr n"
  shows "config_from_env demo_parse_addr (demo_vars capacity) =
    Inr \<lparr>cf_data_path = ''/data/log'', cf_listen_addr = DEFAULT_LISTEN_ADDR, cf_broker_capacity = n,
         cf_dedup_capacity = 8, cf_tls = None, cf_metrics_listen = Some DEFAULT_METRICS_LISTEN_ADDR,
         cf_jwt_secret = Some ''key''\<rparr>"
  using assms
  by (simp add: parse_usize_def [of "''8''"] config_from_env_def listen_from_env_def broker_capacity_from_env_def
      dedup_capacity_from_env_def metrics_listen_from_env_def tls_from_env_def jwt_secret_from_env_def
      demo_vars_def demo_parse_addr_def DEFAULT_LISTEN_ADDR_def DEFAULT_METRICS_LISTEN_ADDR_def)

lemma demo_config_secret:
  "config_from_env demo_parse_addr (demo_vars c) = Inr cfg \<Longrightarrow> cf_jwt_secret cfg = Some ''key''"
  by (simp add: config_fields jwt_secret_from_env_def demo_vars_def)

lemma demo_server_starts:
  "\<exists>files lock sv. server_main demo_env ideal_jwt demo_parse_addr demo_metrics (demo_vars ''16'')
     demo_startup_io (\<lambda>_. None) None = (files, lock, Started sv) \<and> sv_writer sv = demo_writer"
proof -
  have "parse_usize ''16'' = Inr 16" by (simp add: parse_usize_def)
  from demo_config [OF this] show ?thesis
    by (simp add: server_main_def demo_startup_io_def store_open_def open_new_def open_io_ok_def
        channel_panics_def install_recorder_def tls_setup_def Let_def case_prod_beta demo_writer_def
        demo_store_def)
qed

theorem jwt_secret_guards_append_witness:
  "\<exists>(sv :: (string, string, lru_list, bc_list) server) m.
     server_append demo_uuid_ops demo_env ideal_jwt 5 None 9 writer_io_ok 7 demo_proto_request sv
     = (Some (Inl (Status Unauthenticated m)), sv) \<and> sv_auth sv \<noteq> None"
proof -
  obtain files lock sv where sv: "server_main demo_env ideal_jwt demo_parse_addr demo_metrics
      (demo_vars ''16'') demo_startup_io (\<lambda>_. None) None = (files, lock, Started sv)"
    using demo_server_starts by blast
  have k: "demo_vars ''16'' ''EVENTFOLD_JWT_SECRET'' = Some ''key''" by (simp add: demo_vars_def)
  have "sv_auth sv \<noteq> None"
    using server_main_Started [OF sv] k demo_config_secret by fastforce
  moreover have "\<exists>m. server_append demo_uuid_ops demo_env ideal_jwt 5 None 9 writer_io_ok 7 demo_proto_request sv
      = (Some (Inl (Status Unauthenticated m)), sv)"
    using jwt_secret_guards_append [OF ideal.jwt_decoder_axioms sv k, of demo_uuid_ops 5 None 9
        writer_io_ok 7 demo_proto_request] by simp
  ultimately show ?thesis by blast
qed

end
