(* ===== verification/Subscription.thy ===== *)
theory Subscription
  imports Broker
begin

text \<open>
  Correctness of the subscription generators of \<open>src/broker.rs\<close> against a writer that appends and
  publishes concurrently. The two generators differ in what they read, which events they keep and
  which number they compare, so one step function (\<open>generator_step\<close>) covers both; the locale
  \<open>subscription_view\<close> states what its parameters must satisfy and carries the proofs.
\<close>

subsection \<open>Windows of a list\<close>

definition window :: "'a list \<Rightarrow> nat \<Rightarrow> nat \<Rightarrow> 'a list" where
  "window xs a b = take (b - a) (drop a xs)"

lemma window_same [simp]: "window xs a a = []"
  by (simp add: window_def)

lemma window_empty: "b \<le> a \<Longrightarrow> window xs a b = []"
  by (simp add: window_def)

lemma window_append [simp]: "b \<le> length xs \<Longrightarrow> window (xs @ ys) a b = window xs a b"
  by (cases "a \<le> b") (simp_all add: window_def)

lemma window_Suc: "a \<le> b \<Longrightarrow> b < length xs \<Longrightarrow> window xs a (Suc b) = window xs a b @ [xs ! b]"
  by (simp add: window_def Suc_diff_le take_Suc_conv_app_nth)

lemma window_Cons: "a < b \<Longrightarrow> b \<le> length xs \<Longrightarrow> window xs a b = xs ! a # window xs (Suc a) b"
  by (simp add: window_def take_Cons' Cons_nth_drop_Suc [symmetric])

lemma length_window: "b \<le> length xs \<Longrightarrow> length (window xs a b) = b - a"
  by (simp add: window_def)

lemma window_join: "a \<le> b \<Longrightarrow> b \<le> c \<Longrightarrow> window xs a b @ window xs b c = window xs a c"
  by (auto simp: window_def le_iff_add take_add add.commute)

text \<open>The events of a list that a subscription keeps, and how many of the first \<open>n\<close> it keeps.\<close>

definition kept :: "('a \<Rightarrow> bool) \<Rightarrow> 'a list \<Rightarrow> nat \<Rightarrow> nat" where
  "kept keep es n = length (filter keep (take n es))"

lemma kept_append [simp]: "n \<le> length es \<Longrightarrow> kept keep (es @ fs) n = kept keep es n"
  by (simp add: kept_def)

lemma kept_mono: "m \<le> n \<Longrightarrow> kept keep es m \<le> kept keep es n"
  by (auto simp: kept_def le_iff_add take_add)

lemma kept_le: "kept keep es n \<le> length (filter keep es)"
  by (metis append_take_drop_id filter_append kept_def le_add1 length_append)

lemma kept_Suc: "n < length es \<Longrightarrow> kept keep es (Suc n) = kept keep es n + (if keep (es ! n) then 1 else 0)"
  by (simp add: kept_def take_Suc_conv_app_nth)

lemma kept_nth:
  assumes "n < length es" and "keep (es ! n)"
  shows "kept keep es n < length (filter keep es)" and "filter keep es ! kept keep es n = es ! n"
proof -
  have "filter keep es = filter keep (take n es) @ es ! n # filter keep (drop (Suc n) es)"
    using assms by (subst id_take_nth_drop [OF assms(1)]) simp
  then show "kept keep es n < length (filter keep es)" "filter keep es ! kept keep es n = es ! n"
    by (simp_all add: kept_def nth_append)
qed

subsection \<open>One generator for both subscriptions\<close>

definition generator_step ::
  "(read_index \<Rightarrow> u64 \<Rightarrow> (error + recorded_event list) option) \<Rightarrow> (recorded_event \<Rightarrow> bool)
     \<Rightarrow> (recorded_event \<Rightarrow> u64) \<Rightarrow> ('ch, 'rx) broadcast_ops \<Rightarrow> read_index \<Rightarrow> 'ch broker
     \<Rightarrow> 'rx subscriber \<Rightarrow> (item option \<times> 'rx subscriber) option" where
  "generator_step read keep key B ri b st =
     (case sb_phase st of
        Reading \<Rightarrow>
          (case read ri (sb_cursor st) of
             None \<Rightarrow> None
           | Some (Inr batch) \<Rightarrow>
               Some (None, st\<lparr>sb_phase := Yielding batch (of_nat (length batch))\<rparr>)
           | Some (Inl (StreamNotFound _)) \<Rightarrow> Some (None, st\<lparr>sb_phase := Marking\<rparr>)
           | Some (Inl e) \<Rightarrow> Some (Some (Inl e), st\<lparr>sb_phase := Finished\<rparr>))
      | Yielding (event # rest) batch_len \<Rightarrow>
          Some (Some (Inr (EventMsg event)),
                st\<lparr>sb_phase := Yielding rest batch_len, sb_last := Some (key event),
                   sb_cursor := key event + 1\<rparr>)
      | Yielding [] batch_len \<Rightarrow>
          Some (None, st\<lparr>sb_phase := if batch_len < CATCHUP_BATCH_SIZE then Marking else Reading\<rparr>)
      | Marking \<Rightarrow> Some (Some (Inr CaughtUp), st\<lparr>sb_phase := Live\<rparr>)
      | Live \<Rightarrow>
          (case bc_recv B (br_tx b) (sb_rx st) of
             (RecvOk event, rx) \<Rightarrow>
               if keep event \<and> (case sb_last st of Some last_key \<Rightarrow> \<not> key event \<le> last_key | None \<Rightarrow> True)
               then Some (Some (Inr (EventMsg event)), st\<lparr>sb_rx := rx\<rparr>)
               else Some (None, st\<lparr>sb_rx := rx\<rparr>)
           | (RecvLagged _, rx) \<Rightarrow>
               Some (Some (Inl lag_error), st\<lparr>sb_rx := rx, sb_phase := Finished\<rparr>)
           | (RecvClosed, rx) \<Rightarrow> Some (None, st\<lparr>sb_rx := rx, sb_phase := Finished\<rparr>)
           | (RecvPending, rx) \<Rightarrow> Some (None, st\<lparr>sb_rx := rx\<rparr>))
      | Finished \<Rightarrow> Some (None, st))"

abbreviation read_all_chunk :: "read_index \<Rightarrow> u64 \<Rightarrow> (error + recorded_event list) option" where
  "read_all_chunk ri cursor \<equiv> map_option Inr (ri_read_all ri cursor CATCHUP_BATCH_SIZE)"

abbreviation read_stream_chunk :: "uuid \<Rightarrow> read_index \<Rightarrow> u64 \<Rightarrow> (error + recorded_event list) option" where
  "read_stream_chunk sid ri cursor \<equiv> ri_read_stream ri sid cursor CATCHUP_BATCH_SIZE"

lemma subscribe_all_generator:
  "subscribe_all_step B = generator_step read_all_chunk (\<lambda>_. True) re_global_position B"
  by (intro ext) (simp add: subscribe_all_step_def generator_step_def
      split: sub_phase.split option.split list.split prod.split recv_result.split)

lemma subscribe_stream_generator:
  "subscribe_stream_step B sid =
     generator_step (read_stream_chunk sid) (\<lambda>e. re_stream_id e = sid) re_stream_version B"
  by (intro ext) (simp add: subscribe_stream_step_def generator_step_def
      split: sub_phase.split option.split list.split prod.split recv_result.split sum.split)

subsection \<open>The subscriber beside the writer\<close>

text \<open>
  One subscriber, the shared log and the broker. \<open>sy_published\<close> counts the events that are in the log
  and not still waiting in the writer's \<open>publish\<close> loop; events recovered at start-up count as published.
\<close>

record ('ch, 'rx) sub_system =
  sy_log :: event_log
  sy_published :: nat
  sy_broker :: "'ch broker"
  sy_sub :: "'rx subscriber"
  sy_out :: "item list"

definition emit :: "item option \<Rightarrow> item list" where
  "emit i = (case i of None \<Rightarrow> [] | Some x \<Rightarrow> [x])"

text \<open>
  The steps: the writer appends its next batch, once the previous one is published; it publishes the
  next event; another client subscribes; the generator is polled.
\<close>

inductive sub_step for C :: crc_ops and B :: "('ch, 'rx) broadcast_ops"
  and step :: "read_index \<Rightarrow> 'ch broker \<Rightarrow> 'rx subscriber \<Rightarrow> (item option \<times> 'rx subscriber) option"
where
  append: "sy_published y = length (el_events (sy_log y)) \<Longrightarrow>
     store_append C io \<lparr>st_file = file, st_log = sy_log y\<rparr> sid ev ts ps = (s', Inr rs) \<Longrightarrow> ps \<noteq> [] \<Longrightarrow>
     length (el_events (sy_log y)) + length ps < 2 ^ 64 \<Longrightarrow>
     sub_step C B step y (y\<lparr>sy_log := st_log s'\<rparr>)"
| publish: "sy_published y < length (el_events (sy_log y)) \<Longrightarrow>
     sub_step C B step y (y\<lparr>sy_broker := broker_publish B [el_events (sy_log y) ! sy_published y]
         (sy_broker y), sy_published := Suc (sy_published y)\<rparr>)"
| other_client: "sub_step C B step y (y\<lparr>sy_broker := snd (broker_subscribe B (sy_broker y))\<rparr>)"
| poll: "step (read_index_new (sy_log y)) (sy_broker y) (sy_sub y) = Some (i, st) \<Longrightarrow>
     sub_step C B step y (y\<lparr>sy_sub := st, sy_out := sy_out y @ emit i\<rparr>)"

definition sub_start ::
  "('ch broker \<Rightarrow> 'rx subscriber \<times> 'ch broker) \<Rightarrow> event_log \<Rightarrow> nat \<Rightarrow> 'ch broker
     \<Rightarrow> ('ch, 'rx) sub_system" where
  "sub_start subscribe log published b =
     \<lparr>sy_log = log, sy_published = published, sy_broker = snd (subscribe b),
      sy_sub = fst (subscribe b), sy_out = []\<rparr>"

text \<open>Polling the generator while nobody else moves.\<close>

definition poll_once ::
  "(read_index \<Rightarrow> 'ch broker \<Rightarrow> 'rx subscriber \<Rightarrow> (item option \<times> 'rx subscriber) option)
     \<Rightarrow> ('ch, 'rx) sub_system \<Rightarrow> ('ch, 'rx) sub_system option" where
  "poll_once step y =
     (case step (read_index_new (sy_log y)) (sy_broker y) (sy_sub y) of
        None \<Rightarrow> None
      | Some (i, st) \<Rightarrow> Some (y\<lparr>sy_sub := st, sy_out := sy_out y @ emit i\<rparr>))"

fun poll_many ::
  "(read_index \<Rightarrow> 'ch broker \<Rightarrow> 'rx subscriber \<Rightarrow> (item option \<times> 'rx subscriber) option)
     \<Rightarrow> nat \<Rightarrow> ('ch, 'rx) sub_system \<Rightarrow> ('ch, 'rx) sub_system option" where
  "poll_many step 0 y = Some y"
| "poll_many step (Suc k) y =
     (case poll_once step y of None \<Rightarrow> None | Some y' \<Rightarrow> poll_many step k y')"

text \<open>What a subscriber has been sent: events, then the marker, then events, then perhaps the lag error.\<close>

definition messages :: "recorded_event list \<Rightarrow> item list" where
  "messages es = map (Inr \<circ> EventMsg) es"

lemma messages_simps [simp]:
  "messages [] = []" "messages (es @ fs) = messages es @ messages fs" "messages [e] = [Inr (EventMsg e)]"
  by (simp_all add: messages_def)

text \<open>
  The stream's items so far: the run of \<open>V\<close> from \<open>f\<close> to \<open>n\<close> in the catch-up phase; once live, also the
  marker, the run from \<open>n\<close> to \<open>m\<close>, and the lag error if there was one.
\<close>

definition transcript :: "recorded_event list \<Rightarrow> sub_phase \<Rightarrow> nat \<Rightarrow> nat \<Rightarrow> nat \<Rightarrow> item list \<Rightarrow> item list" where
  "transcript V ph f n m lag = messages (window V f n) @
     (if ph = Live \<or> ph = Finished then Inr CaughtUp # messages (window V n m) @ lag else [])"

locale subscription_view =
  fixes read :: "read_index \<Rightarrow> u64 \<Rightarrow> (error + recorded_event list) option"
    and keep :: "recorded_event \<Rightarrow> bool"
    and key :: "recorded_event \<Rightarrow> u64"
  assumes key_index: "log_wf log \<Longrightarrow> i < length (filter keep (el_events log)) \<Longrightarrow>
      key (filter keep (el_events log) ! i) = of_nat i"
    and read_chunk: "log_wf log \<Longrightarrow>
      read (read_index_new log) a
        = Some (Inr (take (unat CATCHUP_BATCH_SIZE) (drop (unat a) (filter keep (el_events log))))) \<or>
      filter keep (el_events log) = [] \<and>
        (\<exists>sid. read (read_index_new log) a = Some (Inl (StreamNotFound sid)))"

interpretation all_view: subscription_view read_all_chunk "\<lambda>_. True" re_global_position
  by unfold_locales
    (simp_all add: log_wf_def numbered_def ri_reader.read_all read_index_new_def)

interpretation stream_view: subscription_view "read_stream_chunk sid" "\<lambda>e. re_stream_id e = sid"
  re_stream_version for sid
  by unfold_locales
    (auto simp: log_wf_def numbered_stream ri_reader.read_stream read_index_new_def
      simp flip: stream_events_def)

subsection \<open>The delivery invariant\<close>

locale subscription = subscription_view read keep key + broadcast_channel B queue live capacity
  for read keep key and B :: "('ch, 'rx) broadcast_ops" and queue live capacity
begin

abbreviation view :: "('ch, 'rx) sub_system \<Rightarrow> recorded_event list" where
  "view y \<equiv> filter keep (el_events (sy_log y))"

text \<open>The receiver still has to take the events from index \<open>c\<close> to the last published one.\<close>

definition received :: "('ch, 'rx) sub_system \<Rightarrow> nat \<Rightarrow> bool" where
  "received y c \<longleftrightarrow> c \<le> sy_published y \<and> live (br_tx (sy_broker y)) (sb_rx (sy_sub y)) \<and>
     queue (br_tx (sy_broker y)) (sb_rx (sy_sub y)) = window (el_events (sy_log y)) c (sy_published y)"

text \<open>Catch-up from \<open>f\<close> has reached index \<open>n\<close> of the view.\<close>

definition reached :: "nat \<Rightarrow> ('ch, 'rx) sub_system \<Rightarrow> nat \<Rightarrow> bool" where
  "reached f y n \<longleftrightarrow> f \<le> n \<and> n \<le> length (view y) \<and>
     sb_last (sy_sub y) = (if n = f then None else Some (of_nat (n - 1)))"

text \<open>
  What is known at each control point: \<open>c\<close> events of the log were taken from the receiver or lie
  before the subscription, catch-up delivered the view up to \<open>n\<close> and live delivery up to \<open>m\<close>;
  \<open>before\<close> events of the view were published before the subscription.
\<close>

fun point_inv :: "sub_phase \<Rightarrow> recorded_event list \<Rightarrow> nat \<Rightarrow> nat \<Rightarrow> nat \<Rightarrow> nat \<Rightarrow> nat \<Rightarrow> nat \<Rightarrow> nat \<Rightarrow> bool"
where
  "point_inv Reading V p0 before cursor c kc n m \<longleftrightarrow> c = p0 \<and> cursor = n \<and> m = n"
| "point_inv (Yielding es k) V p0 before cursor c kc n m \<longleftrightarrow> c = p0 \<and> cursor = n \<and> m = n \<and>
     n + length es \<le> length V \<and> window V n (n + length es) = es \<and>
     (k < CATCHUP_BATCH_SIZE \<longrightarrow> before \<le> n + length es)"
| "point_inv Marking V p0 before cursor c kc n m \<longleftrightarrow> c = p0 \<and> m = n \<and> before \<le> n"
| "point_inv Live V p0 before cursor c kc n m \<longleftrightarrow> before \<le> n \<and> m = max n kc"
| "point_inv Finished V p0 before cursor c kc n m \<longleftrightarrow> before \<le> n"

definition control_inv :: "nat \<Rightarrow> nat \<Rightarrow> ('ch, 'rx) sub_system \<Rightarrow> nat \<Rightarrow> nat \<Rightarrow> nat \<Rightarrow> item list \<Rightarrow> bool" where
  "control_inv f p0 y c n m lag \<longleftrightarrow>
     (let E = el_events (sy_log y); ph = sb_phase (sy_sub y) in
      reached f y n \<and> n \<le> m \<and> m \<le> length (view y) \<and>
      sy_out y = transcript (view y) ph f n m lag \<and> (lag = [] \<or> lag = [Inl lag_error]) \<and>
      (ph \<noteq> Finished \<longrightarrow> p0 \<le> c \<and> received y c \<and> lag = []) \<and>
      point_inv ph (view y) p0 (kept keep E p0) (unat (sb_cursor (sy_sub y))) c (kept keep E c) n m)"

definition sub_inv :: "nat \<Rightarrow> nat \<Rightarrow> ('ch, 'rx) sub_system \<Rightarrow> bool" where
  "sub_inv f p0 y \<longleftrightarrow> log_wf (sy_log y) \<and> p0 \<le> sy_published y \<and>
     sy_published y \<le> length (el_events (sy_log y)) \<and>
     f \<le> kept keep (el_events (sy_log y)) p0 \<and> (\<exists>c n m lag. control_inv f p0 y c n m lag)"

lemma inv_start:
  assumes "log_wf log" and "p0 \<le> length (el_events log)" and "unat from \<le> kept keep (el_events log) p0"
    and "subscribe b = (\<lparr>sb_phase = Reading, sb_cursor = from, sb_last = None,
           sb_rx = fst (broker_subscribe B b)\<rparr>, snd (broker_subscribe B b))"
  shows "sub_inv (unat from) p0 (sub_start subscribe log p0 b)"
proof -
  let ?y = "sub_start subscribe log p0 b"
  have "control_inv (unat from) p0 ?y p0 (unat from) (unat from) []"
    using assms subscribe_new [of "br_tx b"] order_trans [OF assms(3) kept_le]
    by (simp add: control_inv_def sub_start_def received_def reached_def transcript_def
        broker_subscribe_def case_prod_beta)
  with assms show ?thesis unfolding sub_inv_def by (auto simp: sub_start_def)
qed

lemma point_inv_append:
  "point_inv ph V p0 before cursor c kc n m \<Longrightarrow> point_inv ph (V @ W) p0 before cursor c kc n m"
  by (cases ph) auto

lemma inv_append:
  assumes inv: "sub_inv f p0 y" and log: "el_events log = el_events (sy_log y) @ rs" "log_wf log"
  shows "sub_inv f p0 (y\<lparr>sy_log := log\<rparr>)"
proof -
  let ?y = "y\<lparr>sy_log := log\<rparr>"
  from inv obtain c n m lag where p: "p0 \<le> sy_published y" "sy_published y \<le> length (el_events (sy_log y))"
    and ctl: "control_inv f p0 y c n m lag"
    by (auto simp: sub_inv_def)
  have kep: "kept keep (el_events log) d = kept keep (el_events (sy_log y)) d" if "d \<le> sy_published y" for d
    using that p by (simp add: log(1))
  have v: "view ?y = view y @ filter keep rs" by (simp add: log(1))
  from ctl have le: "n \<le> m" "m \<le> length (view y)" by (simp_all add: control_inv_def Let_def)
  then have "transcript (view ?y) ph f n m lag = transcript (view y) ph f n m lag" for ph
    by (simp add: transcript_def log(1))
  moreover have "received ?y c" if "received y c" using that p by (simp add: received_def log(1))
  moreover have "reached f ?y n" if "reached f y n" using that by (simp add: reached_def log(1))
  moreover have "kept keep (el_events log) c = kept keep (el_events (sy_log y)) c"
    if "sb_phase (sy_sub y) \<noteq> Finished"
    using that ctl kep by (simp add: control_inv_def received_def Let_def)
  ultimately have "control_inv f p0 ?y c n m lag"
    using ctl kep [OF p(1)] point_inv_append [of _ "view y" _ _ _ _ _ _ _ "filter keep rs"]
    unfolding control_inv_def Let_def v
    by (cases "sb_phase (sy_sub y)") (auto simp: v)
  with inv p kep log show ?thesis unfolding sub_inv_def by auto
qed


lemma inv_publish:
  assumes inv: "sub_inv f p0 y" and p: "sy_published y < length (el_events (sy_log y))"
  shows "sub_inv f p0 (y\<lparr>sy_broker := broker_publish B [el_events (sy_log y) ! sy_published y]
         (sy_broker y), sy_published := Suc (sy_published y)\<rparr>)" (is "sub_inv f p0 ?y")
proof -
  have "received ?y c" if "received y c" for c
    using that p publish_queue [of "sy_broker y" "sb_rx (sy_sub y)"]
    by (simp add: received_def window_Suc)
  moreover obtain c n m lag where "control_inv f p0 y c n m lag"
    using inv by (auto simp: sub_inv_def)
  ultimately have "control_inv f p0 ?y c n m lag"
    by (auto simp: control_inv_def reached_def Let_def)
  with inv p show ?thesis unfolding sub_inv_def by auto
qed

lemma inv_other:
  assumes inv: "sub_inv f p0 y"
  shows "sub_inv f p0 (y\<lparr>sy_broker := snd (broker_subscribe B (sy_broker y))\<rparr>)" (is "sub_inv f p0 ?y")
proof -
  have "received ?y c" if "received y c" for c
    using that subscribe_old [of "br_tx (sy_broker y)" "sb_rx (sy_sub y)"]
    by (simp add: received_def broker_subscribe_def case_prod_beta)
  moreover obtain c n m lag where "control_inv f p0 y c n m lag"
    using inv by (auto simp: sub_inv_def)
  ultimately have "control_inv f p0 ?y c n m lag"
    by (auto simp: control_inv_def reached_def Let_def)
  with inv show ?thesis unfolding sub_inv_def by auto
qed

text \<open>The read at the head of the catch-up loop.\<close>

lemma chunk_window:
  assumes "n \<le> length V" and "length V < 2 ^ 64"
  defines "es \<equiv> take (unat CATCHUP_BATCH_SIZE) (drop n V)"
  shows "n + length es \<le> length V" and "window V n (n + length es) = es"
    and "(of_nat (length es) :: u64) < CATCHUP_BATCH_SIZE \<Longrightarrow> n + length es = length V"
proof -
  show "n + length es \<le> length V" "window V n (n + length es) = es"
    using assms by (auto simp: window_def min_def)
  have "unat (of_nat (length es) :: u64) = length es"
    using assms by (intro unat_of_nat_less) simp
  then show "(of_nat (length es) :: u64) < CATCHUP_BATCH_SIZE \<Longrightarrow> n + length es = length V"
    using assms(1) by (simp add: es_def word_less_nat_alt min_def split: if_splits)
qed

lemma view_small: "sub_inv f p0 y \<Longrightarrow> length (view y) < 2 ^ 64"
  using length_filter_le [of keep "el_events (sy_log y)"] unfolding sub_inv_def log_wf_def
  by linarith

lemma control_read:
  assumes inv: "sub_inv f p0 y" and ctl: "control_inv f p0 y c n m lag"
    and ph: "sb_phase (sy_sub y) = Reading"
    and step: "generator_step read keep key B (read_index_new (sy_log y)) (sy_broker y) (sy_sub y)
      = Some (i, st)"
  shows "control_inv f p0 (y\<lparr>sy_sub := st, sy_out := sy_out y @ emit i\<rparr>) c n m lag"
proof -
  let ?V = "view y"
  from ctl ph have c: "c = p0" "unat (sb_cursor (sy_sub y)) = n" "m = n" "n \<le> length ?V"
    by (simp_all add: control_inv_def Let_def)
  have le: "kept keep (el_events (sy_log y)) p0 \<le> length ?V" by (rule kept_le)
  from inv have wf: "log_wf (sy_log y)" by (simp add: sub_inv_def)
  from read_chunk [OF wf, of "sb_cursor (sy_sub y)"] show ?thesis
  proof
    define es where "es = take (unat CATCHUP_BATCH_SIZE) (drop n ?V)"
    assume "read (read_index_new (sy_log y)) (sb_cursor (sy_sub y))
        = Some (Inr (take (unat CATCHUP_BATCH_SIZE) (drop (unat (sb_cursor (sy_sub y))) ?V)))"
    with step ph c(2) have st: "i = None" "st = (sy_sub y)\<lparr>sb_phase := Yielding es (of_nat (length es))\<rparr>"
      by (auto simp: generator_step_def es_def)
    have "n + length es \<le> length ?V \<and> window ?V n (n + length es) = es \<and>
        ((of_nat (length es) :: u64) < CATCHUP_BATCH_SIZE \<longrightarrow>
          kept keep (el_events (sy_log y)) p0 \<le> n + length es)"
      using chunk_window [OF c(4) view_small [OF inv], folded es_def] le by auto
    with ctl ph c st show ?thesis
      unfolding control_inv_def Let_def
      by (simp add: emit_def reached_def received_def transcript_def)
  next
    assume "?V = [] \<and> (\<exists>sid. read (read_index_new (sy_log y)) (sb_cursor (sy_sub y))
        = Some (Inl (StreamNotFound sid)))"
    with step ph c have "i = None" "st = (sy_sub y)\<lparr>sb_phase := Marking\<rparr>" "?V = []"
      by (auto simp: generator_step_def)
    with ctl ph c le show ?thesis
      unfolding control_inv_def Let_def
      by (auto simp: emit_def reached_def received_def transcript_def)
  qed
qed


lemma unat_key_Suc:
  assumes "sub_inv f p0 y" and "n < length (view y)"
  shows "key (view y ! n) = of_nat n" and "unat (of_nat n + 1 :: u64) = Suc n"
    and "unat (of_nat n :: u64) = n"
proof -
  show "key (view y ! n) = of_nat n" using assms key_index by (simp add: sub_inv_def)
  have n: "Suc n < 2 ^ LENGTH(64)" using assms view_small [OF assms(1)] by simp
  have "unat (of_nat (Suc n) :: u64) = Suc n" using n by (rule unat_of_nat_less)
  moreover have "unat (of_nat n :: u64) = n" using n by (intro unat_of_nat_less) simp
  moreover have "of_nat n + 1 = (of_nat (Suc n) :: u64)" by simp
  ultimately show "unat (of_nat n + 1 :: u64) = Suc n" "unat (of_nat n :: u64) = n" by metis+
qed

lemma control_yield:
  assumes inv: "sub_inv f p0 y" and ctl: "control_inv f p0 y c n m lag"
    and ph: "sb_phase (sy_sub y) = Yielding es k"
    and step: "generator_step read keep key B (read_index_new (sy_log y)) (sy_broker y) (sy_sub y)
      = Some (i, st)"
  shows "\<exists>n. control_inv f p0 (y\<lparr>sy_sub := st, sy_out := sy_out y @ emit i\<rparr>) c n n lag"
proof -
  let ?V = "view y"
  from ctl ph have c: "c = p0" "unat (sb_cursor (sy_sub y)) = n" "m = n" "f \<le> n"
      "n + length es \<le> length ?V" "window ?V n (n + length es) = es"
      "k < CATCHUP_BATCH_SIZE \<longrightarrow> kept keep (el_events (sy_log y)) p0 \<le> n + length es"
    by (simp_all add: control_inv_def Let_def reached_def)
  show ?thesis
  proof (cases es)
    case Nil
    with step ph have "i = None" "st = (sy_sub y)\<lparr>sb_phase :=
        if k < CATCHUP_BATCH_SIZE then Marking else Reading\<rparr>"
      by (auto simp: generator_step_def)
    with ctl ph c Nil show ?thesis
      unfolding control_inv_def Let_def
      by (intro exI [of _ n]) (simp add: emit_def reached_def received_def transcript_def)
  next
    case (Cons e es')
    then have n: "n < length ?V" using c(5) by simp
    have w: "e = ?V ! n" "window ?V (Suc n) (Suc n + length es') = es'"
      using c(6) window_Cons [OF _ c(5)] Cons by simp_all
    note k = unat_key_Suc [OF inv n]
    from step ph Cons w(1) k have st: "i = Some (Inr (EventMsg (?V ! n)))"
      "st = (sy_sub y)\<lparr>sb_phase := Yielding es' k, sb_last := Some (of_nat n),
             sb_cursor := of_nat n + 1\<rparr>"
      by (auto simp: generator_step_def)
    have "sy_out y = messages (window ?V f n)" "received y p0" "lag = []" "p0 \<le> c"
      using ctl ph c(1) by (simp_all add: control_inv_def Let_def transcript_def)
    with c(1,4,5,7) Cons n w(2) k(2) show ?thesis
      unfolding control_inv_def Let_def st
      by (intro exI [of _ "Suc n"])
        (simp add: emit_def reached_def received_def transcript_def window_Suc)
  qed
qed

lemma deliver_iff:
  assumes inv: "sub_inv f p0 y" and rch: "reached f y n"
    and c: "p0 \<le> c" "c < length (el_events (sy_log y))"
    and e: "keep (el_events (sy_log y) ! c)"
  shows "(case sb_last (sy_sub y) of Some last_key \<Rightarrow> \<not> key (el_events (sy_log y) ! c) \<le> last_key
          | None \<Rightarrow> True) \<longleftrightarrow> n \<le> kept keep (el_events (sy_log y)) c"
proof -
  let ?k = "kept keep (el_events (sy_log y)) c"
  note nth = kept_nth [OF c(2), of keep, OF e]
  note k = unat_key_Suc [OF inv nth(1)]
  have "f \<le> ?k" using inv kept_mono [OF c(1)] by (auto simp: sub_inv_def intro: order_trans)
  moreover have "n \<noteq> f \<Longrightarrow> \<exists>j. n = Suc j \<and> unat (of_nat j :: u64) = j"
    using rch view_small [OF inv] by (cases n) (auto simp: reached_def intro!: unat_of_nat_less)
  ultimately show ?thesis
    using rch k nth by (cases "n = f") (auto simp: reached_def word_le_nat_alt)
qed

lemma control_recv:
  assumes inv: "sub_inv f p0 y" and ctl: "control_inv f p0 y c n m lag"
    and ph: "sb_phase (sy_sub y) = Live"
    and br: "bc_recv B (br_tx (sy_broker y)) (sb_rx (sy_sub y)) = (RecvOk e, rx)"
    and step: "generator_step read keep key B (read_index_new (sy_log y)) (sy_broker y) (sy_sub y)
      = Some (i, st)"
  shows "\<exists>c n m lag. control_inv f p0 (y\<lparr>sy_sub := st, sy_out := sy_out y @ emit i\<rparr>) c n m lag"
proof -
  let ?E = "el_events (sy_log y)" and ?V = "view y" and ?k = "kept keep (el_events (sy_log y))"
  from ctl ph have c: "p0 \<le> c" "received y c" "lag = []" "?k p0 \<le> n" "m = max n (?k c)"
      "reached f y n" "sy_out y = transcript ?V Live f n m []"
    by (auto simp: control_inv_def Let_def)
  have q: "live (br_tx (sy_broker y)) rx" "c \<le> sy_published y" "sy_published y \<le> length ?E"
      "window ?E c (sy_published y) = e # queue (br_tx (sy_broker y)) rx"
    using c(2) recv [of "br_tx (sy_broker y)" "sb_rx (sy_sub y)"] br inv
    by (auto simp: received_def sub_inv_def)
  then have lt: "c < sy_published y" by (cases "c = sy_published y") auto
  then have e: "e = ?E ! c" "queue (br_tx (sy_broker y)) rx = window ?E (Suc c) (sy_published y)"
    using q window_Cons [of c "sy_published y" ?E] by simp_all
  have lt': "c < length ?E" using lt q by simp
  note D = deliver_iff [OF inv c(6) c(1) lt'] and nth = kept_nth [OF lt', of keep]
  have i: "i = (if keep e \<and> n \<le> ?k c then Some (Inr (EventMsg e)) else None)"
      "st = (sy_sub y)\<lparr>sb_rx := rx\<rparr>"
    using step ph br D e(1) by (auto simp: generator_step_def split: if_splits)
  have "?k (Suc c) \<le> length ?V" by (rule kept_le)
  moreover have "transcript ?V Live f n (max n (?k (Suc c))) [] = sy_out y @ emit i"
    using c(7) e(1) nth
    by (auto simp: i c(5) transcript_def emit_def kept_Suc [OF lt'] max_def window_Suc window_empty)
  ultimately have "control_inv f p0 (y\<lparr>sy_sub := st, sy_out := sy_out y @ emit i\<rparr>) (Suc c) n
      (max n (?k (Suc c))) []"
    using c ph q lt e unfolding control_inv_def Let_def i(2)
    by (simp add: reached_def received_def)
  then show ?thesis by blast
qed

lemma control_live:
  assumes inv: "sub_inv f p0 y" and ctl: "control_inv f p0 y c n m lag"
    and ph: "sb_phase (sy_sub y) = Live"
    and step: "generator_step read keep key B (read_index_new (sy_log y)) (sy_broker y) (sy_sub y)
      = Some (i, st)"
  shows "\<exists>c n m lag. control_inv f p0 (y\<lparr>sy_sub := st, sy_out := sy_out y @ emit i\<rparr>) c n m lag"
proof -
  let ?E = "el_events (sy_log y)" and ?V = "view y"
  let ?ch = "br_tx (sy_broker y)" and ?rx = "sb_rx (sy_sub y)"
  from ctl ph have c: "p0 \<le> c" "received y c" "lag = []" "kept keep ?E p0 \<le> n" "m = max n (kept keep ?E c)"
      "n \<le> length ?V" "m \<le> length ?V" "f \<le> n" "reached f y n"
    by (auto simp: control_inv_def Let_def reached_def)
  have "live ?ch ?rx" and q: "queue ?ch ?rx = window ?E c (sy_published y)" "c \<le> sy_published y"
    using c(2) by (simp_all add: received_def)
  note r = recv [OF this(1)]
  obtain res rx where br: "bc_recv B ?ch ?rx = (res, rx)" by fastforce
  show ?thesis
  proof (cases res)
    case (RecvOk e)
    with control_recv [OF inv ctl ph] br step show ?thesis by blast
  next
    case (RecvLagged k)
    with step ph br have "i = Some (Inl lag_error)" "st = (sy_sub y)\<lparr>sb_rx := rx, sb_phase := Finished\<rparr>"
      by (auto simp: generator_step_def)
    with ctl ph c show ?thesis
      unfolding control_inv_def Let_def
      by (intro exI [of _ c] exI [of _ n] exI [of _ m] exI [of _ "[Inl lag_error]"])
        (simp add: emit_def reached_def transcript_def)
  next
    case RecvClosed
    with step ph br have "i = None" "st = (sy_sub y)\<lparr>sb_rx := rx, sb_phase := Finished\<rparr>"
      by (auto simp: generator_step_def)
    with ctl ph c show ?thesis
      unfolding control_inv_def Let_def
      by (intro exI [of _ c] exI [of _ n] exI [of _ m] exI [of _ "[]"])
        (simp add: emit_def reached_def transcript_def)
  next
    case RecvPending
    with step ph br have "i = None" "st = (sy_sub y)\<lparr>sb_rx := rx\<rparr>"
      by (auto simp: generator_step_def)
    with ctl ph c r br RecvPending q show ?thesis
      unfolding control_inv_def Let_def
      by (intro exI [of _ c] exI [of _ n] exI [of _ m] exI [of _ "[]"])
        (simp add: emit_def reached_def received_def transcript_def)
  qed
qed


lemma inv_poll:
  assumes inv: "sub_inv f p0 y"
    and step: "generator_step read keep key B (read_index_new (sy_log y)) (sy_broker y) (sy_sub y)
      = Some (i, st)"
  shows "sub_inv f p0 (y\<lparr>sy_sub := st, sy_out := sy_out y @ emit i\<rparr>)" (is "sub_inv f p0 ?y")
proof -
  obtain c n m lag where ctl: "control_inv f p0 y c n m lag" using inv by (auto simp: sub_inv_def)
  have "\<exists>c n m lag. control_inv f p0 ?y c n m lag"
  proof (cases "sb_phase (sy_sub y)")
    case Reading
    with control_read [OF inv ctl _ step] show ?thesis by blast
  next
    case (Yielding es k)
    with control_yield [OF inv ctl _ step] show ?thesis by blast
  next
    case Live
    with control_live [OF inv ctl _ step] show ?thesis by blast
  next
    case Marking
    with step have "i = Some (Inr CaughtUp)" "st = (sy_sub y)\<lparr>sb_phase := Live\<rparr>"
      by (simp_all add: generator_step_def)
    with ctl Marking show ?thesis
      unfolding control_inv_def Let_def
      by (intro exI [of _ c] exI [of _ n] exI [of _ m] exI [of _ lag])
        (simp add: emit_def reached_def received_def transcript_def max_absorb1)
  next
    case Finished
    with step have "i = None" "st = sy_sub y" by (simp_all add: generator_step_def)
    with ctl show ?thesis by (auto simp: emit_def)
  qed
  with inv show ?thesis by (simp add: sub_inv_def)
qed

lemma inv_step:
  assumes "sub_step C B (generator_step read keep key B) y y'" and "sub_inv f p0 y"
  shows "sub_inv f p0 y'"
  using assms(1)
proof cases
  case (append io fl sid ev ts ps s' rs)
  have wf: "log_wf (sy_log y)" using assms(2) by (simp add: sub_inv_def)
  from append(3) have "st_log s' = update_index sid (appended \<lparr>st_file = fl, st_log = sy_log y\<rparr> sid ts ps)
      (sy_log y)"
    by (auto simp: store_append_Inr_iff)
  with log_wf_update [OF wf append(4,5), of sid ts] have
    "log_wf (st_log s')" "\<exists>rs. el_events (st_log s') = el_events (sy_log y) @ rs"
    by (auto simp: appended_def update_index_def)
  with inv_append [OF assms(2)] append(1) show ?thesis by blast
next
  case publish
  with inv_publish [OF assms(2)] show ?thesis by blast
next
  case other_client
  with inv_other [OF assms(2)] show ?thesis by blast
next
  case (poll i st)
  with inv_poll [OF assms(2)] show ?thesis by blast
qed

lemma inv_steps:
  assumes "(sub_step C B (generator_step read keep key B))\<^sup>*\<^sup>* y y'" and "sub_inv f p0 y"
  shows "sub_inv f p0 y'"
  using assms by (induction rule: rtranclp_induct) (auto intro: inv_step)

lemma inv_transcript:
  assumes "sub_inv f p0 y"
  shows "\<exists>n m lag. f \<le> n \<and> n \<le> m \<and> m \<le> length (view y) \<and> (lag = [] \<or> lag = [Inl lag_error]) \<and>
    sy_out y = transcript (view y) (sb_phase (sy_sub y)) f n m lag \<and>
    (sb_phase (sy_sub y) = Live \<or> sb_phase (sy_sub y) = Finished \<longrightarrow>
       kept keep (el_events (sy_log y)) p0 \<le> n)"
  using assms unfolding sub_inv_def control_inv_def Let_def reached_def
  by (metis point_inv.simps(4,5))

subsection \<open>Progress\<close>

definition pending :: "('ch, 'rx) sub_system \<Rightarrow> nat" where
  "pending y = length (queue (br_tx (sy_broker y)) (sb_rx (sy_sub y)))"

text \<open>An upper bound on the polls until the generator waits for the next live event.\<close>

definition work :: "('ch, 'rx) sub_system \<Rightarrow> nat" where
  "work y =
     (let rest = length (view y) - unat (sb_cursor (sy_sub y)) in
      pending y + (case sb_phase (sy_sub y) of
        Reading \<Rightarrow> 3 * rest + 3
      | Yielding es k \<Rightarrow> if k < CATCHUP_BATCH_SIZE then length es + 2
                        else 3 * (rest - length es) + 4 + length es
      | Marking \<Rightarrow> 1
      | Live \<Rightarrow> 0
      | Finished \<Rightarrow> 0))"

abbreviation gen_poll :: "('ch, 'rx) sub_system \<Rightarrow> ('ch, 'rx) sub_system option" where
  "gen_poll \<equiv> poll_once (generator_step read keep key B)"

lemma poll_read:
  assumes inv: "sub_inv f p0 y" and ph: "sb_phase (sy_sub y) = Reading"
  shows "\<exists>y'. gen_poll y = Some y' \<and> work y' < work y \<and> sb_phase (sy_sub y') \<noteq> Finished"
proof -
  let ?V = "view y" and ?a = "sb_cursor (sy_sub y)"
  define es where "es = take (unat CATCHUP_BATCH_SIZE) (drop (unat ?a) ?V)"
  have a: "unat ?a \<le> length ?V" and wf: "log_wf (sy_log y)"
    using inv ph by (auto simp: sub_inv_def control_inv_def reached_def Let_def)
  have u: "unat (of_nat (length es) :: u64) = length es"
    using a view_small [OF inv] by (intro unat_of_nat_less) (simp add: es_def)
  have big: "\<not> (of_nat (length es) :: u64) < CATCHUP_BATCH_SIZE \<Longrightarrow>
      length es = 500 \<and> 500 \<le> length ?V - unat ?a"
    using u by (auto simp: word_less_nat_alt es_def CATCHUP_BATCH_SIZE_def)
  have small: "length es \<le> length ?V - unat ?a" by (simp add: es_def)
  from read_chunk [OF wf, of ?a] consider
    "read (read_index_new (sy_log y)) ?a = Some (Inr es)"
    | sid where "read (read_index_new (sy_log y)) ?a = Some (Inl (StreamNotFound sid))"
    by (auto simp: es_def)
  then show ?thesis
  proof cases
    case 1
    with ph big small show ?thesis
      by (cases "(of_nat (length es) :: u64) < CATCHUP_BATCH_SIZE")
        (simp_all add: poll_once_def generator_step_def work_def pending_def Let_def, linarith)
  next
    case 2
    with ph show ?thesis by (simp add: poll_once_def generator_step_def work_def pending_def Let_def)
  qed
qed

lemma poll_yield:
  assumes inv: "sub_inv f p0 y" and ph: "sb_phase (sy_sub y) = Yielding es k"
  shows "\<exists>y'. gen_poll y = Some y' \<and> work y' < work y \<and> sb_phase (sy_sub y') \<noteq> Finished"
proof (cases es)
  case Nil
  with ph show ?thesis
    by (cases "k < CATCHUP_BATCH_SIZE")
      (simp_all add: poll_once_def generator_step_def work_def pending_def Let_def)
next
  case (Cons e es')
  obtain n where n: "unat (sb_cursor (sy_sub y)) = n" "n + length es \<le> length (view y)"
    "window (view y) n (n + length es) = es"
    using inv ph by (auto simp: sub_inv_def control_inv_def Let_def)
  then have lt: "n < length (view y)" using Cons by simp
  have "e = view y ! n" using n(3) window_Cons [OF _ n(2)] Cons by simp
  with unat_key_Suc [OF inv lt] have "unat (key e + 1) = Suc n" by simp
  with ph Cons n(1,2) show ?thesis
    by (simp add: poll_once_def generator_step_def work_def pending_def Let_def)
qed

lemma poll_live:
  assumes inv: "sub_inv f p0 y" and ph: "sb_phase (sy_sub y) = Live"
    and cap: "pending y \<le> capacity (br_tx (sy_broker y))" and q: "pending y \<noteq> 0"
  shows "\<exists>y'. gen_poll y = Some y' \<and> work y' < work y \<and> sb_phase (sy_sub y') \<noteq> Finished"
proof -
  let ?ch = "br_tx (sy_broker y)" and ?rx = "sb_rx (sy_sub y)"
  have "live ?ch ?rx" using inv ph by (auto simp: sub_inv_def control_inv_def received_def Let_def)
  moreover obtain e qs where qs: "queue ?ch ?rx = e # qs" using q by (cases "queue ?ch ?rx") (auto simp: pending_def)
  ultimately obtain rx where "bc_recv B ?ch ?rx = (RecvOk e, rx)" "queue ?ch rx = qs"
    using recv_next cap by (metis pending_def)
  with ph qs show ?thesis
    by (simp add: poll_once_def generator_step_def work_def pending_def Let_def)
qed

lemma poll_progress:
  assumes inv: "sub_inv f p0 y" and ph: "sb_phase (sy_sub y) \<noteq> Finished"
    and cap: "pending y \<le> capacity (br_tx (sy_broker y))"
    and busy: "sb_phase (sy_sub y) \<noteq> Live \<or> pending y \<noteq> 0"
  shows "\<exists>y'. gen_poll y = Some y' \<and> work y' < work y \<and> sb_phase (sy_sub y') \<noteq> Finished"
proof (cases "sb_phase (sy_sub y)")
  case Marking
  then show ?thesis by (simp add: poll_once_def generator_step_def work_def pending_def Let_def)
qed (use assms poll_read poll_yield poll_live in auto)


lemma poll_once_frame:
  assumes "poll_once step y = Some y'"
  shows "sy_log y' = sy_log y" "sy_published y' = sy_published y" "sy_broker y' = sy_broker y"
  using assms by (auto simp: poll_once_def split: option.splits)

lemma poll_once_inv: "sub_inv f p0 y \<Longrightarrow> gen_poll y = Some y' \<Longrightarrow> sub_inv f p0 y'"
  using inv_poll by (auto simp: poll_once_def split: option.splits)

lemma pending_bound:
  assumes "sub_inv f p0 y" and "sb_phase (sy_sub y) \<noteq> Finished"
  shows "pending y \<le> sy_published y - p0"
proof -
  obtain c where "p0 \<le> c" "received y c"
    using assms by (auto simp: sub_inv_def control_inv_def Let_def)
  then show ?thesis using assms by (auto simp: received_def pending_def sub_inv_def length_window)
qed

lemma polls_drain:
  assumes "sub_inv f p0 y" and "sb_phase (sy_sub y) \<noteq> Finished"
    and "sy_published y - p0 \<le> capacity (br_tx (sy_broker y))"
  shows "\<exists>k y'. poll_many (generator_step read keep key B) k y = Some y' \<and> sub_inv f p0 y' \<and>
    sb_phase (sy_sub y') = Live \<and> pending y' = 0 \<and> sy_log y' = sy_log y \<and>
    sy_published y' = sy_published y"
  using assms
proof (induction "work y" arbitrary: y rule: less_induct)
  case less
  show ?case
  proof (cases "sb_phase (sy_sub y) = Live \<and> pending y = 0")
    case True
    with less.prems(1) show ?thesis by (intro exI [of _ 0] exI [of _ y]) simp
  next
    case False
    have "pending y \<le> capacity (br_tx (sy_broker y))"
      using pending_bound [OF less.prems(1,2)] less.prems(3) by simp
    with poll_progress [OF less.prems(1,2)] False obtain y' where
      y': "gen_poll y = Some y'" "work y' < work y" "sb_phase (sy_sub y') \<noteq> Finished" by auto
    note fr = poll_once_frame [OF y'(1)]
    from less.hyps [OF y'(2) poll_once_inv [OF less.prems(1) y'(1)] y'(3)] less.prems(3) fr
    obtain k y'' where "poll_many (generator_step read keep key B) k y' = Some y''"
      "sub_inv f p0 y''" "sb_phase (sy_sub y'') = Live" "pending y'' = 0" "sy_log y'' = sy_log y"
      "sy_published y'' = sy_published y" by auto
    with y'(1) show ?thesis by (intro exI [of _ "Suc k"] exI [of _ y'']) simp
  qed
qed

lemma drained_transcript:
  assumes inv: "sub_inv f p0 y" and ph: "sb_phase (sy_sub y) = Live" and q: "pending y = 0"
  shows "\<exists>n m. sy_out y = messages (window (view y) f n) @ Inr CaughtUp # messages (window (view y) n m) \<and>
    f \<le> n \<and> n \<le> m \<and> m \<le> length (view y) \<and> kept keep (el_events (sy_log y)) (sy_published y) \<le> m"
proof -
  obtain c n m where c: "received y c" "sy_out y = transcript (view y) Live f n m []" "f \<le> n" "n \<le> m"
    "m \<le> length (view y)" "m = max n (kept keep (el_events (sy_log y)) c)"
    using inv ph by (auto simp: sub_inv_def control_inv_def reached_def Let_def)
  have "window (el_events (sy_log y)) c (sy_published y) = []" using c(1) q by (simp add: received_def pending_def)
  moreover have "c \<le> sy_published y" "sy_published y \<le> length (el_events (sy_log y))"
    using c(1) inv by (simp_all add: received_def sub_inv_def)
  ultimately have "c = sy_published y" by (metis diff_is_0_eq le_antisym length_window list.size(3))
  with c show ?thesis by (intro exI [of _ n] exI [of _ m]) (simp add: transcript_def)
qed

end

lemma poll_many_steps: "poll_many step k y = Some y' \<Longrightarrow> (sub_step C B step)\<^sup>*\<^sup>* y y'"
proof (induction k arbitrary: y)
  case (Suc k)
  then obtain z where "poll_once step y = Some z" "poll_many step k z = Some y'"
    by (auto split: option.splits)
  moreover from this(1) have "sub_step C B step y z"
    by (auto simp: poll_once_def intro: sub_step.poll split: option.splits)
  ultimately show ?case using Suc.IH by (metis converse_rtranclp_into_rtranclp)
qed simp

text \<open>The generators started by the sources.\<close>

lemma subscribe_all_start:
  "subscribe_all B b from = (\<lparr>sb_phase = Reading, sb_cursor = from, sb_last = None,
     sb_rx = fst (broker_subscribe B b)\<rparr>, snd (broker_subscribe B b))"
  by (simp add: subscribe_all_def case_prod_beta)

lemma subscribe_stream_start:
  "subscribe_stream B b from = (\<lparr>sb_phase = Reading, sb_cursor = from, sb_last = None,
     sb_rx = fst (broker_subscribe B b)\<rparr>, snd (broker_subscribe B b))"
  by (simp add: subscribe_stream_def case_prod_beta)

lemma filter_all: "filter (\<lambda>_. True) xs = xs"
  by (induction xs) simp_all

lemma kept_all: "p \<le> length es \<Longrightarrow> kept (\<lambda>_. True) es p = p"
  by (simp add: kept_def)

interpretation all_bl: subscription read_all_chunk "\<lambda>_. True" re_global_position bc_list_ops
  "\<lambda>ch rx. drop rx (bl_sent ch)" "\<lambda>ch rx. rx \<le> length (bl_sent ch)" bl_cap ..

interpretation stream_bl: subscription "read_stream_chunk sid" "\<lambda>e. re_stream_id e = sid"
  re_stream_version bc_list_ops "\<lambda>ch rx. drop rx (bl_sent ch)" "\<lambda>ch rx. rx \<le> length (bl_sent ch)" bl_cap
  for sid ..

lemma all_subscription:
  "broadcast_channel B queue live capacity \<Longrightarrow>
   subscription read_all_chunk (\<lambda>_. True) re_global_position B queue live capacity"
  by (intro subscription.intro all_view.subscription_view_axioms)

lemma stream_subscription:
  "broadcast_channel B queue live capacity \<Longrightarrow>
   subscription (read_stream_chunk sid) (\<lambda>e. re_stream_id e = sid) re_stream_version B queue live capacity"
  by (intro subscription.intro stream_view.subscription_view_axioms)

end
