(* ===== verification/Subscription_Delivery.thy ===== *)
theory Subscription_Delivery
  imports Subscription Recovery
begin

text \<open>
  The properties of the two subscription streams: what has been delivered at any moment of any
  interleaving with the writer, that polling delivers everything published, and what happens when
  a client asks for a position beyond the head of the log.
\<close>

definition demo_log :: event_log where
  "demo_log = update_index 1 (appended demo_store 1 9 [demo_proposed 4, demo_proposed 5]) (st_log demo_store)"

lemma log_wf_demo_log: "log_wf demo_log"
  using log_wf_update [OF log_wf_demo, of "[demo_proposed 4, demo_proposed 5]" 1 9]
  by (simp add: demo_log_def appended_def demo_store_def empty_log_def)

lemma length_demo_log: "length (el_events demo_log) = 2"
  by (simp add: demo_log_def update_index_def demo_store_def empty_log_def)

definition demo_broker :: "bc_list broker" where
  "demo_broker = broker_new bc_list_ops 16"

definition demo_sub :: "(bc_list, nat) sub_system" where
  "demo_sub = sub_start (\<lambda>b. subscribe_all bc_list_ops b 1) demo_log 2 demo_broker"

lemma all_run_inv:
  assumes "broadcast_channel B queue live capacity"
    and "log_wf log" and "p0 \<le> length (el_events log)" and "unat from \<le> p0"
    and "(sub_step C B (subscribe_all_step B))\<^sup>*\<^sup>* (sub_start (\<lambda>b. subscribe_all B b from) log p0 b) y"
  shows "subscription.sub_inv (\<lambda>_. True) queue live (unat from) p0 y"
proof -
  note S = all_subscription [OF assms(1)]
  have "subscription.sub_inv (\<lambda>_. True) queue live (unat from) p0
      (sub_start (\<lambda>b. subscribe_all B b from) log p0 b)"
    using assms(2-4) by (intro subscription.inv_start [OF S]) (simp_all add: kept_all subscribe_all_start)
  then show ?thesis
    using subscription.inv_steps [OF S] assms(5) by (simp add: subscribe_all_generator)
qed

text \<open>
  Polling alone makes progress: from every reachable state that has not lagged out, finitely many polls
  reach the live phase with every published event delivered.
\<close>

lemma all_run_drains:
  assumes "broadcast_channel B queue live capacity"
    and "log_wf log" and "p0 \<le> length (el_events log)" and "unat from \<le> p0"
    and "(sub_step C B (subscribe_all_step B))\<^sup>*\<^sup>* (sub_start (\<lambda>b. subscribe_all B b from) log p0 b) y"
    and "sb_phase (sy_sub y) \<noteq> Finished"
    and "sy_published y - p0 \<le> capacity (br_tx (sy_broker y))"
  shows "\<exists>k y' n m. poll_many (subscribe_all_step B) k y = Some y' \<and> sy_log y' = sy_log y \<and>
    unat from \<le> n \<and> n \<le> m \<and> sy_published y \<le> m \<and>
    sy_out y' = messages (window (el_events (sy_log y)) (unat from) n) @ Inr CaughtUp #
      messages (window (el_events (sy_log y)) n m)"
proof -
  note S = all_subscription [OF assms(1)]
  note inv = all_run_inv [OF assms(1-5)]
  then have pub: "sy_published y \<le> length (el_events (sy_log y))"
    by (auto simp: subscription.sub_inv_def [OF S])
  from subscription.polls_drain [OF S inv assms(6,7)] obtain k y' where
    y': "poll_many (subscribe_all_step B) k y = Some y'"
      "subscription.sub_inv (\<lambda>_. True) queue live (unat from) p0 y'" "sb_phase (sy_sub y') = Live"
      "subscription.pending queue y' = 0" "sy_log y' = sy_log y" "sy_published y' = sy_published y"
    by (auto simp: subscribe_all_generator)
  from subscription.drained_transcript [OF S y'(2-4)] y'(5,6) pub obtain n m where
    "sy_out y' = messages (window (el_events (sy_log y)) (unat from) n) @ Inr CaughtUp #
       messages (window (el_events (sy_log y)) n m)" "unat from \<le> n" "n \<le> m" "sy_published y \<le> m"
    by (auto simp: filter_all kept_all)
  with y'(1,5) show ?thesis by blast
qed

text \<open>
  C10: a global subscription from a position that was already published never loses, repeats or
  reorders an event, whatever the interleaving with appends and publication. At any moment the
  stream has yielded a contiguous run of the log from the requested position, with one \<open>CaughtUp\<close>
  marker that comes after everything published before the subscription, and an error only as a
  last item, when the receiver lagged.
\<close>

theorem subscribe_all_delivery:
  assumes "broadcast_channel B queue live capacity"
    and "log_wf log" and "p0 \<le> length (el_events log)" and "unat from \<le> p0"
    and "(sub_step C B (subscribe_all_step B))\<^sup>*\<^sup>* (sub_start (\<lambda>b. subscribe_all B b from) log p0 b) y"
  shows "\<exists>n m lag. unat from \<le> n \<and> n \<le> m \<and> m \<le> length (el_events (sy_log y)) \<and>
    (lag = [] \<or> lag = [Inl lag_error]) \<and>
    sy_out y = transcript (el_events (sy_log y)) (sb_phase (sy_sub y)) (unat from) n m lag \<and>
    (sb_phase (sy_sub y) = Live \<or> sb_phase (sy_sub y) = Finished \<longrightarrow> p0 \<le> n)"
proof -
  note S = all_subscription [OF assms(1)]
  note inv = all_run_inv [OF assms]
  then have "p0 \<le> length (el_events (sy_log y))"
    by (auto simp: subscription.sub_inv_def [OF S])
  with subscription.inv_transcript [OF S inv] show ?thesis by (simp only: kept_all filter_all)
qed

text \<open>
  C11: the same for a subscription to one stream, over the stream's own events: a contiguous run of
  versions from the requested one, filtered out of whatever else is published.
\<close>

theorem subscribe_stream_delivery:
  assumes "broadcast_channel B queue live capacity"
    and "log_wf log" and "p0 \<le> length (el_events log)"
    and "unat from \<le> length (stream_events (take p0 (el_events log)) sid)"
    and "(sub_step C B (subscribe_stream_step B sid))\<^sup>*\<^sup>*
           (sub_start (\<lambda>b. subscribe_stream B b from) log p0 b) y"
  defines "V \<equiv> stream_events (el_events (sy_log y)) sid"
  shows "\<exists>n m lag. unat from \<le> n \<and> n \<le> m \<and> m \<le> length V \<and> (lag = [] \<or> lag = [Inl lag_error]) \<and>
    sy_out y = transcript V (sb_phase (sy_sub y)) (unat from) n m lag \<and>
    (sb_phase (sy_sub y) = Live \<or> sb_phase (sy_sub y) = Finished \<longrightarrow>
       length (stream_events (take p0 (el_events (sy_log y))) sid) \<le> n)"
proof -
  note S = stream_subscription [OF assms(1), of sid]
  let ?k = "\<lambda>e. re_stream_id e = sid"
  let ?y0 = "sub_start (\<lambda>b. subscribe_stream B b from) log p0 b"
  have "subscription.sub_inv ?k queue live (unat from) p0 ?y0"
    using assms(2-4) by (intro subscription.inv_start [OF S])
      (simp_all add: kept_def stream_events_def subscribe_stream_start)
  then have inv: "subscription.sub_inv ?k queue live (unat from) p0 y"
    using subscription.inv_steps [OF S] assms(5) by (simp add: subscribe_stream_generator)
  from subscription.inv_transcript [OF S inv] show ?thesis
    unfolding V_def stream_events_def kept_def .
qed

lemma demo_sub_ok:
  "unat (1 :: u64) \<le> 2" "2 \<le> length (el_events demo_log)" "sb_phase (sy_sub demo_sub) \<noteq> Finished"
  "sy_published demo_sub - 2 \<le> bl_cap (br_tx (sy_broker demo_sub))"
  by (simp_all add: length_demo_log demo_sub_def sub_start_def subscribe_all_start)

theorem subscribe_all_delivery_witness:
  "\<exists>y n m lag. (sub_step demo_crc bc_list_ops (subscribe_all_step bc_list_ops))\<^sup>*\<^sup>* demo_sub y \<and>
     sb_phase (sy_sub y) = Live \<and>
     sy_out y = transcript (el_events (sy_log y)) Live 1 n m lag \<and> 2 \<le> n"
proof -
  have "all_bl.sub_inv (unat (1 :: u64)) 2 demo_sub"
    unfolding demo_sub_def using log_wf_demo_log demo_sub_ok(1,2)
    by (intro all_bl.inv_start) (simp_all add: kept_all subscribe_all_start)
  from all_bl.polls_drain [OF this demo_sub_ok(3,4)] obtain k y where
    "poll_many (subscribe_all_step bc_list_ops) k demo_sub = Some y" and ph: "sb_phase (sy_sub y) = Live"
    by (auto simp: subscribe_all_generator)
  then have r: "(sub_step demo_crc bc_list_ops (subscribe_all_step bc_list_ops))\<^sup>*\<^sup>* demo_sub y"
    by (intro poll_many_steps)
  from subscribe_all_delivery [OF bl.broadcast_channel_axioms log_wf_demo_log demo_sub_ok(2,1)
      r [unfolded demo_sub_def]] ph r
  show ?thesis by auto
qed

theorem subscribe_stream_delivery_witness:
  "\<exists>y n m lag. (sub_step demo_crc bc_list_ops (subscribe_stream_step bc_list_ops 1))\<^sup>*\<^sup>*
       (sub_start (\<lambda>b. subscribe_stream bc_list_ops b 0) demo_log 2 demo_broker) y \<and>
     sb_phase (sy_sub y) = Live \<and>
     sy_out y = transcript (stream_events (el_events (sy_log y)) 1) Live 0 n m lag"
proof -
  let ?y0 = "sub_start (\<lambda>b. subscribe_stream bc_list_ops b 0) demo_log 2 demo_broker"
  have from0: "unat (0 :: u64) \<le> length (stream_events (take 2 (el_events demo_log)) 1)" by simp
  have "stream_bl.sub_inv 1 (unat (0 :: u64)) 2 ?y0"
    using log_wf_demo_log demo_sub_ok(2)
    by (intro stream_bl.inv_start) (simp_all add: subscribe_stream_start)
  from stream_bl.polls_drain [OF this] obtain k y where
    "poll_many (subscribe_stream_step bc_list_ops 1) k ?y0 = Some y" and ph: "sb_phase (sy_sub y) = Live"
    by (auto simp: subscribe_stream_generator sub_start_def subscribe_stream_start)
  then have r: "(sub_step demo_crc bc_list_ops (subscribe_stream_step bc_list_ops 1))\<^sup>*\<^sup>* ?y0 y"
    by (intro poll_many_steps)
  from subscribe_stream_delivery [OF bl.broadcast_channel_axioms log_wf_demo_log demo_sub_ok(2) from0 r] ph r
  show ?thesis by auto
qed

subsection \<open>Positions beyond the head\<close>

lemma future_catch_up:
  fixes B :: "('ch, 'rx) broadcast_ops" and b :: "'ch broker" and p0 :: nat
  assumes "log_wf log" and "length (el_events log) \<le> unat from"
  defines "y0 \<equiv> sub_start (\<lambda>b. subscribe_all B b from) log p0 b"
  shows "poll_many (subscribe_all_step B) 3 y0 =
    Some (y0\<lparr>sy_sub := (sy_sub y0)\<lparr>sb_phase := Live\<rparr>, sy_out := [Inr CaughtUp]\<rparr>)"
  using assms(1,2) ri_reader.read_all [of "read_index_new log" "from" CATCHUP_BATCH_SIZE]
  by (simp add: numeral_3_eq_3 poll_once_def y0_def sub_start_def subscribe_all_start
      subscribe_all_step_def read_index_new_def emit_def CATCHUP_BATCH_SIZE_def)

text \<open>
  C38: a subscription from a position beyond the head of the log is not held back to that position.
  Catch-up reads nothing, so the duplicate filter stays off, and the next event that is appended and
  published is delivered although its position lies before the requested one.
\<close>

theorem subscribe_all_future_position:
  assumes "broadcast_channel B queue live capacity"
    and "log_wf log" and "length (el_events log) < unat from"
    and "0 < capacity (snd (bc_subscribe B (br_tx b)))"
    and "store_append C io \<lparr>st_file = file, st_log = log\<rparr> sid ev ts [p] = (s', Inr [e])"
  shows "\<exists>y. (sub_step C B (subscribe_all_step B))\<^sup>*\<^sup>*
      (sub_start (\<lambda>b. subscribe_all B b from) log (length (el_events log)) b) y \<and>
    sy_out y = [Inr CaughtUp, Inr (EventMsg e)] \<and> re_global_position e < from"
proof -
  let ?step = "subscribe_all_step B" and ?E = "el_events log"
  define y0 where "y0 = sub_start (\<lambda>b. subscribe_all B b from) log (length ?E) b"
  define y1 where "y1 = y0\<lparr>sy_sub := (sy_sub y0)\<lparr>sb_phase := Live\<rparr>, sy_out := [Inr CaughtUp]\<rparr>"
  define y2 where "y2 = y1\<lparr>sy_log := st_log s'\<rparr>"
  define y3 where "y3 = y2\<lparr>sy_broker := broker_publish B [e] (sy_broker y2),
    sy_published := Suc (length ?E)\<rparr>"
  have e: "[e] = appended \<lparr>st_file = file, st_log = log\<rparr> sid ts [p]" "el_events (st_log s') = ?E @ [e]"
    using assms(5) by (auto simp: store_append_Inr_iff update_index_def)
  have small: "unat from < 2 ^ 64" using unsigned_less [of "from"] by simp
  have "sub_step C B ?step y1 y2"
    unfolding y2_def
    by (rule sub_step.append [where ps = "[p]" and rs = "[e]"])
      (use assms(3,5) small in \<open>simp_all add: y1_def y0_def sub_start_def\<close>)
  moreover have "sub_step C B ?step y2 y3"
    using sub_step.publish [of y2 C B ?step] e(2)
    by (simp add: y3_def y2_def y1_def y0_def sub_start_def)
  moreover have "(sub_step C B ?step)\<^sup>*\<^sup>* y0 y1"
    using future_catch_up [OF assms(2), of "from" B "length ?E" b] assms(3)
    by (intro poll_many_steps [of _ 3]) (simp add: y1_def y0_def)
  ultimately have r3: "(sub_step C B ?step)\<^sup>*\<^sup>* y0 y3" by (meson rtranclp.rtrancl_into_rtrancl)
  let ?ch = "snd (bc_subscribe B (br_tx b))" and ?rx = "fst (bc_subscribe B (br_tx b))"
  note bc = broadcast_channel.subscribe_new [OF assms(1), of "br_tx b"]
  have "\<exists>rx'. bc_recv B (snd (bc_send B ?ch e)) ?rx = (RecvOk e, rx')"
    using broadcast_channel.recv_next [OF assms(1), of "snd (bc_send B ?ch e)" ?rx e "[]"]
      broadcast_channel.send [OF assms(1), of ?ch ?rx e] bc assms(4)
      broadcast_channel.capacity_send [OF assms(1), of ?ch e] by auto
  then obtain rx' where "bc_recv B (snd (bc_send B ?ch e)) ?rx = (RecvOk e, rx')" by blast
  then have "?step (read_index_new (sy_log y3)) (sy_broker y3) (sy_sub y3)
      = Some (Some (Inr (EventMsg e)), (sy_sub y3)\<lparr>sb_rx := rx'\<rparr>)"
    by (simp add: y3_def y2_def y1_def y0_def sub_start_def subscribe_all_start subscribe_all_step_def
        broker_publish_def broker_subscribe_def case_prod_beta)
  from rtranclp.rtrancl_into_rtrancl [OF r3 sub_step.poll [where step = ?step, OF this]]
  have "(sub_step C B ?step)\<^sup>*\<^sup>* y0 (y3\<lparr>sy_sub := (sy_sub y3)\<lparr>sb_rx := rx'\<rparr>,
      sy_out := [Inr CaughtUp, Inr (EventMsg e)]\<rparr>)"
    by (simp add: emit_def y3_def y2_def y1_def)
  moreover have "re_global_position e < from"
    using e(1) assms(2,3) unat_of_nat_less [where ?'a = 64, of "length ?E"]
    by (simp add: appended_def word_less_nat_alt mk_recorded_def log_wf_def)
  ultimately show ?thesis unfolding y0_def by fastforce
qed

theorem subscribe_all_future_position_witness:
  "\<exists>y e. (sub_step demo_crc bc_list_ops (subscribe_all_step bc_list_ops))\<^sup>*\<^sup>*
      (sub_start (\<lambda>b. subscribe_all bc_list_ops b 7) demo_log 2 demo_broker) y \<and>
    sy_out y = [Inr CaughtUp, Inr (EventMsg e)] \<and> re_global_position e < 7"
proof -
  obtain s' rs where "store_append demo_crc append_io_ok \<lparr>st_file = [], st_log = demo_log\<rparr> 1 Any 9
      [demo_proposed 8] = (s', Inr rs)"
    using append_ok_any [of "[demo_proposed 8]" demo_crc "\<lparr>st_file = [], st_log = demo_log\<rparr>" 1 9] by auto
  moreover from this have "length rs = 1" by (simp add: store_append_Inr_iff)
  ultimately obtain e where a: "store_append demo_crc append_io_ok \<lparr>st_file = [], st_log = demo_log\<rparr> 1 Any 9
      [demo_proposed 8] = (s', Inr [e])"
    by (metis length_0_conv length_Suc_conv One_nat_def)
  have "0 < bl_cap (snd (bc_subscribe bc_list_ops (br_tx demo_broker)))"
    by (simp add: bc_list_ops_def demo_broker_def broker_new_def)
  from subscribe_all_future_position [OF bl.broadcast_channel_axioms log_wf_demo_log _ this a, of 7]
  show ?thesis by (auto simp: length_demo_log)
qed

end
