(* ===== verification/Server_Process.thy ===== *)
theory Server_Process
  imports Server Writer_Channel Subscription_Delivery Event_Store_Spec
begin

text \<open>
  The running server as its clients see it: \<open>main\<close> of \<open>src/main.rs\<close> from the moment it serves, with the RPC
  handlers of \<open>src/service.rs\<close> beside the writer task. Calls come in (those the interceptor admits), wait,
  and are answered; response streams are polled; the signal makes the health service report not serving
  and the listener stop; the gRPC server then waits until every open RPC has completed (\<open>tonic\<close>'s graceful
  shutdown); the metrics task is aborted and both writer handles are dropped; the writer task is joined.

  An Append RPC is first a request not yet in the channel, then a token that waits for its answer. A client
  that goes away before the answer makes the server drop the call: a request that is not in the channel yet
  is lost, one that is will be served with nobody to answer. A subscription RPC is a response stream, polled until it ends or its client goes away.
\<close>

datatype exit_phase = Up | DrainingRpcs | JoiningWriter | ExitedOk

text \<open>The phases come in this order.\<close>

fun phase_rank :: "exit_phase \<Rightarrow> nat" where
  "phase_rank Up = 0"
| "phase_rank DrainingRpcs = 1"
| "phase_rank JoiningWriter = 2"
| "phase_rank ExitedOk = 3"

instantiation exit_phase :: linorder
begin

definition less_eq_exit_phase :: "exit_phase \<Rightarrow> exit_phase \<Rightarrow> bool" where
  "less_eq_exit_phase a b \<longleftrightarrow> phase_rank a \<le> phase_rank b"

definition less_exit_phase :: "exit_phase \<Rightarrow> exit_phase \<Rightarrow> bool" where
  "less_exit_phase a b \<longleftrightarrow> phase_rank a < phase_rank b"

instance
proof
  have rank: "phase_rank a = phase_rank b \<Longrightarrow> a = b" for a b :: exit_phase
    by (cases a; cases b) simp_all
  show "a \<le> b \<Longrightarrow> b \<le> a \<Longrightarrow> a = b" for a b :: exit_phase
    using rank by (simp add: less_eq_exit_phase_def)
qed (auto simp: less_eq_exit_phase_def less_exit_phase_def)

end

lemma phase_order [simp]:
  "Up \<le> ph" "ph \<le> ExitedOk" "Up < DrainingRpcs" "Up < JoiningWriter" "Up < ExitedOk"
  "DrainingRpcs < JoiningWriter" "DrainingRpcs \<le> JoiningWriter" "\<not> JoiningWriter \<le> Up"
  "\<not> JoiningWriter \<le> DrainingRpcs" "\<not> ExitedOk < JoiningWriter"
  by (cases ph; simp add: less_eq_exit_phase_def less_exit_phase_def)+

text \<open>
  What a SubscribeAll or SubscribeStream call asks for, and its validation by the handler.
\<close>

datatype sub_call = CallAll u64 | CallStream string u64

datatype sub_request = AllFrom u64 | StreamFrom uuid u64

definition sub_arguments :: "uuid_ops \<Rightarrow> sub_call \<Rightarrow> status + sub_request" where
  "sub_arguments U call =
     (case call of
        CallAll from_position \<Rightarrow> Inr (AllFrom from_position)
      | CallStream stream_id from_version \<Rightarrow>
          and_then (service_subscribe_stream U stream_id) (\<lambda>sid. Inr (StreamFrom sid from_version)))"

record ('addr, 'c, 'ch, 'rx) process =
  pr_phase :: exit_phase
  pr_serving_all :: bool
  pr_serving_store :: bool
  pr_metrics_task :: "'addr option"
  pr_writer :: "('c, 'ch) writer_system"
  pr_gauge :: service_metrics
  pr_streams :: "(sub_request \<times> 'rx sub_stream) list"
  pr_unsent :: "append_request list"
  pr_waiting :: "nat list"
  pr_abandoned :: "nat list"

abbreviation process_log :: "('addr, 'c, 'ch, 'rx) process \<Rightarrow> event_log" where
  "process_log p \<equiv> st_log (ws_store (wy_state (pr_writer p)))"

abbreviation process_broker :: "('addr, 'c, 'ch, 'rx) process \<Rightarrow> 'ch broker" where
  "process_broker p \<equiv> ws_broker (wy_state (pr_writer p))"

text \<open>A started server: \<open>main\<close> and the service each hold a writer handle.\<close>

definition process_start :: "('key, 'addr, 'c, 'ch) server \<Rightarrow> service_metrics \<Rightarrow> ('addr, 'c, 'ch, 'rx) process" where
  "process_start sv m =
     \<lparr>pr_phase = Up, pr_serving_all = sv_serving_all sv, pr_serving_store = sv_serving_store sv,
      pr_metrics_task = sv_metrics sv,
      pr_writer = (writer_system_start (sv_writer sv))\<lparr>wy_handles := 2\<rparr>,
      pr_gauge = m, pr_streams = [], pr_unsent = [], pr_waiting = [], pr_abandoned = []\<rparr>"

definition stream_poll ::
  "uuid_ops \<Rightarrow> ('ch, 'rx) broadcast_ops \<Rightarrow> ('c, 'ch) writer_state \<Rightarrow> service_metrics \<Rightarrow> sub_request \<Rightarrow> 'rx sub_stream
     \<Rightarrow> ((status + sub_content) option \<times> 'rx sub_stream \<times> 'ch broker \<times> service_metrics) option" where
  "stream_poll U B st m req s =
     (let r = read_index_new (st_log (ws_store st)) in
      case req of
        AllFrom p \<Rightarrow> service_subscribe_all_poll U B r p (ws_broker st, m) s
      | StreamFrom sid v \<Rightarrow> service_subscribe_stream_poll U B r sid v (ws_broker st, m) s)"

definition set_broker :: "'ch broker \<Rightarrow> ('c, 'ch) writer_system \<Rightarrow> ('c, 'ch) writer_system" where
  "set_broker b y = y\<lparr>wy_state := (wy_state y)\<lparr>ws_broker := b\<rparr>\<rparr>"

text \<open>The response channels of all Append calls so far.\<close>

definition tokens :: "('addr, 'c, 'ch, 'rx) process \<Rightarrow> nat set" where
  "tokens p = ar_response_tx ` set (pr_unsent p @ wy_batch (pr_writer p) @ wy_queue (pr_writer p)) \<union>
     fst ` set (ws_responses (wy_state (pr_writer p))) \<union> set (pr_abandoned p)"

text \<open>
  The labels are what crosses the wire, with the operating system's signal: calls with their arguments,
  answers (\<open>None\<close>: the handler panicked), and each poll of a response stream with the message it sends,
  if any. Unary reads and refused calls are answered at once.
\<close>

datatype process_event =
    AppendCall nat proto_append_request
  | AppendRefused proto_append_request status
  | AppendReply nat "(status + proto_append_response) option"
  | AppendAbandoned nat
  | ReadStreamCall string u64 u64 "(status + proto_recorded_event list) option"
  | ReadAllCall u64 u64 "proto_recorded_event list option"
  | ListStreamsCall "proto_stream_info list"
  | SubscribeCall sub_call
  | SubscribeRefused sub_call status
  | Polled nat "(status + sub_content) option"
  | ClientGone nat
  | Signal
  | Silent

inductive process_step ::
  "uuid_ops \<Rightarrow> ('c, 'ch, 'rx) writer_env \<Rightarrow> nat \<Rightarrow> ('addr, 'c, 'ch, 'rx) process \<Rightarrow> process_event
     \<Rightarrow> ('addr, 'c, 'ch, 'rx) process \<Rightarrow> bool" for U W capacity where
  task: "writer_task W (pr_writer p) served y \<Longrightarrow>
     process_step U W capacity p Silent (p\<lparr>pr_writer := y\<rparr>)"
| begin_append: "pr_phase p = Up \<Longrightarrow> append_arguments U call = Inr arguments \<Longrightarrow> t \<notin> tokens p \<Longrightarrow>
     process_step U W capacity p (AppendCall t call) (p\<lparr>pr_unsent := pr_unsent p @ [append_task arguments t]\<rparr>)"
| refuse_append: "pr_phase p = Up \<Longrightarrow> append_arguments U call = Inl st \<Longrightarrow>
     process_step U W capacity p (AppendRefused call st) p"
| send: "pr_unsent p = req # rest \<Longrightarrow> client_step capacity (pr_writer p) [req] y \<Longrightarrow>
     process_step U W capacity p Silent
       (p\<lparr>pr_unsent := rest, pr_writer := y, pr_waiting := pr_waiting p @ [ar_response_tx req]\<rparr>)"
| answered: "t \<in> set (pr_waiting p) \<Longrightarrow> (t, result) \<in> set (ws_responses (wy_state (pr_writer p))) \<Longrightarrow>
     process_step U W capacity p (AppendReply t (append_response U result))
       (p\<lparr>pr_waiting := remove1 t (pr_waiting p)\<rparr>)"
| abandon_unsent: "pr_unsent p = before @ req # after \<Longrightarrow>
     process_step U W capacity p (AppendAbandoned (ar_response_tx req))
       (p\<lparr>pr_unsent := before @ after, pr_abandoned := ar_response_tx req # pr_abandoned p\<rparr>)"
| abandon_waiting: "t \<in> set (pr_waiting p) \<Longrightarrow>
     process_step U W capacity p (AppendAbandoned t)
       (p\<lparr>pr_waiting := remove1 t (pr_waiting p), pr_abandoned := t # pr_abandoned p\<rparr>)"
| read_stream: "pr_phase p = Up \<Longrightarrow>
     service_read_stream U (read_index_new (process_log p)) sid from max_count (pr_gauge p) = (out, m) \<Longrightarrow>
     process_step U W capacity p (ReadStreamCall sid from max_count out) (p\<lparr>pr_gauge := m\<rparr>)"
| read_all: "pr_phase p = Up \<Longrightarrow>
     service_read_all U (read_index_new (process_log p)) from max_count (pr_gauge p) = (out, m) \<Longrightarrow>
     process_step U W capacity p (ReadAllCall from max_count out) (p\<lparr>pr_gauge := m\<rparr>)"
| list_streams: "pr_phase p = Up \<Longrightarrow>
     process_step U W capacity p (ListStreamsCall (service_list_streams U (read_index_new (process_log p)))) p"
| subscribe: "pr_phase p = Up \<Longrightarrow> sub_arguments U call = Inr req \<Longrightarrow>
     process_step U W capacity p (SubscribeCall call) (p\<lparr>pr_streams := pr_streams p @ [(req, NotStarted)]\<rparr>)"
| refuse_subscribe: "pr_phase p = Up \<Longrightarrow> sub_arguments U call = Inl st \<Longrightarrow>
     process_step U W capacity p (SubscribeRefused call st) p"
| poll: "i < length (pr_streams p) \<Longrightarrow> pr_streams p ! i = (req, s) \<Longrightarrow> s \<noteq> Ended \<Longrightarrow>
     stream_poll U (we_bc W) (wy_state (pr_writer p)) (pr_gauge p) req s = Some (out, s', b, m) \<Longrightarrow>
     process_step U W capacity p (Polled i out)
       (p\<lparr>pr_streams := (pr_streams p)[i := (req, s')], pr_writer := set_broker b (pr_writer p), pr_gauge := m\<rparr>)"
| client_gone: "i < length (pr_streams p) \<Longrightarrow> pr_streams p ! i = (req, s) \<Longrightarrow> s \<noteq> Ended \<Longrightarrow>
     service_sub_drop (pr_gauge p) s = (s', m) \<Longrightarrow>
     process_step U W capacity p (ClientGone i) (p\<lparr>pr_streams := (pr_streams p)[i := (req, s')], pr_gauge := m\<rparr>)"
| signal: "pr_phase p = Up \<Longrightarrow>
     process_step U W capacity p Signal
       (p\<lparr>pr_phase := DrainingRpcs, pr_serving_all := False, pr_serving_store := False\<rparr>)"
| drained: "pr_phase p = DrainingRpcs \<Longrightarrow> \<forall>(req, s) \<in> set (pr_streams p). s = Ended \<Longrightarrow>
     pr_unsent p = [] \<Longrightarrow> pr_waiting p = [] \<Longrightarrow>
     process_step U W capacity p Silent
       (p\<lparr>pr_phase := JoiningWriter, pr_metrics_task := None,
          pr_writer := (pr_writer p)\<lparr>wy_handles := wy_handles (pr_writer p) - 2\<rparr>\<rparr>)"
| joined: "pr_phase p = JoiningWriter \<Longrightarrow> wy_phase (pr_writer p) = LoopExited \<Longrightarrow>
     process_step U W capacity p Silent (p\<lparr>pr_phase := ExitedOk\<rparr>)"

inductive_cases process_stepE: "process_step U W capacity p l p'"

subsection \<open>The invariant\<close>

definition in_writer :: "('addr, 'c, 'ch, 'rx) process \<Rightarrow> nat set" where
  "in_writer p = ar_response_tx ` set (wy_batch (pr_writer p) @ wy_queue (pr_writer p))"

definition responded :: "('addr, 'c, 'ch, 'rx) process \<Rightarrow> nat set" where
  "responded p = fst ` set (ws_responses (wy_state (pr_writer p)))"

definition process_inv :: "('addr, 'c, 'ch, 'rx) process \<Rightarrow> bool" where
  "process_inv p \<longleftrightarrow>
     (wy_phase (pr_writer p) = Receiving \<longrightarrow> wy_batch (pr_writer p) = []) \<and>
     (wy_phase (pr_writer p) = LoopExited \<longrightarrow> wy_batch (pr_writer p) = [] \<and> wy_queue (pr_writer p) = []) \<and>
     (Up < pr_phase p \<longrightarrow> \<not> pr_serving_all p \<and> \<not> pr_serving_store p) \<and>
     (pr_phase p = ExitedOk \<longrightarrow> wy_phase (pr_writer p) = LoopExited) \<and>
     (JoiningWriter \<le> pr_phase p \<longrightarrow> pr_metrics_task p = None) \<and>
     (pr_phase p < JoiningWriter \<longrightarrow> wy_handles (pr_writer p) = 2 \<and> wy_phase (pr_writer p) \<noteq> LoopExited) \<and>
     (JoiningWriter \<le> pr_phase p \<longrightarrow> wy_handles (pr_writer p) = 0 \<and> pr_unsent p = [] \<and> pr_waiting p = []) \<and>
     set (pr_waiting p) \<subseteq> responded p \<union> in_writer p"

lemma task_tokens:
  assumes "writer_task W y served y'" and "wy_phase y = Receiving \<longrightarrow> wy_batch y = []"
  shows "fst ` set (ws_responses (wy_state y')) \<union> ar_response_tx ` set (wy_batch y' @ wy_queue y')
    = fst ` set (ws_responses (wy_state y)) \<union> ar_response_tx ` set (wy_batch y @ wy_queue y)"
  using assms(1)
proof (cases rule: writer_task.cases)
  case (serve req rest io)
  with process_request_responds [of W "of_nat (wy_millis y)" req io "wy_state y"] show ?thesis by auto
qed (use assms(2) in auto)

lemma task_keeps:
  assumes "writer_task W y served y'" and "wy_phase y = Receiving \<longrightarrow> wy_batch y = []"
  shows "wy_handles y' = wy_handles y \<and> (wy_phase y' = Receiving \<longrightarrow> wy_batch y' = []) \<and>
    (wy_phase y' = LoopExited \<longrightarrow> wy_handles y = 0 \<and> wy_batch y' = [] \<and> wy_queue y' = []) \<and> wy_phase y \<noteq> LoopExited"
  using assms by (auto elim!: writer_taskE)

lemma process_inv_task:
  assumes "process_inv p" and "writer_task W (pr_writer p) served y"
  shows "process_inv (p\<lparr>pr_writer := y\<rparr>)"
proof -
  have r: "wy_phase (pr_writer p) = Receiving \<longrightarrow> wy_batch (pr_writer p) = []"
    using assms(1) by (simp add: process_inv_def)
  let ?p = "p\<lparr>pr_writer := y\<rparr>"
  have same: "pr_writer ?p = y" "pr_phase ?p = pr_phase p" "pr_serving_all ?p = pr_serving_all p"
    "pr_serving_store ?p = pr_serving_store p" "pr_metrics_task ?p = pr_metrics_task p" "pr_unsent ?p = pr_unsent p" "pr_waiting ?p = pr_waiting p"
    by simp_all
  have tokens: "responded ?p \<union> in_writer ?p = responded p \<union> in_writer p"
    using task_tokens [OF assms(2) r] by (simp add: responded_def in_writer_def)
  note k = task_keeps [OF assms(2) r] and inv = assms(1) [unfolded process_inv_def]
  show ?thesis unfolding process_inv_def same tokens
  proof (intro conjI impI)
    assume "pr_phase p < JoiningWriter"
    with inv have "wy_handles (pr_writer p) = 2" "wy_phase (pr_writer p) \<noteq> LoopExited" by blast+
    with k show "wy_handles y = 2" "wy_phase y \<noteq> LoopExited" by auto
  qed (use k inv in auto)
qed

lemma client_sendD:
  "client_step capacity y [req] y' \<Longrightarrow> y' = y\<lparr>wy_queue := wy_queue y @ [req]\<rparr> \<and> 0 < wy_handles y \<and> wy_phase y \<noteq> LoopExited"
  by (auto elim!: client_stepE)

lemma process_inv_step:
  assumes "process_step U W capacity p l p'" and "process_inv p"
  shows "process_inv p'"
  using assms(1)
proof (cases rule: process_step.cases)
  case (task served y)
  with process_inv_task [OF assms(2)] show ?thesis by simp
next
  case (send req rest y)
  have "pr_phase p < JoiningWriter"
    using assms(2) client_sendD [OF send(4)] by (simp add: process_inv_def linorder_not_less [symmetric])
  then show ?thesis
    using assms(2) client_sendD [OF send(4)] unfolding send(2) process_inv_def
    by (simp add: responded_def in_writer_def) blast
next
  case (answered t)
  with assms(2) subset_trans [OF set_remove1_subset [of t "pr_waiting p"]] show ?thesis
    by (simp add: process_inv_def responded_def in_writer_def)
next
  case (abandon_waiting t)
  with assms(2) subset_trans [OF set_remove1_subset [of t "pr_waiting p"]] show ?thesis
    by (simp add: process_inv_def responded_def in_writer_def)
qed (use assms(2) in \<open>simp_all add: process_inv_def responded_def in_writer_def set_broker_def\<close>)

lemma process_inv_run: "run (process_step U W capacity) p ls p' \<Longrightarrow> process_inv p \<Longrightarrow> process_inv p'"
  by (induction rule: run.induct) (auto intro: process_inv_step)

text \<open>The process never goes back to an earlier phase.\<close>

lemma phase_advances: "process_step U W capacity p l p' \<Longrightarrow> pr_phase p \<le> pr_phase p'"
  by (erule process_stepE) simp_all

lemma process_inv_start: "process_inv (process_start sv m)"
  by (simp add: process_inv_def process_start_def writer_system_start_def)

subsection \<open>Calls and answers\<close>

text \<open>
  How often a trace has the Append call with a given response channel, an answer on it, and its client going away.
\<close>

fun calls :: "nat \<Rightarrow> process_event list \<Rightarrow> nat" where
  "calls t [] = 0"
| "calls t (AppendCall t' call # ls) = (if t' = t then Suc (calls t ls) else calls t ls)"
| "calls t (l # ls) = calls t ls"

fun replies :: "nat \<Rightarrow> process_event list \<Rightarrow> nat" where
  "replies t [] = 0"
| "replies t (AppendReply t' out # ls) = (if t' = t then Suc (replies t ls) else replies t ls)"
| "replies t (l # ls) = replies t ls"

fun abandoned :: "nat \<Rightarrow> process_event list \<Rightarrow> nat" where
  "abandoned t [] = 0"
| "abandoned t (AppendAbandoned t' # ls) = (if t' = t then Suc (abandoned t ls) else abandoned t ls)"
| "abandoned t (l # ls) = abandoned t ls"

lemma calls_Cons: "calls t (l # ls) = calls t [l] + calls t ls"
  by (cases l) simp_all

lemma replies_Cons: "replies t (l # ls) = replies t [l] + replies t ls"
  by (cases l) simp_all

lemma abandoned_Cons: "abandoned t (l # ls) = abandoned t [l] + abandoned t ls"
  by (cases l) simp_all

lemma calls_append [simp]: "calls t (xs @ ys) = calls t xs + calls t ys"
  by (induction xs) (simp, subst append_Cons, subst (1 2) calls_Cons, simp)

lemma replies_append [simp]: "replies t (xs @ ys) = replies t xs + replies t ys"
  by (induction xs) (simp, subst append_Cons, subst (1 2) replies_Cons, simp)

lemma abandoned_append [simp]: "abandoned t (xs @ ys) = abandoned t xs + abandoned t ys"
  by (induction xs) (simp, subst append_Cons, subst (1 2) abandoned_Cons, simp)

text \<open>The calls on a channel that have not been answered.\<close>

definition open_calls :: "nat \<Rightarrow> ('addr, 'c, 'ch, 'rx) process \<Rightarrow> nat" where
  "open_calls t p = count_list (map ar_response_tx (pr_unsent p) @ pr_waiting p) t"

lemma count_list_remove1: "x \<in> set xs \<Longrightarrow> count_list xs y = count_list (remove1 x xs) y + (if x = y then 1 else 0)"
  by (induction xs) auto

lemma open_calls_step:
  assumes "process_step U W capacity p l p'"
  shows "open_calls t p + calls t [l] = open_calls t p' + replies t [l] + abandoned t [l]"
  using assms
proof (cases rule: process_step.cases)
  case (answered t' result)
  with count_list_remove1 [OF answered(3), of t] show ?thesis by (simp add: open_calls_def)
next
  case (abandon_waiting t')
  with count_list_remove1 [OF abandon_waiting(3), of t] show ?thesis by (simp add: open_calls_def)
qed (auto simp: open_calls_def append_task_def)

lemma open_calls_run:
  "run (process_step U W capacity) p ls p' \<Longrightarrow> open_calls t p + calls t ls = open_calls t p' + replies t ls + abandoned t ls"
proof (induction rule: run.induct)
  case (run_Cons p l q ls p')
  from open_calls_step [OF run_Cons(1), of t] run_Cons(3) show ?case
    by (subst calls_Cons, subst replies_Cons, subst abandoned_Cons) linarith
qed simp

text \<open>A response channel belongs to one call.\<close>

lemma task_all_tokens:
  assumes "writer_task W y served y'" and "wy_phase y = Receiving \<longrightarrow> wy_batch y = []"
  shows "tokens (p\<lparr>pr_writer := y'\<rparr>) = tokens (p\<lparr>pr_writer := y\<rparr>)"
  using task_tokens [OF assms] by (auto simp: tokens_def)

lemma tokens_step:
  assumes "process_step U W capacity p l p'" and "process_inv p"
  shows "tokens p \<subseteq> tokens p' \<and> (calls t [l] \<noteq> 0 \<longrightarrow> calls t [l] = 1 \<and> t \<notin> tokens p \<and> t \<in> tokens p')"
  using assms(1)
proof (cases rule: process_step.cases)
  case (task served y)
  have "wy_phase (pr_writer p) = Receiving \<longrightarrow> wy_batch (pr_writer p) = []"
    using assms(2) by (simp add: process_inv_def)
  from task_all_tokens [OF task(3) this, of p] task(1,2) show ?thesis by simp
next
  case (send req rest y)
  with client_sendD [OF send(4)] show ?thesis by (auto simp: tokens_def)
qed (auto simp: tokens_def set_broker_def append_task_def)

lemma calls_once:
  "run (process_step U W capacity) p ls p' \<Longrightarrow> process_inv p \<Longrightarrow>
     calls t ls \<le> (if t \<in> tokens p then 0 else 1)"
proof (induction rule: run.induct)
  case (run_Cons p l q ls p')
  from tokens_step [OF run_Cons(1,4), of t] run_Cons(3) [OF process_inv_step [OF run_Cons(1,4)]]
  show ?case by (subst calls_Cons) (auto split: if_splits)
qed simp

subsection \<open>A concrete process\<close>

type_synonym demo_process = "(string, lru_list, bc_list, nat) process"

definition demo_gauge :: service_metrics where
  "demo_gauge = \<lparr>sm_reads_stream = 0, sm_reads_all = 0, sm_subscriptions_active = 0\<rparr>"

abbreviation demo_step :: "demo_process \<Rightarrow> process_event \<Rightarrow> demo_process \<Rightarrow> bool" where
  "demo_step \<equiv> process_step demo_uuid_ops demo_env 64"

lemma demo_server: "\<exists>sv :: (string, string, lru_list, bc_list) server. sv_writer sv = demo_writer"
  using demo_server_starts by blast

text \<open>One Append call, from its arrival to its answer.\<close>

definition demo_idle :: "demo_process \<Rightarrow> bool" where
  "demo_idle p \<longleftrightarrow> pr_phase p = Up \<and> pr_unsent p = [] \<and> pr_waiting p = [] \<and> pr_abandoned p = [] \<and>
     pr_writer p = (writer_system_start demo_writer)\<lparr>wy_handles := 2\<rparr>"

definition demo_served :: "(lru_list, bc_list) writer_state" where
  "demo_served = process_request demo_env 9 (demo_request, writer_io_ok) demo_writer"

lemma task_run:
  "writer_task W (pr_writer p) served y \<Longrightarrow> run (process_step U W capacity) (p\<lparr>pr_writer := y\<rparr>) ls p' \<Longrightarrow>
     run (process_step U W capacity) p (Silent # ls) p'"
  by (rule run_Cons [where step = "process_step U W capacity", OF process_step.task])

lemma demo_append_run:
  assumes "demo_idle p"
  shows "\<exists>p' resp. run demo_step p [AppendCall 7 demo_proto_request, Silent, Silent, Silent, Silent,
      AppendReply 7 (Some (Inr resp))] p' \<and> px_last_global_position resp = 1 \<and>
    pr_phase p' = Up \<and> pr_streams p' = pr_streams p \<and> wy_state (pr_writer p') = demo_served"
proof -
  let ?y = "pr_writer p"
  have y: "wy_phase ?y = Receiving" "wy_queue ?y = []" "wy_batch ?y = []" "wy_handles ?y = 2" "wy_state ?y = demo_writer"
    and p: "pr_phase p = Up" "pr_unsent p = []" "pr_waiting p = []" "pr_abandoned p = []"
    using assms by (simp_all add: demo_idle_def writer_system_start_def)
  have r0: "ws_responses demo_writer = []" by (simp add: demo_writer_def spawn_writer_def Let_def)
  let ?call = "p\<lparr>pr_unsent := pr_unsent p @ [append_task (1, Any, [demo_proposed 4, demo_proposed 5]) 7]\<rparr>"
  have s1: "demo_step p (AppendCall 7 demo_proto_request) ?call"
    by (rule process_step.begin_append [OF p(1) demo_arguments]) (simp add: tokens_def y p r0)
  define sent where "sent = ?y\<lparr>wy_queue := [demo_request]\<rparr>"
  let ?sent = "?call\<lparr>pr_unsent := [], pr_writer := sent, pr_waiting := pr_waiting ?call @ [ar_response_tx demo_request]\<rparr>"
  have "client_step 64 (pr_writer ?call) [demo_request] sent"
    using client_step.send [of ?y 64 demo_request] y by (simp add: sent_def)
  then have s2: "demo_step ?call Silent ?sent"
    by (rule process_step.send [rotated]) (simp add: p demo_task)
  define received where "received = sent\<lparr>wy_queue := [], wy_batch := [demo_request], wy_phase := Draining\<rparr>"
  define drained where "drained = received\<lparr>wy_millis := 9, wy_phase := Serving\<rparr>"
  define finished where "finished = drained\<lparr>wy_batch := [], wy_state := demo_served\<rparr>"
  have t1: "writer_task demo_env sent [] received"
    unfolding received_def by (rule writer_task.recv) (simp_all add: sent_def y)
  have t2: "writer_task demo_env received [] drained"
    unfolding drained_def by (rule writer_task.drained) (simp_all add: received_def)
  have "writer_task demo_env drained [(demo_request, writer_io_ok)] (drained\<lparr>wy_batch := [],
      wy_state := process_request demo_env (of_nat (wy_millis drained)) (demo_request, writer_io_ok) (wy_state drained)\<rparr>)"
    by (rule writer_task.serve) (simp_all add: drained_def received_def)
  then have t3: "writer_task demo_env drained [(demo_request, writer_io_ok)] finished"
    by (simp add: finished_def demo_served_def drained_def received_def sent_def y)
  let ?finished = "?sent\<lparr>pr_writer := finished\<rparr>"
  let ?batch = "appended demo_store 1 9 [demo_proposed 4, demo_proposed 5]"
  have "(7, Inr ?batch) \<in> set (ws_responses demo_served)" using demo_process by (simp add: demo_served_def)
  then have "demo_step ?finished (AppendReply 7 (append_response demo_uuid_ops (Inr ?batch)))
      (?finished\<lparr>pr_waiting := remove1 7 (pr_waiting ?finished)\<rparr>)"
    by (intro process_step.answered) (simp_all add: finished_def p)
  moreover obtain resp where resp: "append_response demo_uuid_ops (Inr ?batch) = Some (Inr resp)" "px_last_global_position resp = 1"
    by (simp add: append_response_def demo_batch Let_def)
  ultimately have "run demo_step ?finished [AppendReply 7 (Some (Inr resp))] (?finished\<lparr>pr_waiting := remove1 7 (pr_waiting ?finished)\<rparr>)"
    by (simp add: run_single)
  then have "run demo_step ?sent [Silent, Silent, Silent, AppendReply 7 (Some (Inr resp))]
      (?finished\<lparr>pr_waiting := remove1 7 (pr_waiting ?finished)\<rparr>)"
    using t1 t2 t3 by (intro task_run [of demo_env ?sent "[]" received] task_run [of demo_env _ "[]" drained]
        task_run [of demo_env _ "[(demo_request, writer_io_ok)]" finished]) simp_all
  from run_Cons [where step = demo_step, OF s1 run_Cons [where step = demo_step, OF s2 this]] resp(2) show ?thesis
    by (intro exI conjI) (assumption, simp_all add: finished_def p)
qed

end
