(* ===== verification/Shutdown.thy ===== *)
theory Shutdown
  imports Server_Process
begin

text \<open>
  How the server ends (\<open>main\<close> of \<open>src/main.rs\<close> after the signal): in a bounded number of steps when no
  subscription is open, with every call answered or abandoned by its client; not at all while a subscriber stays.
\<close>

abbreviation process_moves ::
  "uuid_ops \<Rightarrow> ('c, 'ch, 'rx) writer_env \<Rightarrow> nat \<Rightarrow> ('addr, 'c, 'ch, 'rx) process
     \<Rightarrow> ('addr, 'c, 'ch, 'rx) process \<Rightarrow> bool" where
  "process_moves U W capacity p p' \<equiv> \<exists>l. process_step U W capacity p l p'"

subsection \<open>Shutdown without subscribers\<close>

text \<open>Once the signal came, and while no stream is open, only the end of the process is left to do.\<close>

definition closing :: "('addr, 'c, 'ch, 'rx) process \<Rightarrow> bool" where
  "closing p \<longleftrightarrow> process_inv p \<and> pr_phase p \<noteq> Up \<and> (\<forall>(req, s) \<in> set (pr_streams p). s = Ended)"

definition steps_left :: "('addr, 'c, 'ch, 'rx) process \<Rightarrow> nat" where
  "steps_left p = 6 * length (pr_unsent p) + length (pr_waiting p) + work_left (pr_writer p) +
     (case pr_phase p of ExitedOk \<Rightarrow> 0 | JoiningWriter \<Rightarrow> 1 | _ \<Rightarrow> 2)"

lemma closing_streams: "closing p \<Longrightarrow> i < length (pr_streams p) \<Longrightarrow> pr_streams p ! i = (req, s) \<Longrightarrow> s = Ended"
  using nth_mem [of i "pr_streams p"] by (auto simp: closing_def)

lemma closing_step:
  assumes "process_step U W capacity p l p'" and "closing p"
  shows "closing p' \<and> steps_left p' < steps_left p"
proof -
  have inv: "process_inv p" using assms(2) by (simp add: closing_def)
  then have r: "wy_phase (pr_writer p) = Receiving \<longrightarrow> wy_batch (pr_writer p) = []"
    by (simp add: process_inv_def)
  from assms(1) have "pr_phase p' \<noteq> Up \<and> pr_streams p' = pr_streams p \<and> steps_left p' < steps_left p"
  proof (cases rule: process_step.cases)
    case (task served y)
    then have "work_left y < work_left (pr_writer p)"
      using task_progress [OF r, of W y] by (auto simp: task_step_def)
    with task assms(2) show ?thesis by (simp add: steps_left_def closing_def)
  next
    case (send req rest y)
    with client_sendD [OF send(4)] assms(2) show ?thesis
      by (simp add: steps_left_def closing_def work_left_def)
  next
    case (answered t)
    with assms(2) length_remove1 [of t "pr_waiting p"] show ?thesis
      by (auto simp: steps_left_def closing_def neq_Nil_conv dest: length_pos_if_in_set)
  next
    case (abandon_waiting t)
    with assms(2) length_remove1 [of t "pr_waiting p"] show ?thesis
      by (auto simp: steps_left_def closing_def neq_Nil_conv dest: length_pos_if_in_set)
  next
    case (poll i req s)
    with closing_streams [OF assms(2) poll(3,4)] show ?thesis by simp
  next
    case (client_gone i req s)
    with closing_streams [OF assms(2) client_gone(3,4)] show ?thesis by simp
  qed (use assms(2) in \<open>simp_all add: closing_def steps_left_def work_left_def\<close>)
  with assms(2) process_inv_step [OF assms(1) inv] show ?thesis by (simp add: closing_def)
qed

lemma task_available:
  assumes "wy_batch y @ wy_queue y \<noteq> []" and "wy_phase y \<noteq> LoopExited" and "wy_phase y = Receiving \<longrightarrow> wy_batch y = []"
  shows "\<exists>served y'. writer_task W y served y'"
  using assms
  by (cases "wy_phase y"; cases "wy_queue y"; cases "wy_batch y") (auto intro: writer_task.intros)

lemma draining_not_stuck:
  assumes "closing p" and "0 < capacity" and "pr_phase p = DrainingRpcs"
  shows "\<exists>p'. process_moves U W capacity p p'"
proof -
  let ?y = "pr_writer p"
  have inv: "process_inv p" and ended: "\<forall>(req, s) \<in> set (pr_streams p). s = Ended"
    using assms(1) by (simp_all add: closing_def)
  have y: "wy_phase ?y = Receiving \<longrightarrow> wy_batch ?y = []" "wy_handles ?y = 2" "wy_phase ?y \<noteq> LoopExited"
    and waiting: "set (pr_waiting p) \<subseteq> responded p \<union> in_writer p"
    using inv assms(3) by (simp_all add: process_inv_def)
  have busy: ?thesis if "wy_batch ?y @ wy_queue ?y \<noteq> []"
    using task_available [OF that y(3,1)] process_step.task by blast
  consider req rest where "pr_unsent p = req # rest" "length (wy_queue ?y) < capacity"
    | "wy_batch ?y @ wy_queue ?y \<noteq> []"
    | t where "t \<in> set (pr_waiting p)" "t \<in> responded p"
    | "pr_unsent p = []" "pr_waiting p = []"
    using waiting assms(2)
    by (cases "wy_batch ?y @ wy_queue ?y = []"; cases "pr_unsent p"; cases "pr_waiting p") (auto simp: in_writer_def)
  then show ?thesis
  proof cases
    case (1 req rest)
    have "client_step capacity ?y [req] (?y\<lparr>wy_queue := wy_queue ?y @ [req]\<rparr>)"
      using y 1(2) by (simp add: client_step.send)
    from process_step.send [OF 1(1) this] show ?thesis by blast
  next
    case (3 t)
    then obtain result where "(t, result) \<in> set (ws_responses (wy_state ?y))" by (auto simp: responded_def)
    from process_step.answered [OF 3(1) this] show ?thesis by blast
  next
    case 4
    from process_step.drained [OF assms(3) ended 4] show ?thesis by blast
  qed (rule busy)
qed

lemma joining_not_stuck:
  assumes "closing p" and "pr_phase p = JoiningWriter"
  shows "\<exists>p'. process_moves U W capacity p p'"
proof (cases "wy_phase (pr_writer p) = LoopExited")
  case True
  from process_step.joined [OF assms(2) this] show ?thesis by blast
next
  case False
  have "wy_handles (pr_writer p) = 0" using assms by (simp add: closing_def process_inv_def)
  from task_not_stuck [OF False this, of W] obtain served y where "writer_task W (pr_writer p) served y"
    by (auto simp: task_step_def)
  from process_step.task [OF this] show ?thesis by blast
qed

interpretation exit_path: ending_system "process_moves U W capacity" "\<lambda>p. closing p \<and> 0 < capacity"
  steps_left "\<lambda>p. pr_phase p = ExitedOk" for U W capacity
proof (unfold_locales, goal_cases)
  case (1 p p')
  then show ?case using closing_step [of U W capacity p _ p'] by blast
next
  case (2 p)
  then have "pr_phase p = DrainingRpcs \<or> pr_phase p = JoiningWriter"
    by (cases "pr_phase p") (simp_all add: closing_def)
  with 2 draining_not_stuck [of p capacity U W] joining_not_stuck [of p U W capacity] show ?case by blast
qed

text \<open>
  C17: graceful shutdown completes. After the signal, once no subscription is open, the process has only
  a bounded number of steps left (six for each call whose request is not yet in the channel, one for each
  call that waits, four for each queued request, one for each request of the batch at hand and five
  more), it is never stuck before it exits, and it does exit. By then it reports not serving, the metrics
  task is gone, the writer task has left its loop with nothing queued, and every Append call the server
  accepted since it started was answered exactly once, unless its client went away before that.
\<close>

theorem shutdown_completes:
  assumes "run (process_step U W capacity) (process_start sv m) ls p" and "pr_phase p = DrainingRpcs"
    and "\<forall>(req, s) \<in> set (pr_streams p). s = Ended" and "0 < capacity"
  shows "(\<forall>ls' p'. run (process_step U W capacity) p ls' p' \<longrightarrow>
            length ls' \<le> 6 * length (pr_unsent p) + length (pr_waiting p) +
                 4 * length (wy_queue (pr_writer p)) + length (wy_batch (pr_writer p)) + 5 \<and>
            (pr_phase p' \<noteq> ExitedOk \<longrightarrow> (\<exists>l p''. process_step U W capacity p' l p'')) \<and>
            (pr_phase p' = ExitedOk \<longrightarrow>
               \<not> pr_serving_all p' \<and> \<not> pr_serving_store p' \<and> pr_metrics_task p' = None \<and>
               wy_phase (pr_writer p') = LoopExited \<and> wy_queue (pr_writer p') = [] \<and> wy_batch (pr_writer p') = [] \<and>
               (\<forall>t. replies t (ls @ ls') + abandoned t (ls @ ls') = calls t (ls @ ls') \<and> calls t (ls @ ls') \<le> 1))) \<and>
         (\<exists>ls' p'. run (process_step U W capacity) p ls' p' \<and> pr_phase p' = ExitedOk)"
proof -
  have c: "closing p \<and> 0 < capacity"
    using process_inv_run [OF assms(1) process_inv_start] assms(2-4) by (simp add: closing_def)
  show ?thesis
  proof (intro conjI allI impI)
    fix ls' p'
    assume r: "run (process_step U W capacity) p ls' p'"
    note bound = exit_path.steps_bound [OF c run_relpowp [OF r]]
    then have inv: "process_inv p'" by (simp add: closing_def)
    show "length ls' \<le> 6 * length (pr_unsent p) + length (pr_waiting p) +
        4 * length (wy_queue (pr_writer p)) + length (wy_batch (pr_writer p)) + 5"
      using bound assms(2) by (simp add: steps_left_def work_left_def phase_left_def split: writer_phase.splits)
    show "\<exists>l p''. process_step U W capacity p' l p''" if "pr_phase p' \<noteq> ExitedOk"
      using exit_path.progress [of p' capacity U W] bound that by blast
    assume e: "pr_phase p' = ExitedOk"
    from inv e show "\<not> pr_serving_all p'" "\<not> pr_serving_store p'" "pr_metrics_task p' = None"
      "wy_phase (pr_writer p') = LoopExited" "wy_queue (pr_writer p') = []" "wy_batch (pr_writer p') = []"
      by (simp_all add: process_inv_def)
    have all: "run (process_step U W capacity) (process_start sv m) (ls @ ls') p'"
      unfolding run_append using assms(1) r by blast
    fix t
    show "replies t (ls @ ls') + abandoned t (ls @ ls') = calls t (ls @ ls')"
      using open_calls_run [OF all, of t] inv e
      by (simp add: open_calls_def process_inv_def process_start_def)
    show "calls t (ls @ ls') \<le> 1"
      using calls_once [OF all process_inv_start, of t] by (auto split: if_splits)
  next
    from exit_path.ends [OF c] show "\<exists>ls' p'. run (process_step U W capacity) p ls' p' \<and> pr_phase p' = ExitedOk"
      using rtranclp_run [of "process_step U W capacity"] by blast
  qed
qed

subsection \<open>Shutdown with an open subscriber\<close>

text \<open>
  The state in which the process waits: nothing is left to serve, and stream \<open>i\<close> is in its live loop with
  nothing to receive.
\<close>

definition waits_for ::
  "('ch \<Rightarrow> 'rx \<Rightarrow> recorded_event list) \<Rightarrow> ('ch \<Rightarrow> 'rx \<Rightarrow> bool) \<Rightarrow> nat \<Rightarrow> ('addr, 'c, 'ch, 'rx) process \<Rightarrow> bool" where
  "waits_for queue live i p \<longleftrightarrow>
     pr_phase p = DrainingRpcs \<and> pr_unsent p = [] \<and> wy_queue (pr_writer p) = [] \<and> wy_batch (pr_writer p) = [] \<and>
     i < length (pr_streams p) \<and>
     (\<exists>req s. pr_streams p ! i = (req, Running s) \<and> sb_phase s = Live \<and>
        live (br_tx (ws_broker (wy_state (pr_writer p)))) (sb_rx s) \<and>
        queue (br_tx (ws_broker (wy_state (pr_writer p)))) (sb_rx s) = [])"

text \<open>A poll subscribes at most: the queue of every other receiver is as before.\<close>

lemma stream_poll_others:
  assumes "broadcast_channel B queue live cap" and "stream_poll U B st m req s = Some (out, s', b, m')"
    and "live (br_tx (ws_broker st)) rx"
  shows "live (br_tx b) rx \<and> queue (br_tx b) rx = queue (br_tx (ws_broker st)) rx"
  using assms(2,3) broadcast_channel.subscribe_old [OF assms(1,3)]
  by (auto simp: stream_poll_def service_subscribe_all_poll_def service_subscribe_stream_poll_def service_sub_poll_def
      subscribe_all_def subscribe_stream_def broker_subscribe_def Let_def
      split: sub_request.splits sub_stream.splits option.splits prod.splits sum.splits if_splits)

lemma stream_poll_idle:
  assumes bc: "broadcast_channel B queue live cap" and open_tx: "fst (bc_recv B (br_tx (ws_broker st)) (sb_rx s)) \<noteq> RecvClosed"
    and s: "sb_phase s = Live" "live (br_tx (ws_broker st)) (sb_rx s)" "queue (br_tx (ws_broker st)) (sb_rx s) = []"
    and poll: "stream_poll U B st m req (Running s) = Some (out, s', b, m')"
  shows "\<exists>rx. s' = Running (s\<lparr>sb_rx := rx\<rparr>) \<and> b = ws_broker st \<and>
    live (br_tx (ws_broker st)) rx \<and> queue (br_tx (ws_broker st)) rx = []"
proof -
  obtain rx where r: "bc_recv B (br_tx (ws_broker st)) (sb_rx s) = (RecvPending, rx)"
    "live (br_tx (ws_broker st)) rx" "queue (br_tx (ws_broker st)) rx = []"
    using broadcast_channel.recv [OF bc s(2)] open_tx s(3)
    by (auto split: prod.splits recv_result.splits)
  with poll s(1) show ?thesis
    by (auto simp: stream_poll_def service_subscribe_all_poll_def service_subscribe_stream_poll_def service_sub_poll_def
        subscribe_all_step_def subscribe_stream_step_def Let_def split: sub_request.splits)
qed

lemma task_idle:
  assumes "writer_task W y served y'" and "wy_queue y = []" and "wy_batch y = []"
  shows "wy_queue y' = [] \<and> wy_batch y' = [] \<and> wy_state y' = wy_state y"
  using assms by (auto elim!: writer_taskE)

lemma waits_for_step:
  assumes bc: "broadcast_channel (we_bc W) queue live cap"
    and open_tx: "\<And>ch rx. fst (bc_recv (we_bc W) ch rx) \<noteq> RecvClosed"
    and step: "process_step U W capacity p l p'" and l: "l \<noteq> ClientGone i" and w: "waits_for queue live i p"
  shows "waits_for queue live i p'"
  using step
proof (cases rule: process_step.cases)
  case (task served y)
  from task_idle [OF task(3)] w task(2) show ?thesis by (auto simp: waits_for_def)
next
  case (poll j req s out s' b m)
  let ?st = "wy_state (pr_writer p)"
  from w obtain q t where i: "i < length (pr_streams p)" "pr_streams p ! i = (q, Running t)" "sb_phase t = Live"
    "live (br_tx (ws_broker ?st)) (sb_rx t)" "queue (br_tx (ws_broker ?st)) (sb_rx t) = []"
    by (auto simp: waits_for_def)
  show ?thesis
  proof (cases "j = i")
    case True
    with poll i(2) have s: "s = Running t" by simp
    from stream_poll_idle [OF bc open_tx i(3-5) poll(6) [unfolded s]] poll(2) w True i(1,3) show ?thesis
      by (auto simp: waits_for_def set_broker_def)
  next
    case False
    with stream_poll_others [OF bc poll(6) i(4)] poll(2) i w show ?thesis
      by (auto simp: waits_for_def set_broker_def)
  qed
next
  case (client_gone j req s s' m)
  with l w show ?thesis by (auto simp: waits_for_def)
next
  case drained
  with w show ?thesis by (fastforce simp: waits_for_def dest: nth_mem)
qed (use w in \<open>auto simp: waits_for_def\<close>)

text \<open>
  C40: an open subscription holds graceful shutdown up for ever. After the signal, with no call left to
  serve, if a subscriber is in its live loop and has received everything, then whatever else happens, as
  long as that client does not go away itself, the process stays in the phase in which it waits for open
  RPCs: the stream ends only when the channel closes or the receiver lags, and the process keeps a sender
  of the channel and publishes nothing.
\<close>

theorem open_subscriber_blocks_shutdown:
  assumes "broadcast_channel (we_bc W) queue live cap"
    and "\<And>ch rx. fst (bc_recv (we_bc W) ch rx) \<noteq> RecvClosed"
    and "waits_for queue live i p"
    and "run (process_step U W capacity) p ls p'" and "ClientGone i \<notin> set ls"
  shows "pr_phase p' = DrainingRpcs \<and> is_running (snd (pr_streams p' ! i))"
proof -
  have "waits_for queue live i p'"
    using assms(4,5,3)
    by (induction rule: run.induct) (auto intro: waits_for_step [OF assms(1,2)])
  then show ?thesis by (auto simp: waits_for_def)
qed

subsection \<open>Concrete runs\<close>

theorem shutdown_completes_witness:
  "\<exists>(sv :: (string, string, lru_list, bc_list) server) p ls' p'. sv_writer sv = demo_writer \<and>
     run demo_step (process_start sv demo_gauge) [AppendCall 7 demo_proto_request, Signal] p \<and>
     run demo_step p ls' p' \<and> pr_phase p' = ExitedOk \<and> replies 7 ls' + abandoned 7 ls' = 1 \<and> length ls' \<le> 11"
proof -
  obtain sv :: "(string, string, lru_list, bc_list) server" where sv: "sv_writer sv = demo_writer"
    using demo_server by blast
  let ?a = "process_start sv demo_gauge :: demo_process"
  let ?b = "?a\<lparr>pr_unsent := pr_unsent ?a @ [append_task (1, Any, [demo_proposed 4, demo_proposed 5]) 7]\<rparr>"
  let ?c = "?b\<lparr>pr_phase := DrainingRpcs, pr_serving_all := False, pr_serving_store := False\<rparr>"
  have s1: "demo_step ?a (AppendCall 7 demo_proto_request) ?b"
    by (rule process_step.begin_append [OF _ demo_arguments])
      (simp_all add: process_start_def tokens_def writer_system_start_def sv demo_writer_def spawn_writer_def Let_def)
  have s2: "demo_step ?b Signal ?c" by (rule process_step.signal) (simp add: process_start_def)
  let ?ls = "[AppendCall 7 demo_proto_request, Signal]"
  have r: "run demo_step ?a ?ls ?c" by (intro run_Cons) (fact run_Nil s1 s2)+
  have d: "pr_phase ?c = DrainingRpcs" "\<forall>(req, s) \<in> set (pr_streams ?c). s = Ended" "0 < (64 :: nat)"
    by (simp_all add: process_start_def)
  note S = shutdown_completes [OF r d]
  from S obtain ls' p' where p': "run demo_step ?c ls' p'" "pr_phase p' = ExitedOk" by blast
  note E = mp [OF spec [OF spec [OF conjunct1 [OF S]]] p'(1)]
  from E have "length ls' \<le> 11" by (simp add: process_start_def writer_system_start_def)
  moreover from E p'(2) have "replies 7 (?ls @ ls') + abandoned 7 (?ls @ ls') = calls 7 (?ls @ ls')" "calls 7 (?ls @ ls') \<le> 1"
    by (simp_all only: simp_thms)
  ultimately have "length ls' \<le> 11" "replies 7 ls' + abandoned 7 ls' = 1" by simp_all
  with sv r p' show ?thesis by blast
qed

definition demo_at :: "nat sub_stream \<Rightarrow> demo_process \<Rightarrow> bool" where
  "demo_at s p \<longleftrightarrow> pr_phase p = Up \<and> pr_streams p = [(AllFrom 0, s)] \<and> wy_state (pr_writer p) = demo_writer \<and>
     wy_queue (pr_writer p) = [] \<and> wy_batch (pr_writer p) = [] \<and> pr_unsent p = []"

lemma demo_poll:
  assumes "demo_at s p" and "s \<noteq> Ended"
    and "\<And>m. \<exists>out m'. stream_poll demo_uuid_ops bc_list_ops demo_writer m (AllFrom 0) s
      = Some (out, s', ws_broker demo_writer, m')"
  shows "\<exists>l p'. demo_step p l p' \<and> demo_at s' p'"
proof -
  from assms(3) [of "pr_gauge p"] obtain out m' where poll: "stream_poll demo_uuid_ops (we_bc demo_env) (wy_state (pr_writer p))
      (pr_gauge p) (AllFrom 0) s = Some (out, s', ws_broker demo_writer, m')"
    using assms(1) by (auto simp: demo_at_def)
  have "demo_step p (Polled 0 out) (p\<lparr>pr_streams := (pr_streams p)[0 := (AllFrom 0, s')],
      pr_writer := set_broker (ws_broker demo_writer) (pr_writer p), pr_gauge := m'\<rparr>)"
    by (rule process_step.poll [OF _ _ assms(2) poll]) (use assms(1) in \<open>simp_all add: demo_at_def\<close>)
  moreover have "demo_at s' (p\<lparr>pr_streams := (pr_streams p)[0 := (AllFrom 0, s')],
      pr_writer := set_broker (ws_broker demo_writer) (pr_writer p), pr_gauge := m'\<rparr>)"
    using assms(1) by (simp add: demo_at_def set_broker_def)
  ultimately show ?thesis by blast
qed

lemma demo_subscribed:
  "\<exists>ls p s. run demo_step (process_start sv demo_gauge) (SubscribeCall (CallAll 0) # ls) p \<and> demo_at (Running s) p \<and>
     sb_phase s = Live \<and> sb_rx s = 0"
  if "sv_writer sv = demo_writer"
proof -
  let ?p0 = "process_start sv demo_gauge :: demo_process"
  let ?sub = "\<lambda>ph. Running \<lparr>sb_phase = ph, sb_cursor = 0, sb_last = None, sb_rx = 0\<rparr>"
  have step: "\<exists>out m'. stream_poll demo_uuid_ops bc_list_ops demo_writer m (AllFrom 0) s
      = Some (out, s', ws_broker demo_writer, m')"
    if "(s, s') \<in> {(NotStarted, ?sub Reading), (?sub Reading, ?sub (Yielding [] 0)),
         (?sub (Yielding [] 0), ?sub Marking), (?sub Marking, ?sub Live)}" for s s' m
    using that
    by (auto simp: stream_poll_def service_subscribe_all_poll_def service_sub_poll_def subscribe_all_def
        broker_subscribe_def subscribe_all_step_def CATCHUP_BATCH_SIZE_def bc_list_ops_def demo_writer_def
        spawn_writer_def broker_new_def demo_store_def empty_log_def read_index_new_def ri_read_all_def slice_def Let_def)
  have p0: "demo_step ?p0 (SubscribeCall (CallAll 0)) (?p0\<lparr>pr_streams := pr_streams ?p0 @ [(AllFrom 0, NotStarted)]\<rparr>)"
    by (rule process_step.subscribe) (simp_all add: process_start_def sub_arguments_def)
  have "demo_at NotStarted (?p0\<lparr>pr_streams := pr_streams ?p0 @ [(AllFrom 0, NotStarted)]\<rparr>)"
    using that by (simp add: demo_at_def process_start_def writer_system_start_def)
  from demo_poll [OF this] step obtain l1 p1 where p1: "demo_step
      (?p0\<lparr>pr_streams := pr_streams ?p0 @ [(AllFrom 0, NotStarted)]\<rparr>) l1 p1" "demo_at (?sub Reading) p1" by blast
  from demo_poll [OF p1(2)] step obtain l2 p2 where p2: "demo_step p1 l2 p2" "demo_at (?sub (Yielding [] 0)) p2" by blast
  from demo_poll [OF p2(2)] step obtain l3 p3 where p3: "demo_step p2 l3 p3" "demo_at (?sub Marking) p3" by blast
  from demo_poll [OF p3(2)] step obtain l4 p4 where p4: "demo_step p3 l4 p4" "demo_at (?sub Live) p4" by blast
  have "run demo_step ?p0 [SubscribeCall (CallAll 0), l1, l2, l3, l4] p4"
    by (intro run_Cons run_Nil) (fact p0 p1(1) p2(1) p3(1) p4(1) run_Nil)+
  with p4(2) show ?thesis by (intro exI [of _ "[l1, l2, l3, l4]"] exI [of _ p4] exI) auto
qed

theorem open_subscriber_blocks_shutdown_witness:
  "\<exists>(sv :: (string, string, lru_list, bc_list) server) ls p. sv_writer sv = demo_writer \<and>
     run demo_step (process_start sv demo_gauge) (SubscribeCall (CallAll 0) # ls @ [Signal]) p \<and>
     \<not> (\<exists>ls p'. run demo_step p ls p' \<and> ClientGone 0 \<notin> set ls \<and> pr_phase p' = ExitedOk)"
proof -
  obtain sv :: "(string, string, lru_list, bc_list) server" where sv: "sv_writer sv = demo_writer"
    using demo_server by blast
  from demo_subscribed [OF sv] obtain ls p s
    where p: "run demo_step (process_start sv demo_gauge) (SubscribeCall (CallAll 0) # ls) p"
      "demo_at (Running s) p" "sb_phase s = Live" "sb_rx s = 0" by blast
  let ?p = "p\<lparr>pr_phase := DrainingRpcs, pr_serving_all := False, pr_serving_store := False\<rparr>"
  have s: "demo_step p Signal ?p" by (rule process_step.signal) (use p(2) in \<open>simp add: demo_at_def\<close>)
  have "run demo_step p [Signal] ?p" by (intro run_Cons run_Nil) (fact run_Nil s)+
  with p(1) have r: "run demo_step (process_start sv demo_gauge) ((SubscribeCall (CallAll 0) # ls) @ [Signal]) ?p"
    unfolding run_append by blast
  have w: "waits_for (\<lambda>ch rx. drop rx (bl_sent ch)) (\<lambda>ch rx. rx \<le> length (bl_sent ch)) 0 ?p"
    using p(2-) by (simp add: waits_for_def demo_at_def demo_writer_def spawn_writer_def broker_new_def bc_list_ops_def Let_def)
  have c: "fst (bc_recv (we_bc demo_env) ch rx) \<noteq> RecvClosed" for ch rx
    by (simp add: bc_list_ops_def Let_def)
  have "broadcast_channel (we_bc demo_env) (\<lambda>ch rx. drop rx (bl_sent ch)) (\<lambda>ch rx. rx \<le> length (bl_sent ch)) bl_cap"
    using bl.broadcast_channel_axioms by simp
  note O = open_subscriber_blocks_shutdown [OF this c w]
  have "\<not> (\<exists>ls p'. run demo_step ?p ls p' \<and> ClientGone 0 \<notin> set ls \<and> pr_phase p' = ExitedOk)"
    using O by fastforce
  with sv r show ?thesis by auto
qed

end
