(* ===== verification/Wire_Delivery.thy ===== *)
theory Wire_Delivery
  imports Server_Process
begin

text \<open>
  What a subscriber of the running server receives over the wire: the writer task, the broker, the service's
  response streams and any number of other clients together. The delivery invariant of a generator
  beside a publishing writer (\<open>Subscription\<close>, which also lets polls fall between an append and its
  publication) is carried through every step of the process.
\<close>

subsection \<open>A request as a view of the log\<close>

definition keep_of :: "sub_request \<Rightarrow> recorded_event \<Rightarrow> bool" where
  "keep_of req = (case req of AllFrom _ \<Rightarrow> (\<lambda>_. True) | StreamFrom sid _ \<Rightarrow> (\<lambda>e. re_stream_id e = sid))"

definition key_of :: "sub_request \<Rightarrow> recorded_event \<Rightarrow> u64" where
  "key_of req = (case req of AllFrom _ \<Rightarrow> re_global_position | StreamFrom _ _ \<Rightarrow> re_stream_version)"

definition read_of :: "sub_request \<Rightarrow> read_index \<Rightarrow> u64 \<Rightarrow> (error + recorded_event list) option" where
  "read_of req = (case req of AllFrom _ \<Rightarrow> read_all_chunk | StreamFrom sid _ \<Rightarrow> read_stream_chunk sid)"

definition from_of :: "sub_request \<Rightarrow> u64" where
  "from_of req = (case req of AllFrom p \<Rightarrow> p | StreamFrom _ v \<Rightarrow> v)"

text \<open>The events the request is about: the whole log, or those of one stream.\<close>

definition view_of :: "sub_request \<Rightarrow> event_log \<Rightarrow> recorded_event list" where
  "view_of req log = filter (keep_of req) (el_events log)"

lemma view_of_simps [simp]:
  "view_of (AllFrom p) log = el_events log"
  "view_of (StreamFrom sid v) log = stream_events (el_events log) sid"
  by (simp_all add: view_of_def keep_of_def stream_events_def filter_all)

lemma request_subscription:
  "broadcast_channel B queue live cap \<Longrightarrow>
   subscription (read_of req) (keep_of req) (key_of req) B queue live cap"
  using all_subscription stream_subscription by (cases req) (simp_all add: read_of_def keep_of_def key_of_def)

abbreviation poll_of :: "('ch, 'rx) broadcast_ops \<Rightarrow> sub_request \<Rightarrow> read_index \<Rightarrow> 'ch broker
     \<Rightarrow> 'rx subscriber \<Rightarrow> (item option \<times> 'rx subscriber) option" where
  "poll_of B req \<equiv> generator_step (read_of req) (keep_of req) (key_of req) B"

definition subscribe_of :: "('ch, 'rx) broadcast_ops \<Rightarrow> sub_request \<Rightarrow> 'ch broker \<Rightarrow> 'rx subscriber \<times> 'ch broker" where
  "subscribe_of B req b =
     (\<lparr>sb_phase = Reading, sb_cursor = from_of req, sb_last = None, sb_rx = fst (broker_subscribe B b)\<rparr>,
      snd (broker_subscribe B b))"

lemma stream_poll_generator:
  "stream_poll U B st m req =
     service_sub_poll U (subscribe_of B req) (poll_of B req (read_index_new (st_log (ws_store st)))) (ws_broker st, m)"
proof (cases req)
  case (AllFrom p)
  then have "subscribe_of B req = (\<lambda>b. subscribe_all B b p)"
    by (simp add: fun_eq_iff subscribe_of_def from_of_def subscribe_all_start)
  with AllFrom show ?thesis
    by (intro ext) (simp add: stream_poll_def service_subscribe_all_poll_def subscribe_all_generator read_of_def keep_of_def
        key_of_def)
next
  case (StreamFrom sid v)
  then have "subscribe_of B req = (\<lambda>b. subscribe_stream B b v)"
    by (simp add: fun_eq_iff subscribe_of_def from_of_def subscribe_stream_start)
  with StreamFrom show ?thesis
    by (intro ext) (simp add: stream_poll_def service_subscribe_stream_poll_def subscribe_stream_generator read_of_def
        keep_of_def key_of_def)
qed

text \<open>A generator that has not finished yields no error.\<close>

lemma generator_step_running:
  assumes "generator_step read keep key B ri b st = Some (i, st')" and "sb_phase st \<noteq> Finished"
  shows "(sb_phase st' = Finished \<and> (i = None \<or> (\<exists>e. i = Some (Inl e)))) \<or>
    (sb_phase st' \<noteq> Finished \<and> (i = None \<or> (\<exists>m. i = Some (Inr m))))"
  using assms
  by (auto simp: generator_step_def split: sub_phase.splits list.splits option.splits sum.splits error.splits
      prod.splits recv_result.splits if_splits)

subsection \<open>What the process does to the log and the broker\<close>

text \<open>The writer task publishes what it appends; the log stays well formed.\<close>

lemma request_effect:
  assumes "log_wf (st_log (ws_store st))" and "ar_events req \<noteq> []"
    and "length (el_events (st_log (ws_store (process_request W ts (req, io) st)))) < 2 ^ 64"
  shows "\<exists>rs. el_events (st_log (ws_store (process_request W ts (req, io) st))) = el_events (st_log (ws_store st)) @ rs \<and>
    log_wf (st_log (ws_store (process_request W ts (req, io) st))) \<and>
    ws_broker (process_request W ts (req, io) st) = broker_publish (we_bc W) rs (ws_broker st)"
proof (cases rule: process_request_cases [of req W ts io st])
  case (refused dedup s e)
  with assms(1) show ?thesis by (simp add: send_response_def store_append_Inl_log broker_publish_def)
next
  case (appended dedup s recorded)
  then have log: "el_events (st_log s) = el_events (st_log (ws_store st)) @ recorded" "length recorded = length (ar_events req)"
    by (auto simp: store_append_Inr_iff update_index_def)
  with assms(3) appended(4) have "length (el_events (st_log (ws_store st))) + length (ar_events req) < 2 ^ 64"
    by (simp add: send_response_def)
  from append_preserves_log_wf [OF assms(1,2) this appended(3)] log appended(4) show ?thesis
    by (simp add: send_response_def)
qed (use assms(1) in \<open>simp_all add: send_response_def broker_publish_def\<close>)

text \<open>Requests in the process come from the service: they are not empty.\<close>

definition base_inv :: "('addr, 'c, 'ch, 'rx) process \<Rightarrow> bool" where
  "base_inv p \<longleftrightarrow> log_wf (process_log p) \<and>
     (\<forall>req \<in> set (pr_unsent p @ wy_batch (pr_writer p) @ wy_queue (pr_writer p)). ar_events req \<noteq> [])"

lemma task_effect:
  assumes "writer_task W (pr_writer p) served y" and "base_inv p"
    and "length (el_events (st_log (ws_store (wy_state y)))) < 2 ^ 64"
  shows "\<exists>rs. el_events (st_log (ws_store (wy_state y))) = el_events (process_log p) @ rs \<and>
    ws_broker (wy_state y) = broker_publish (we_bc W) rs (process_broker p) \<and> base_inv (p\<lparr>pr_writer := y\<rparr>)"
  using assms(1)
proof (cases rule: writer_task.cases)
  case (serve req rest io)
  have "log_wf (process_log p)" "ar_events req \<noteq> []" using assms(2) serve by (simp_all add: base_inv_def)
  from request_effect [OF this, of W "of_nat (wy_millis (pr_writer p))" io] serve assms(2,3) show ?thesis
    by (auto simp: base_inv_def)
qed (use assms(2) in \<open>auto simp: base_inv_def broker_publish_def\<close>)

lemma poll_broker:
  assumes "stream_poll U B st m req s = Some (out, s', b, m')"
  shows "b = ws_broker st \<or> b = snd (broker_subscribe B (ws_broker st))"
  using assms
  by (auto simp: stream_poll_generator service_sub_poll_def subscribe_of_def
      split: sub_stream.splits option.splits sum.splits if_splits)

lemma step_grows:
  assumes "process_step U W capacity p l p'"
  shows "prefix (el_events (process_log p)) (el_events (process_log p'))"
  using assms
proof (cases rule: process_step.cases)
  case (task served y)
  from task(3) have "prefix (el_events (process_log p)) (el_events (st_log (ws_store (wy_state y))))"
  proof (cases rule: writer_task.cases)
    case (serve req rest io)
    then show ?thesis
      by (cases rule: process_request_cases [of req W "of_nat (wy_millis (pr_writer p))" io "wy_state (pr_writer p)"])
        (auto simp: send_response_def store_append_Inl_log store_append_Inr_iff update_index_def)
  qed auto
  with task(2) show ?thesis by simp
next
  case (send req rest y)
  with client_sendD [OF send(4)] show ?thesis by simp
qed (simp_all add: set_broker_def)

lemma run_grows:
  "run (process_step U W capacity) p ls p' \<Longrightarrow> prefix (el_events (process_log p)) (el_events (process_log p'))"
  by (induction rule: run.induct) (auto dest: step_grows intro: prefix_order.trans)

lemma base_inv_step:
  assumes "process_step U W capacity p l p'" and "base_inv p" and "length (el_events (process_log p')) < 2 ^ 64"
  shows "base_inv p'"
  using assms(1)
proof (cases rule: process_step.cases)
  case (task served y)
  with task_effect [OF task(3) assms(2)] assms(3) show ?thesis by auto
next
  case (begin_append call arguments t)
  obtain sid ev events where a: "arguments = (sid, ev, events)" by (cases arguments)
  with begin_append(4) have "events \<noteq> []" by (auto simp: append_arguments_Inr)
  with begin_append(2) a assms(2) show ?thesis by (auto simp: base_inv_def append_task_def)
next
  case (send req rest y)
  with client_sendD [OF send(4)] assms(2) show ?thesis by (auto simp: base_inv_def)
qed (use assms(2) in \<open>simp_all add: base_inv_def set_broker_def\<close>)

lemma process_start_state [simp]: "wy_state (pr_writer (process_start sv m)) = sv_writer sv"
  by (simp add: process_start_def writer_system_start_def)

lemma base_inv_start: "log_wf (st_log (ws_store (sv_writer sv))) \<Longrightarrow> base_inv (process_start sv m)"
  by (simp add: base_inv_def process_start_def writer_system_start_def)

subsection \<open>The invariant of one response stream\<close>

text \<open>The messages of stream \<open>i\<close> in a trace.\<close>

fun emitted :: "nat \<Rightarrow> process_event list \<Rightarrow> (status + sub_content) list" where
  "emitted i [] = []"
| "emitted i (Polled j (Some x) # ls) = (if j = i then x # emitted i ls else emitted i ls)"
| "emitted i (l # ls) = emitted i ls"

lemma emitted_Cons: "emitted i (l # ls) = emitted i [l] @ emitted i ls"
proof (cases l)
  case (Polled j out)
  then show ?thesis by (cases out) simp_all
qed simp_all

lemma emitted_append [simp]: "emitted i (xs @ ys) = emitted i xs @ emitted i ys"
  by (induction xs) (simp, subst append_Cons, subst (1 2) emitted_Cons, simp)

text \<open>
  What a subscriber may have been sent, of a view \<open>V\<close> of which \<open>b\<close> events existed when it called: the run
  from \<open>f\<close> to \<open>n\<close>; or, beyond \<open>b\<close>, the marker and the run from \<open>n\<close> to \<open>k\<close> behind it, and the lag error as the last
  message if there was one.
\<close>

definition delivery :: "recorded_event list \<Rightarrow> nat \<Rightarrow> nat \<Rightarrow> nat \<Rightarrow> nat \<Rightarrow> item list \<Rightarrow> item list \<Rightarrow> bool" where
  "delivery V f b n k lag xs \<longleftrightarrow> f \<le> n \<and> n \<le> k \<and> k \<le> length V \<and> (lag = [] \<or> lag = [Inl lag_error]) \<and>
     (xs = messages (window V f n) \<or>
      b \<le> n \<and> xs = messages (window V f n) @ Inr CaughtUp # messages (window V n k) @ lag)"

definition well_delivered :: "recorded_event list \<Rightarrow> nat \<Rightarrow> nat \<Rightarrow> item list \<Rightarrow> bool" where
  "well_delivered V f b xs \<longleftrightarrow> (\<exists>n k lag. delivery V f b n k lag xs)"

lemma well_delivered_append: "well_delivered V f b xs \<Longrightarrow> well_delivered (V @ W) f b xs"
proof -
  have "delivery (V @ W) f b n k lag xs" if "delivery V f b n k lag xs" for n k lag
  proof -
    from that have "window (V @ W) f n = window V f n" "window (V @ W) n k = window V n k"
      by (auto simp: delivery_def)
    with that show ?thesis by (simp add: delivery_def)
  qed
  then show "well_delivered V f b xs \<Longrightarrow> well_delivered (V @ W) f b xs" unfolding well_delivered_def by blast
qed

lemma well_delivered_start: "f \<le> length V \<Longrightarrow> well_delivered V f b []"
  unfolding well_delivered_def by (intro exI [of _ f] exI [of _ f] exI [of _ "[]"]) (simp add: delivery_def)

lemma well_delivered_mono: "well_delivered V f b xs \<Longrightarrow> b' \<le> b \<Longrightarrow> well_delivered V f b' xs"
proof -
  assume "b' \<le> b"
  then have "delivery V f b n k lag xs \<Longrightarrow> delivery V f b' n k lag xs" for n k lag
    by (auto simp: delivery_def)
  then show "well_delivered V f b xs \<Longrightarrow> well_delivered V f b' xs" unfolding well_delivered_def by blast
qed

definition sub_view :: "event_log \<Rightarrow> 'ch broker \<Rightarrow> 'rx subscriber \<Rightarrow> item list \<Rightarrow> ('ch, 'rx) sub_system" where
  "sub_view log br sub xs =
     \<lparr>sy_log = log, sy_published = length (el_events log), sy_broker = br, sy_sub = sub, sy_out = xs\<rparr>"

context subscription
begin

lemma inv_publish_rest:
  "sub_inv f p0 y \<Longrightarrow> sub_inv f p0 (y\<lparr>sy_broker := broker_publish B (drop (sy_published y) (el_events (sy_log y))) (sy_broker y),
     sy_published := length (el_events (sy_log y))\<rparr>)"
proof (induction "length (el_events (sy_log y)) - sy_published y" arbitrary: y)
  case 0
  then have pub: "sy_published y = length (el_events (sy_log y))" by (simp add: sub_inv_def)
  have "y\<lparr>sy_broker := broker_publish B (drop (sy_published y) (el_events (sy_log y))) (sy_broker y),
      sy_published := length (el_events (sy_log y))\<rparr> = y"
    using pub by (cases y) (simp add: broker_publish_def)
  with 0(2) show ?case by (simp only:)
next
  case (Suc k)
  let ?E = "el_events (sy_log y)"
  let ?y = "y\<lparr>sy_broker := broker_publish B [?E ! sy_published y] (sy_broker y), sy_published := Suc (sy_published y)\<rparr>"
  have lt: "sy_published y < length ?E" using Suc(2) by simp
  then have drop: "drop (sy_published y) ?E = ?E ! sy_published y # drop (Suc (sy_published y)) ?E"
    by (simp add: Cons_nth_drop_Suc)
  from Suc(1) [of ?y] Suc(2) inv_publish [OF Suc(3) lt] show ?case
    by (simp add: drop broker_publish_def)
qed

lemma inv_commit:
  assumes "sub_inv f p0 (sub_view log br sub xs)" and "el_events log' = el_events log @ rs" and "log_wf log'"
  shows "sub_inv f p0 (sub_view log' (broker_publish B rs br) sub xs)"
  using inv_publish_rest [OF inv_append [OF assms(1), of log' rs]] assms(2,3) by (simp add: sub_view_def)

lemma inv_well_delivered:
  assumes "sub_inv f p0 y"
  shows "well_delivered (view y) f (kept keep (el_events (sy_log y)) p0) (sy_out y)"
proof -
  from inv_transcript [OF assms] obtain n k lag where t: "f \<le> n" "n \<le> k" "k \<le> length (view y)"
    "lag = [] \<or> lag = [Inl lag_error]" "sy_out y = transcript (view y) (sb_phase (sy_sub y)) f n k lag"
    "sb_phase (sy_sub y) = Live \<or> sb_phase (sy_sub y) = Finished \<longrightarrow> kept keep (el_events (sy_log y)) p0 \<le> n"
    by blast
  then have "delivery (view y) f (kept keep (el_events (sy_log y)) p0) n k lag (sy_out y)"
    by (auto simp: delivery_def transcript_def)
  then show ?thesis unfolding well_delivered_def by blast
qed

end

definition stream_inv ::
  "('ch \<Rightarrow> 'rx \<Rightarrow> recorded_event list) \<Rightarrow> ('ch \<Rightarrow> 'rx \<Rightarrow> bool) \<Rightarrow> sub_request \<Rightarrow> event_log \<Rightarrow> event_log \<Rightarrow> 'ch broker
     \<Rightarrow> 'rx sub_stream \<Rightarrow> item list \<Rightarrow> bool" where
  "stream_inv queue live req log0 log br s xs \<longleftrightarrow>
     unat (from_of req) \<le> length (view_of req log0) \<and> prefix (el_events log0) (el_events log) \<and> log_wf log \<and>
     (case s of
        NotStarted \<Rightarrow> xs = []
      | Running sub \<Rightarrow> sb_phase sub \<noteq> Finished \<and>
          (\<exists>p0. length (el_events log0) \<le> p0 \<and>
             subscription.sub_inv (keep_of req) queue live (unat (from_of req)) p0 (sub_view log br sub xs))
      | Ended \<Rightarrow> well_delivered (view_of req log) (unat (from_of req)) (length (view_of req log0)) xs)"

lemma view_of_prefix: "prefix (el_events log0) (el_events log) \<Longrightarrow> \<exists>zs. view_of req log = view_of req log0 @ zs"
  by (auto simp: prefix_def view_of_def)

lemma sub_inv_delivered:
  assumes bc: "broadcast_channel B queue live cap" and log: "prefix (el_events log0) (el_events log)"
    and p0: "length (el_events log0) \<le> p0"
      "subscription.sub_inv (keep_of req) queue live (unat (from_of req)) p0 (sub_view log br sub xs)"
  shows "well_delivered (view_of req log) (unat (from_of req)) (length (view_of req log0)) xs"
proof -
  have "length (view_of req log0) = kept (keep_of req) (el_events log) (length (el_events log0))"
    using log by (auto simp: prefix_def kept_def view_of_def)
  also have "\<dots> \<le> kept (keep_of req) (el_events log) p0" by (rule kept_mono [OF p0(1)])
  finally show ?thesis
    using subscription.inv_well_delivered [OF request_subscription [OF bc, of req] p0(2)]
    by (auto simp: sub_view_def view_of_def intro: well_delivered_mono)
qed

lemma stream_inv_delivered:
  assumes bc: "broadcast_channel B queue live cap" and inv: "stream_inv queue live req log0 log br s xs"
  shows "well_delivered (view_of req log) (unat (from_of req)) (length (view_of req log0)) xs"
proof (cases s)
  case NotStarted
  obtain zs where "view_of req log = view_of req log0 @ zs"
    using inv view_of_prefix by (fastforce simp: stream_inv_def)
  with inv NotStarted well_delivered_start show ?thesis by (simp add: stream_inv_def)
next
  case (Running sub)
  with inv sub_inv_delivered [OF bc] show ?thesis by (auto simp: stream_inv_def)
qed (use inv in \<open>simp add: stream_inv_def\<close>)

lemma stream_inv_commit:
  assumes bc: "broadcast_channel B queue live cap" and inv: "stream_inv queue live req log0 log br s xs"
    and log: "el_events log' = el_events log @ rs" "log_wf log'"
  shows "stream_inv queue live req log0 log' (broker_publish B rs br) s xs"
proof -
  note S = request_subscription [OF bc, of req]
  have "view_of req log' = view_of req log @ filter (keep_of req) rs" by (simp add: view_of_def log(1))
  with inv subscription.inv_commit [OF S _ log] log show ?thesis
    by (auto simp: stream_inv_def intro: well_delivered_append split: sub_stream.splits)
qed

lemma stream_inv_other:
  assumes bc: "broadcast_channel B queue live cap" and inv: "stream_inv queue live req log0 log br s xs"
  shows "stream_inv queue live req log0 log (snd (broker_subscribe B br)) s xs"
proof -
  have "subscription.sub_inv (keep_of req) queue live f p0 (sub_view log (snd (broker_subscribe B br)) sub xs)"
    if "subscription.sub_inv (keep_of req) queue live f p0 (sub_view log br sub xs)" for f p0 sub
    using subscription.inv_other [OF request_subscription [OF bc, of req] that] by (simp add: sub_view_def)
  with inv show ?thesis by (auto simp: stream_inv_def split: sub_stream.splits)
qed

lemma stream_inv_first_poll:
  assumes bc: "broadcast_channel B queue live cap" and inv: "stream_inv queue live req log0 log br NotStarted xs"
  shows "stream_inv queue live req log0 log (snd (subscribe_of B req br)) (Running (fst (subscribe_of B req br))) xs"
proof -
  note S = request_subscription [OF bc, of req]
  let ?E = "el_events log"
  have h: "log_wf log" "unat (from_of req) \<le> length (view_of req log0)" "prefix (el_events log0) ?E" "xs = []"
    using inv by (simp_all add: stream_inv_def)
  have "length (view_of req log0) \<le> length (view_of req log)" using view_of_prefix [OF h(3), of req] by auto
  then have start: "unat (from_of req) \<le> kept (keep_of req) ?E (length ?E)"
    using h(2) by (simp add: kept_def view_of_def)
  have sv: "sub_start (subscribe_of B req) log (length ?E) br
      = sub_view log (snd (subscribe_of B req br)) (fst (subscribe_of B req br)) []"
    by (simp add: sub_start_def sub_view_def)
  have "subscription.sub_inv (keep_of req) queue live (unat (from_of req)) (length ?E)
      (sub_start (subscribe_of B req) log (length ?E) br)"
    by (rule subscription.inv_start [OF S h(1) _ start]) (simp_all add: subscribe_of_def)
  with inv h(3,4) prefix_length_le [OF h(3)] show ?thesis
    by (auto simp: stream_inv_def sv) (auto simp: subscribe_of_def)
qed

lemma stream_inv_poll:
  assumes bc: "broadcast_channel B queue live cap" and inv: "stream_inv queue live req log0 (st_log (ws_store st)) (ws_broker st) s xs"
    and poll: "stream_poll U B st m req s = Some (out, s', b, m')" and s: "s \<noteq> Ended"
  shows "\<exists>xs'. map (map_item U) xs' = map (map_item U) xs @ (case out of None \<Rightarrow> [] | Some x \<Rightarrow> [x]) \<and>
    stream_inv queue live req log0 (st_log (ws_store st)) b s' xs'"
proof (cases s)
  case NotStarted
  with poll have "out = None" "s' = Running (fst (subscribe_of B req (ws_broker st)))" "b = snd (subscribe_of B req (ws_broker st))"
    by (auto simp: stream_poll_generator service_sub_poll_def split: prod.splits)
  with stream_inv_first_poll [OF bc inv [unfolded NotStarted]] show ?thesis by auto
next
  case (Running sub)
  let ?log = "st_log (ws_store st)"
  note S = request_subscription [OF bc, of req]
  from poll Running obtain i sub' where gen: "poll_of B req (read_index_new ?log) (ws_broker st) sub = Some (i, sub')"
    by (auto simp: stream_poll_generator service_sub_poll_def split: option.splits)
  from inv Running obtain p0 where p0: "sb_phase sub \<noteq> Finished" "length (el_events log0) \<le> p0"
    "subscription.sub_inv (keep_of req) queue live (unat (from_of req)) p0 (sub_view ?log (ws_broker st) sub xs)"
    by (auto simp: stream_inv_def)
  let ?xs = "xs @ emit i"
  have next_inv: "subscription.sub_inv (keep_of req) queue live (unat (from_of req)) p0 (sub_view ?log (ws_broker st) sub' ?xs)"
    using subscription.inv_poll [OF S p0(3)] gen by (simp add: sub_view_def)
  have run: "stream_inv queue live req log0 ?log (ws_broker st) (Running sub') ?xs" if "sb_phase sub' \<noteq> Finished"
    using inv p0(2) next_inv that by (auto simp: stream_inv_def)
  have ended: "stream_inv queue live req log0 ?log (ws_broker st) Ended ?xs"
    using sub_inv_delivered [OF bc _ p0(2) next_inv] inv by (simp add: stream_inv_def)
  from generator_step_running [OF gen p0(1)] show ?thesis
  proof (elim disjE conjE exE)
    assume "sb_phase sub' = Finished" "i = None"
    with poll Running gen ended show ?thesis
      by (intro exI [of _ ?xs]) (auto simp: stream_poll_generator service_sub_poll_def emit_def)
  next
    fix e
    assume "sb_phase sub' = Finished" "i = Some (Inl e)"
    with poll Running gen ended show ?thesis
      by (intro exI [of _ ?xs]) (auto simp: stream_poll_generator service_sub_poll_def emit_def map_item_def)
  next
    assume ph: "sb_phase sub' \<noteq> Finished" and "i = None"
    with poll Running gen run [OF ph] show ?thesis
      by (intro exI [of _ ?xs]) (auto simp: stream_poll_generator service_sub_poll_def emit_def)
  next
    fix msg
    assume ph: "sb_phase sub' \<noteq> Finished" and "i = Some (Inr msg)"
    with poll Running gen run [OF ph] show ?thesis
      by (intro exI [of _ ?xs]) (auto simp: stream_poll_generator service_sub_poll_def emit_def)
  qed
qed (use s in simp)

subsection \<open>The process\<close>

lemma stream_inv_gone:
  assumes "broadcast_channel B queue live cap" and "stream_inv queue live req log0 log br s xs"
  shows "stream_inv queue live req log0 log br Ended xs"
  using stream_inv_delivered [OF assms] assms(2) by (simp add: stream_inv_def)

lemma stream_inv_step:
  assumes bc: "broadcast_channel (we_bc W) queue live cap" and base: "base_inv p"
    and step: "process_step U W capacity p l p'" and small: "length (el_events (process_log p')) < 2 ^ 64"
    and i: "i < length (pr_streams p)" "pr_streams p ! i = (req, s)"
    and inv: "stream_inv queue live req log0 (process_log p) (process_broker p) s xs"
  shows "\<exists>s' xs'. i < length (pr_streams p') \<and> pr_streams p' ! i = (req, s') \<and>
    map (map_item U) xs' = map (map_item U) xs @ emitted i [l] \<and>
    stream_inv queue live req log0 (process_log p') (process_broker p') s' xs'"
  using step
proof (cases rule: process_step.cases)
  case (task served y)
  with task_effect [OF task(3) base] small obtain rs where
    "el_events (process_log p') = el_events (process_log p) @ rs" "log_wf (process_log p')"
    "process_broker p' = broker_publish (we_bc W) rs (process_broker p)"
    by (auto simp: base_inv_def)
  with stream_inv_commit [OF bc inv] task(1,2) i show ?thesis by auto
next
  case (send req' rest y)
  with client_sendD [OF send(4)] i inv show ?thesis by auto
next
  case (poll j req' s' out s'' b m)
  show ?thesis
  proof (cases "j = i")
    case True
    with poll i have same: "req' = req" "s' = s" by simp_all
    from stream_inv_poll [OF bc inv poll(6) [unfolded same] poll(5) [unfolded same]] obtain xs'
      where "map (map_item U) xs' = map (map_item U) xs @ (case out of None \<Rightarrow> [] | Some x \<Rightarrow> [x])"
        "stream_inv queue live req log0 (process_log p) b s'' xs'" by blast
    with poll(1,2) i same True show ?thesis by (cases out) (auto simp: set_broker_def)
  next
    case False
    have "stream_inv queue live req log0 (process_log p) b s xs"
      using poll_broker [OF poll(6)] inv stream_inv_other [OF bc inv] by auto
    with poll(1,2) i False show ?thesis by (cases out) (auto simp: set_broker_def)
  qed
next
  case (client_gone j req' s' s'' m)
  show ?thesis
  proof (cases "j = i")
    case True
    with client_gone i have "s'' = Ended" "req' = req" by (auto simp: service_sub_drop_def split: sub_stream.splits)
    with True client_gone(1,2) i stream_inv_gone [OF bc inv] show ?thesis by auto
  next
    case False
    with client_gone(1,2) i inv show ?thesis by auto
  qed
qed (use i inv in \<open>auto simp: nth_append\<close>)

lemma stream_inv_run:
  assumes bc: "broadcast_channel (we_bc W) queue live cap"
  shows "run (process_step U W capacity) p ls p' \<Longrightarrow> base_inv p \<Longrightarrow> length (el_events (process_log p')) < 2 ^ 64 \<Longrightarrow>
    i < length (pr_streams p) \<Longrightarrow> pr_streams p ! i = (req, s) \<Longrightarrow>
    stream_inv queue live req log0 (process_log p) (process_broker p) s xs \<Longrightarrow>
    \<exists>s' xs'. i < length (pr_streams p') \<and> pr_streams p' ! i = (req, s') \<and>
      map (map_item U) xs' = map (map_item U) xs @ emitted i ls \<and>
      stream_inv queue live req log0 (process_log p') (process_broker p') s' xs'"
proof (induction arbitrary: s xs rule: run.induct)
  case (run_Cons p l q ls p')
  have small: "length (el_events (process_log q)) < 2 ^ 64"
    using prefix_length_le [OF run_grows [OF run_Cons(2)]] run_Cons(5) by linarith
  note base = base_inv_step [OF run_Cons(1,4) small]
  from stream_inv_step [OF bc run_Cons(4,1) small run_Cons(6-8)] obtain s1 xs1 where
    q: "i < length (pr_streams q)" "pr_streams q ! i = (req, s1)"
      "map (map_item U) xs1 = map (map_item U) xs @ emitted i [l]"
      "stream_inv queue live req log0 (process_log q) (process_broker q) s1 xs1" by blast
  from run_Cons(3) [OF base run_Cons(5) q(1,2,4)] q(3) show ?case
    by (subst emitted_Cons) auto
qed auto

lemma base_inv_run:
  "run (process_step U W capacity) p ls p' \<Longrightarrow> base_inv p \<Longrightarrow> length (el_events (process_log p')) < 2 ^ 64 \<Longrightarrow> base_inv p'"
proof (induction rule: run.induct)
  case (run_Cons p l q ls p')
  have "length (el_events (process_log q)) < 2 ^ 64"
    using prefix_length_le [OF run_grows [OF run_Cons(2)]] run_Cons(5) by linarith
  with run_Cons show ?case using base_inv_step by blast
qed

lemma opened_stream_inv:
  assumes bc: "broadcast_channel (we_bc W) queue live cap" and wf: "log_wf (st_log (ws_store (sv_writer sv)))"
    and run0: "run (process_step U W capacity) (process_start sv m) ls0 p0"
    and step: "process_step U W capacity p0 (SubscribeCall call) p1" and req: "sub_arguments U call = Inr req"
    and run: "run (process_step U W capacity) p1 ls p" and small: "length (el_events (process_log p)) < 2 ^ 64"
    and start: "unat (from_of req) \<le> length (view_of req (process_log p0))"
  defines "i \<equiv> length (pr_streams p0)"
  shows "\<exists>s xs. i < length (pr_streams p) \<and> pr_streams p ! i = (req, s) \<and> emitted i ls = map (map_item U) xs \<and>
    stream_inv queue live req (process_log p0) (process_log p) (process_broker p) s xs"
proof -
  from step req have p1: "p1 = p0\<lparr>pr_streams := pr_streams p0 @ [(req, NotStarted)]\<rparr>"
    by (cases rule: process_step.cases) auto
  then have log: "process_log p1 = process_log p0" by simp
  have "length (el_events (process_log p0)) < 2 ^ 64"
    using prefix_length_le [OF run_grows [OF run]] log small by simp
  from base_inv_run [OF run0 base_inv_start [OF wf] this] have base: "base_inv p1" by (simp add: p1 base_inv_def)
  have new: "i < length (pr_streams p1)" "pr_streams p1 ! i = (req, NotStarted)" by (simp_all add: p1 i_def)
  have "stream_inv queue live req (process_log p0) (process_log p1) (process_broker p1) NotStarted []"
    using start base by (simp add: stream_inv_def p1 base_inv_def)
  from stream_inv_run [OF bc run base small new this] obtain s xs where
    "i < length (pr_streams p)" "pr_streams p ! i = (req, s)" "map (map_item U) xs = emitted i ls"
    "stream_inv queue live req (process_log p0) (process_log p) (process_broker p) s xs" by auto
  then show ?thesis by (intro exI [of _ s] exI [of _ xs]) simp
qed

text \<open>
  C8: delivery over the wire. Whatever other clients call and the writer serves, a subscriber that asked for
  a position (or a version) that existed is sent, at any moment, a contiguous run of the log (or of its
  stream) from that point, without gap, repetition or reordering, with at most one CaughtUp marker, which
  comes after every event that was there when it called; an error is the last message and says that the
  receiver lagged.
\<close>

theorem wire_delivery:
  assumes "broadcast_channel (we_bc W) queue live cap" and "log_wf (st_log (ws_store (sv_writer sv)))"
    and "run (process_step U W capacity) (process_start sv m) ls0 p0"
    and "process_step U W capacity p0 (SubscribeCall call) p1" and "sub_arguments U call = Inr req"
    and "run (process_step U W capacity) p1 ls p" and "length (el_events (process_log p)) < 2 ^ 64"
    and "unat (from_of req) \<le> length (view_of req (process_log p0))"
  shows "\<exists>xs. emitted (length (pr_streams p0)) ls = map (map_item U) xs \<and>
    well_delivered (view_of req (process_log p)) (unat (from_of req)) (length (view_of req (process_log p0))) xs"
  using opened_stream_inv [OF assms] stream_inv_delivered [OF assms(1)] by blast

subsection \<open>Complete delivery\<close>

lemma poll_many_finished:
  "sb_phase (sy_sub y) = Finished \<Longrightarrow> poll_many (generator_step read keep key B) k y = Some y' \<Longrightarrow>
     sb_phase (sy_sub y') = Finished"
proof (induction k arbitrary: y)
  case (Suc k)
  from Suc.prems Suc.IH [of "y\<lparr>sy_out := sy_out y @ emit None\<rparr>"] show ?case
    by (simp add: poll_once_def generator_step_def)
qed simp

text \<open>Polls of the generator as polls of the response stream.\<close>

lemma poll_many_run:
  assumes "poll_many (poll_of (we_bc W) req) k (sub_view (process_log p) (process_broker p) sub xs) = Some y"
    and "sb_phase sub \<noteq> Finished" and "sb_phase (sy_sub y) \<noteq> Finished"
    and "i < length (pr_streams p)" and "pr_streams p ! i = (req, Running sub)"
  shows "\<exists>ls p'. run (process_step U W capacity) p ls p' \<and> set ls \<subseteq> range (Polled i) \<and>
    process_log p' = process_log p \<and> map (map_item U) (sy_out y) = map (map_item U) xs @ emitted i ls"
  using assms
proof (induction k arbitrary: p sub xs)
  case 0
  then show ?case by (intro exI [of _ "[]"] exI [of _ p]) (auto simp: sub_view_def)
next
  case (Suc k)
  let ?st = "wy_state (pr_writer p)"
  from Suc.prems(1) obtain j sub' where gen: "poll_of (we_bc W) req (read_index_new (process_log p)) (process_broker p) sub = Some (j, sub')"
    and rest: "poll_many (poll_of (we_bc W) req) k (sub_view (process_log p) (process_broker p) sub' (xs @ emit j)) = Some y"
    by (auto simp: poll_once_def sub_view_def split: option.splits)
  have ph: "sb_phase sub' \<noteq> Finished"
    using poll_many_finished [OF _ rest] Suc.prems(3) by (auto simp: sub_view_def)
  have j: "j = None \<or> (\<exists>msg. j = Some (Inr msg))" using generator_step_running [OF gen Suc.prems(2)] ph by blast
  let ?out = "map_option (map_item U) j"
  have "stream_poll U (we_bc W) ?st (pr_gauge p) req (Running sub) = Some (?out, Running sub', process_broker p, pr_gauge p)"
    using gen ph j by (auto simp: stream_poll_generator service_sub_poll_def)
  from process_step.poll [OF Suc.prems(4,5) _ this] have step: "process_step U W capacity p (Polled i ?out)
      (p\<lparr>pr_streams := (pr_streams p)[i := (req, Running sub')], pr_writer := set_broker (process_broker p) (pr_writer p),
         pr_gauge := pr_gauge p\<rparr>)" (is "process_step U W capacity p _ ?p") by simp
  have same: "process_log ?p = process_log p" "process_broker ?p = process_broker p"
    by (simp_all add: set_broker_def)
  have next_stream: "i < length (pr_streams ?p)" "pr_streams ?p ! i = (req, Running sub')" using Suc.prems(4) by simp_all
  from Suc.IH [of ?p, unfolded same, OF rest ph Suc.prems(3) next_stream] obtain ls p' where
    p': "run (process_step U W capacity) ?p ls p'" "set ls \<subseteq> range (Polled i)" "process_log p' = process_log p"
      "map (map_item U) (sy_out y) = map (map_item U) (xs @ emit j) @ emitted i ls" by blast
  have "map (map_item U) (emit j) = emitted i [Polled i ?out]" by (cases j) (simp_all add: emit_def)
  with p'(4) have "map (map_item U) (sy_out y) = map (map_item U) xs @ emitted i (Polled i ?out # ls)"
    by (subst emitted_Cons) simp
  with run_Cons [OF step p'(1)] p'(2,3) show ?case by (intro exI [of _ "Polled i ?out # ls"] exI [of _ p']) auto
qed

lemma started_stream:
  assumes bc: "broadcast_channel (we_bc W) queue live cap"
    and i: "i < length (pr_streams p)" "pr_streams p ! i = (req, s)" and s: "s \<noteq> Ended"
    and inv: "stream_inv queue live req log0 (process_log p) (process_broker p) s xs"
  shows "\<exists>ls p' sub. run (process_step U W capacity) p ls p' \<and> set ls \<subseteq> range (Polled i) \<and> emitted i ls = [] \<and>
    process_log p' = process_log p \<and>
    (process_broker p' = process_broker p \<or> process_broker p' = snd (broker_subscribe (we_bc W) (process_broker p))) \<and>
    i < length (pr_streams p') \<and> pr_streams p' ! i = (req, Running sub) \<and>
    stream_inv queue live req log0 (process_log p') (process_broker p') (Running sub) xs"
proof (cases s)
  case NotStarted
  let ?sub = "subscribe_of (we_bc W) req (process_broker p)"
  have "stream_poll U (we_bc W) (wy_state (pr_writer p)) (pr_gauge p) req s
      = Some (None, Running (fst ?sub), snd ?sub, subscription_gauge_new (pr_gauge p))"
    by (simp add: NotStarted stream_poll_generator service_sub_poll_def case_prod_beta)
  from process_step.poll [OF i s this] have "run (process_step U W capacity) p [Polled i None]
      (p\<lparr>pr_streams := (pr_streams p)[i := (req, Running (fst ?sub))], pr_writer := set_broker (snd ?sub) (pr_writer p),
         pr_gauge := subscription_gauge_new (pr_gauge p)\<rparr>)" (is "run _ _ _ ?p")
    by (simp add: run_single)
  moreover have "process_broker ?p = snd (broker_subscribe (we_bc W) (process_broker p))"
    by (simp add: set_broker_def subscribe_of_def)
  moreover have "stream_inv queue live req log0 (process_log ?p) (process_broker ?p) (Running (fst ?sub)) xs"
    using stream_inv_first_poll [OF bc inv [unfolded NotStarted]] by (simp add: set_broker_def)
  ultimately show ?thesis
    using i(1) by (intro exI [of _ "[Polled i None]"] exI [of _ ?p] exI [of _ "fst ?sub"]) (simp add: set_broker_def)
next
  case (Running sub)
  with i inv show ?thesis by (intro exI [of _ "[]"] exI [of _ p] exI [of _ sub]) auto
qed (use s in simp)

lemma stream_completes:
  assumes "broadcast_channel (we_bc W) queue live cap" and "log_wf (st_log (ws_store (sv_writer sv)))"
    and "run (process_step U W capacity) (process_start sv m) ls0 p0"
    and "process_step U W capacity p0 (SubscribeCall call) p1" and "sub_arguments U call = Inr req"
    and "run (process_step U W capacity) p1 ls p" and "length (el_events (process_log p)) < 2 ^ 64"
    and "unat (from_of req) \<le> length (view_of req (process_log p0))"
    and "snd (pr_streams p ! length (pr_streams p0)) \<noteq> Ended"
    and "length (el_events (process_log p)) - length (el_events (process_log p0)) \<le> cap (br_tx (process_broker p))"
  defines "V \<equiv> view_of req (process_log p)" and "i \<equiv> length (pr_streams p0)"
  shows "\<exists>ls' p' n. run (process_step U W capacity) p ls' p' \<and> set ls' \<subseteq> range (Polled i) \<and>
    process_log p' = process_log p \<and> unat (from_of req) \<le> n \<and> n \<le> length V \<and>
    emitted i (ls @ ls') = map (map_item U)
      (messages (window V (unat (from_of req)) n) @ Inr CaughtUp # messages (window V n (length V)))"
proof -
  note bc = assms(1) and S = request_subscription [OF assms(1), of req]
  from opened_stream_inv [OF assms(1-8)] obtain s xs where s: "i < length (pr_streams p)" "pr_streams p ! i = (req, s)"
    "emitted i ls = map (map_item U) xs"
    "stream_inv queue live req (process_log p0) (process_log p) (process_broker p) s xs"
    unfolding i_def by blast
  have "s \<noteq> Ended" using assms(9) s(2) by (simp add: i_def)
  from started_stream [OF bc s(1,2) this s(4), of U capacity] obtain ls1 q sub where q:
    "run (process_step U W capacity) p ls1 q" "set ls1 \<subseteq> range (Polled i)" "emitted i ls1 = []" "process_log q = process_log p"
    "process_broker q = process_broker p \<or> process_broker q = snd (broker_subscribe (we_bc W) (process_broker p))"
    "i < length (pr_streams q)" "pr_streams q ! i = (req, Running sub)"
    "stream_inv queue live req (process_log p0) (process_log q) (process_broker q) (Running sub) xs" by blast
  have cap: "cap (br_tx (process_broker q)) = cap (br_tx (process_broker p))"
    using q(5) broadcast_channel.capacity_subscribe [OF bc] by (auto simp: broker_subscribe_def case_prod_beta)
  let ?y = "sub_view (process_log q) (process_broker q) sub xs"
  from q(8) obtain k where k: "sb_phase sub \<noteq> Finished" "length (el_events (process_log p0)) \<le> k"
    "subscription.sub_inv (keep_of req) queue live (unat (from_of req)) k ?y" by (auto simp: stream_inv_def)
  have "sy_published ?y - k \<le> cap (br_tx (sy_broker ?y))"
    using assms(10) k(2) q(4) cap by (simp add: sub_view_def)
  from subscription.polls_drain [OF S k(3) _ this] k(1) obtain j y where y:
    "poll_many (poll_of (we_bc W) req) j ?y = Some y"
    "subscription.sub_inv (keep_of req) queue live (unat (from_of req)) k y" "sb_phase (sy_sub y) = Live"
    "subscription.pending queue y = 0" "sy_log y = process_log p" "sy_published y = length (el_events (process_log p))"
    using q(4) by (auto simp: sub_view_def)
  from poll_many_run [OF y(1) k(1) _ q(6,7), of U capacity] y(3) obtain ls2 p' where p':
    "run (process_step U W capacity) q ls2 p'" "set ls2 \<subseteq> range (Polled i)" "process_log p' = process_log q"
    "map (map_item U) (sy_out y) = map (map_item U) xs @ emitted i ls2" by auto
  from subscription.drained_transcript [OF S y(2-4)] y(5,6) obtain n where
    "sy_out y = messages (window V (unat (from_of req)) n) @ Inr CaughtUp # messages (window V n (length V))"
    "unat (from_of req) \<le> n" "n \<le> length V"
    by (auto simp: V_def view_of_def kept_def)
  moreover have "run (process_step U W capacity) p (ls1 @ ls2) p'" unfolding run_append using q(1) p'(1) by blast
  ultimately show ?thesis
    using q(2-4) p'(2-4) s(3) by (intro exI [of _ "ls1 @ ls2"] exI [of _ p'] exI [of _ n]) auto
qed

text \<open>
  C9: delivery completes. From every state of the server in which a subscriber is still connected and did
  not fall behind by more than the channel holds, finitely many polls of its response stream alone
  complete it: it has then been sent every event of the log (or of its stream) from the point it asked
  for to the newest, with the CaughtUp marker in between.
\<close>

theorem wire_delivery_complete:
  assumes "broadcast_channel (we_bc W) queue live cap" and "log_wf (st_log (ws_store (sv_writer sv)))"
    and "run (process_step U W capacity) (process_start sv m) ls0 p0"
    and "process_step U W capacity p0 (SubscribeCall call) p1" and "sub_arguments U call = Inr req"
    and "run (process_step U W capacity) p1 ls p" and "length (el_events (process_log p)) < 2 ^ 64"
    and "unat (from_of req) \<le> length (view_of req (process_log p0))"
    and "snd (pr_streams p ! length (pr_streams p0)) \<noteq> Ended"
    and "length (el_events (process_log p)) - length (el_events (process_log p0)) \<le> cap (br_tx (process_broker p))"
  defines "V \<equiv> view_of req (process_log p)" and "i \<equiv> length (pr_streams p0)"
  shows "\<exists>ls' p' n. run (process_step U W capacity) p ls' p' \<and> set ls' \<subseteq> range (Polled i) \<and>
    process_log p' = process_log p \<and> unat (from_of req) \<le> n \<and> n \<le> length V \<and>
    emitted i (ls @ ls') = map (map_item U)
      (messages (window V (unat (from_of req)) n) @ Inr CaughtUp # messages (window V n (length V)))"
  unfolding V_def i_def by (rule stream_completes [OF assms(1-10)])

subsection \<open>From an acknowledged append to every subscriber\<close>

text \<open>The broadcast channel keeps the capacity it was created with.\<close>

lemma publish_capacity:
  "broadcast_channel B queue live cap \<Longrightarrow> cap (br_tx (broker_publish B es b)) = cap (br_tx b)"
proof (induction es arbitrary: b)
  case (Cons e es)
  from Cons.IH [OF Cons.prems, of "b\<lparr>br_tx := snd (bc_send B (br_tx b) e)\<rparr>"]
    broadcast_channel.capacity_send [OF Cons.prems] show ?case by (simp add: broker_publish_def)
qed (simp add: broker_publish_def)

lemma step_capacity:
  assumes bc: "broadcast_channel (we_bc W) queue live cap" and step: "process_step U W capacity p l p'"
  shows "cap (br_tx (process_broker p')) = cap (br_tx (process_broker p))"
  using step
proof (cases rule: process_step.cases)
  case (task served y)
  from task(3) have "cap (br_tx (ws_broker (wy_state y))) = cap (br_tx (process_broker p))"
  proof (cases rule: writer_task.cases)
    case (serve req rest io)
    then show ?thesis
      by (cases rule: process_request_cases [of req W "of_nat (wy_millis (pr_writer p))" io "wy_state (pr_writer p)"])
        (simp_all add: send_response_def publish_capacity [OF bc])
  qed simp_all
  with task(2) show ?thesis by simp
next
  case (send req rest y)
  with client_sendD [OF send(4)] show ?thesis by simp
next
  case (poll i req s out s' b m)
  with poll_broker [OF poll(6)] broadcast_channel.capacity_subscribe [OF bc] show ?thesis
    by (auto simp: set_broker_def broker_subscribe_def case_prod_beta)
qed simp_all

lemma run_capacity:
  "run (process_step U W capacity) p ls p' \<Longrightarrow> broadcast_channel (we_bc W) queue live cap \<Longrightarrow>
     cap (br_tx (process_broker p')) = cap (br_tx (process_broker p))"
  by (induction rule: run.induct) (simp_all add: step_capacity)

text \<open>What an Append call is answered with is in the log.\<close>

lemma process_acks_step:
  assumes lru: "lru_cache (we_lru W) entries lcap" and step: "process_step U W capacity p l p'"
    and acks: "lru_cache.acks_logged entries (wy_state (pr_writer p))"
  shows "lru_cache.acks_logged entries (wy_state (pr_writer p'))"
  using step
proof (cases rule: process_step.cases)
  case (task served y)
  from task(3) have "lru_cache.acks_logged entries (wy_state y)"
  proof (cases rule: writer_task.cases)
    case (serve req rest io)
    with lru_cache.acks_request [OF lru refl acks] show ?thesis by simp
  qed (use acks in simp_all)
  with task(2) show ?thesis by simp
next
  case (send req rest y)
  with client_sendD [OF send(4)] acks show ?thesis by simp
qed (use acks in \<open>simp_all add: set_broker_def lru_cache.acks_logged_def [OF lru] log_events_def\<close>)

lemma process_acks_run:
  "run (process_step U W capacity) p ls p' \<Longrightarrow> lru_cache (we_lru W) entries lcap \<Longrightarrow>
     lru_cache.acks_logged entries (wy_state (pr_writer p)) \<Longrightarrow> lru_cache.acks_logged entries (wy_state (pr_writer p'))"
  by (induction rule: run.induct) (auto intro: process_acks_step)

lemma reply_logged:
  assumes lru: "lru_cache (we_lru W) entries lcap" and acks: "lru_cache.acks_logged entries (wy_state (pr_writer p))"
    and base: "base_inv p" and run: "run (process_step U W capacity) p ls p'"
    and small: "length (el_events (process_log p')) < 2 ^ 64"
    and reply: "AppendReply t (Some (Inr resp)) \<in> set ls"
  shows "unat (px_last_global_position resp) < length (el_events (process_log p'))"
proof -
  from reply obtain ls1 ls2 where "ls = ls1 @ AppendReply t (Some (Inr resp)) # ls2" by (auto dest: split_list)
  with run obtain q q' where q: "run (process_step U W capacity) p ls1 q"
    "process_step U W capacity q (AppendReply t (Some (Inr resp))) q'" "run (process_step U W capacity) q' ls2 p'"
    by (auto simp: run_append run_Cons_iff)
  from q(2) obtain recorded where r: "(t, Inr recorded) \<in> set (ws_responses (wy_state (pr_writer q)))"
    "append_response U (Inr recorded) = Some (Inr resp)" "process_log q' = process_log q"
    by (cases rule: process_step.cases) (auto simp: append_response_def split: sum.splits)
  have le: "length (el_events (process_log q)) \<le> length (el_events (process_log p'))"
    using prefix_length_le [OF run_grows [OF q(3)]] r(3) by simp
  have "log_wf (process_log q)" using base_inv_run [OF q(1) base] le small by (simp add: base_inv_def)
  moreover from r(2) have "px_last_global_position resp = re_global_position (last recorded)" "last recorded \<in> set recorded"
    by (auto simp: append_response_def Let_def split: if_splits)
  moreover have "set recorded \<subseteq> set (el_events (process_log q))"
    using set_mono_sublist [OF lru_cache.acks_answer [OF lru process_acks_run [OF q(1) lru acks] r(1)]] by (simp add: log_events_def)
  ultimately show ?thesis using log_wf_position(1) [of "process_log q" "last recorded"] le by auto
qed

lemma window_mem: "a \<le> q \<Longrightarrow> q < b \<Longrightarrow> b \<le> length xs \<Longrightarrow> xs ! q \<in> set (window xs a b)"
  unfolding window_def in_set_conv_nth by (intro exI [of _ "q - a"]) simp

lemma delivered_position:
  assumes "log_wf log" and "f \<le> q" and "q < length (el_events log)" and "n \<le> length (el_events log)"
  shows "\<exists>e. Inr (ContentEvent e) \<in> set (map (map_item U) (messages (window (el_events log) f n) @ Inr CaughtUp #
      messages (window (el_events log) n (length (el_events log))))) \<and> unat (pr_global_position e) = q"
proof -
  let ?e = "el_events log ! q"
  have "?e \<in> set (window (el_events log) f n) \<union> set (window (el_events log) n (length (el_events log)))"
    using assms(2-4) window_mem [of f q n "el_events log"] window_mem [of n q "length (el_events log)" "el_events log"]
    by (cases "q < n") auto
  then have "Inr (ContentEvent (recorded_to_proto U ?e)) \<in> set (map (map_item U) (messages (window (el_events log) f n)
      @ Inr CaughtUp # messages (window (el_events log) n (length (el_events log)))))"
    by (auto simp: messages_def map_item_def image_image)
  moreover have "unat (pr_global_position (recorded_to_proto U ?e)) = q"
    using assms(1,3) by (simp add: log_wf_def numbered_def recorded_to_proto_def unat_of_nat_less)
  ultimately show ?thesis by blast
qed

text \<open>
  C3: what the server acknowledged reaches its subscribers. Take a server that was started, a client that
  subscribed to the global log from an existing position and is still connected, and fewer new events
  since then than the configured broker capacity. If an Append call was answered with a success, before or
  after the subscription, then finitely many polls of the client's stream send it an event for every
  position from its start to the last one acknowledged.
\<close>

theorem acknowledged_append_delivered:
  assumes "lru_cache (we_lru W) entries lcap" and "broadcast_channel (we_bc W) queue live cap"
    and "server_main W J P m0 var io files lock = (files', lock', Started sv)" and "config_from_env P var = Inr cfg"
    and "log_wf (st_log (ws_store (sv_writer sv)))"
    and "run (process_step U W capacity) (process_start sv m) ls0 p0"
    and "process_step U W capacity p0 (SubscribeCall (CallAll from_position)) p1"
    and "run (process_step U W capacity) p1 ls p" and "length (el_events (process_log p)) < 2 ^ 64"
    and "unat from_position \<le> length (el_events (process_log p0))"
    and "snd (pr_streams p ! length (pr_streams p0)) \<noteq> Ended"
    and "length (el_events (process_log p)) - length (el_events (process_log p0)) \<le> cf_broker_capacity cfg"
    and "AppendReply t (Some (Inr resp)) \<in> set (ls0 @ ls)"
  shows "\<exists>ls' p'. run (process_step U W capacity) p ls' p' \<and> set ls' \<subseteq> range (Polled (length (pr_streams p0))) \<and>
    (\<forall>q. unat from_position \<le> q \<and> q \<le> unat (px_last_global_position resp) \<longrightarrow>
       (\<exists>e. Inr (ContentEvent e) \<in> set (emitted (length (pr_streams p0)) (ls @ ls')) \<and>
            unat (pr_global_position e) = q))"
proof -
  note lru = assms(1) and bc = assms(2)
  let ?step = "process_step U W capacity" and ?start = "process_start sv m"
  from server_main_Started [OF assms(3)] assms(4) obtain s where
    sv: "sv_writer sv = fst (spawn_writer W s (broker_new (we_bc W) (cf_broker_capacity cfg)) (cf_dedup_capacity cfg) m0)" by auto
  have all: "run ?step ?start (ls0 @ SubscribeCall (CallAll from_position) # ls) p"
    using assms(6-8) by (auto simp: run_append run_Cons_iff)
  have acks: "lru_cache.acks_logged entries (sv_writer sv)" using lru_cache.acks_spawn [OF lru refl] by (simp add: sv)
  have logged: "unat (px_last_global_position resp) < length (el_events (process_log p))"
    using reply_logged [OF lru _ base_inv_start [OF assms(5)] all assms(9)] acks assms(13) by auto
  have "cf_broker_capacity cfg \<le> cap (br_tx (ws_broker (sv_writer sv)))"
    using broadcast_channel.capacity_channel [OF bc] by (simp add: sv spawn_writer_def broker_new_def Let_def)
  then have lag: "length (el_events (process_log p)) - length (el_events (process_log p0)) \<le> cap (br_tx (process_broker p))"
    using run_capacity [OF all bc] assms(12) by simp
  have req: "sub_arguments U (CallAll from_position) = Inr (AllFrom from_position)" by (simp add: sub_arguments_def)
  have "unat (from_of (AllFrom from_position)) \<le> length (view_of (AllFrom from_position) (process_log p0))"
    using assms(10) by (simp add: from_of_def)
  from stream_completes [OF bc assms(5-7) req assms(8,9) this assms(11) lag] obtain ls' p' n where
    p': "run ?step p ls' p'" "set ls' \<subseteq> range (Polled (length (pr_streams p0)))" "n \<le> length (el_events (process_log p))"
      "emitted (length (pr_streams p0)) (ls @ ls') = map (map_item U)
        (messages (window (el_events (process_log p)) (unat from_position) n) @ Inr CaughtUp #
         messages (window (el_events (process_log p)) n (length (el_events (process_log p)))))"
    by (auto simp: from_of_def)
  have wf: "log_wf (process_log p)"
    using base_inv_run [OF all base_inv_start [OF assms(5)] assms(9)] by (simp add: base_inv_def)
  have "\<exists>e. Inr (ContentEvent e) \<in> set (emitted (length (pr_streams p0)) (ls @ ls')) \<and> unat (pr_global_position e) = q"
    if "unat from_position \<le> q" "q \<le> unat (px_last_global_position resp)" for q
    unfolding p'(4) by (rule delivered_position [OF wf that(1) _ p'(3)]) (use that logged in simp)
  with p'(1,2) show ?thesis by blast
qed

subsection \<open>A concrete subscriber\<close>

text \<open>A client subscribes to an empty log, another one appends two events.\<close>

lemma demo_served_simps:
  "el_events (st_log (ws_store demo_served)) = appended demo_store 1 9 [demo_proposed 4, demo_proposed 5]"
  "bl_cap (br_tx (ws_broker demo_served)) = 16"
proof -
  obtain s where s: "store_append (we_crc demo_env) (wi_append writer_io_ok) (ws_store demo_writer) (ar_stream_id demo_request)
     (ar_expected_version demo_request) 9 (ar_events demo_request)
      = (s, Inr (appended demo_store 1 9 [demo_proposed 4, demo_proposed 5]))"
    using demo_store_append by auto
  obtain d where "dedup_check (we_lru demo_env) (ws_dedup demo_writer) (ar_events demo_request) = (None, d)"
    using demo_check by (metis demo_env_simps(2) prod.collapse)
  note served = process_fresh [OF demo_request_distinct this s, folded demo_served_def]
  have "ws_store demo_writer = demo_store" by (simp add: demo_writer_def spawn_writer_def Let_def)
  with s have "el_events (st_log s) = appended demo_store 1 9 [demo_proposed 4, demo_proposed 5]"
    by (auto simp: store_append_Inr_iff update_index_def) (simp add: demo_store_def empty_log_def)
  then show "el_events (st_log (ws_store demo_served)) = appended demo_store 1 9 [demo_proposed 4, demo_proposed 5]"
    unfolding served by (simp add: send_response_def)
  have "bl_cap (br_tx (ws_broker demo_writer)) = 16"
    by (simp add: demo_writer_def spawn_writer_def broker_new_def bc_list_ops_def Let_def)
  with publish_capacity [OF bl.broadcast_channel_axioms] show "bl_cap (br_tx (ws_broker demo_served)) = 16"
    unfolding served by (simp add: send_response_def)
qed

lemma demo_writer_log: "st_log (ws_store demo_writer) = empty_log"
  by (simp add: demo_writer_def spawn_writer_def demo_store_def Let_def)

lemma demo_subscriber:
  assumes sv: "sv_writer sv = demo_writer"
  shows "\<exists>p1 ls p resp. demo_step (process_start sv demo_gauge) (SubscribeCall (CallAll 0)) p1 \<and> run demo_step p1 ls p \<and>
    wy_state (pr_writer p) = demo_served \<and> pr_streams p ! 0 = (AllFrom 0, NotStarted) \<and>
    AppendReply 7 (Some (Inr resp)) \<in> set ls \<and> px_last_global_position resp = 1"
proof -
  let ?a = "process_start sv demo_gauge :: demo_process"
  let ?b = "?a\<lparr>pr_streams := pr_streams ?a @ [(AllFrom 0, NotStarted)]\<rparr>"
  have s: "demo_step ?a (SubscribeCall (CallAll 0)) ?b"
    by (rule process_step.subscribe) (simp_all add: process_start_def sub_arguments_def)
  have "demo_idle ?b" by (simp add: demo_idle_def process_start_def sv)
  from demo_append_run [OF this] obtain p resp where "run demo_step ?b [AppendCall 7 demo_proto_request, Silent, Silent,
      Silent, Silent, AppendReply 7 (Some (Inr resp))] p" "px_last_global_position resp = 1"
      "pr_streams p = pr_streams ?b" "wy_state (pr_writer p) = demo_served" by blast
  with s show ?thesis
    by (intro exI [of _ ?b] exI [of _ "[AppendCall 7 demo_proto_request, Silent, Silent, Silent, Silent,
        AppendReply 7 (Some (Inr resp))]"] exI [of _ p] exI [of _ resp]) (simp add: process_start_def)
qed

lemmas demo_bc = bl.broadcast_channel_axioms [folded demo_env_simps(3)]

lemma demo_subscriber_complete:
  assumes sv: "sv_writer sv = demo_writer"
    and p: "demo_step (process_start sv demo_gauge) (SubscribeCall (CallAll 0)) p1" "run demo_step p1 ls p"
      "wy_state (pr_writer p) = demo_served" "pr_streams p ! 0 = (AllFrom 0, NotStarted)"
  shows "\<exists>ls' p' n. run demo_step p1 (ls @ ls') p' \<and> process_log p' = process_log p \<and>
    emitted 0 (ls @ ls') = map (map_item demo_uuid_ops) (messages (window (el_events (process_log p)) 0 n) @
      Inr CaughtUp # messages (window (el_events (process_log p)) n 2))"
proof -
  let ?a = "process_start sv demo_gauge :: demo_process"
  have "\<exists>ls' p' n. run demo_step p ls' p' \<and> set ls' \<subseteq> range (Polled (length (pr_streams ?a))) \<and>
      process_log p' = process_log p \<and> unat (from_of (AllFrom 0)) \<le> n \<and> n \<le> length (view_of (AllFrom 0) (process_log p)) \<and>
      emitted (length (pr_streams ?a)) (ls @ ls') = map (map_item demo_uuid_ops)
        (messages (window (view_of (AllFrom 0) (process_log p)) (unat (from_of (AllFrom 0))) n) @ Inr CaughtUp #
         messages (window (view_of (AllFrom 0) (process_log p)) n (length (view_of (AllFrom 0) (process_log p)))))"
    by (rule stream_completes [OF demo_bc _ run_Nil p(1) _ p(2)])
      (use p(4) in \<open>simp_all add: sv demo_writer_log sub_arguments_def p(3) demo_served_simps from_of_def process_start_def\<close>)
  then obtain ls' p' n where "run demo_step p ls' p'" "process_log p' = process_log p"
    "emitted 0 (ls @ ls') = map (map_item demo_uuid_ops) (messages (window (el_events (process_log p)) 0 n) @
       Inr CaughtUp # messages (window (el_events (process_log p)) n 2))"
    by (auto simp: process_start_def from_of_def p(3) demo_served_simps numeral_2_eq_2)
  with p(2) show ?thesis unfolding run_append by blast
qed

theorem wire_delivery_witness:
  "\<exists>(sv :: (string, string, lru_list, bc_list) server) p1 ls p xs.
     demo_step (process_start sv demo_gauge) (SubscribeCall (CallAll 0)) p1 \<and> run demo_step p1 ls p \<and>
     length (el_events (process_log p)) = 2 \<and> emitted 0 ls = map (map_item demo_uuid_ops) xs \<and>
     well_delivered (el_events (process_log p)) 0 0 xs"
proof -
  obtain sv :: "(string, string, lru_list, bc_list) server" where sv: "sv_writer sv = demo_writer"
    using demo_server by blast
  from demo_subscriber [OF sv] obtain p1 ls p where p: "demo_step (process_start sv demo_gauge) (SubscribeCall (CallAll 0)) p1"
    "run demo_step p1 ls p" "wy_state (pr_writer p) = demo_served" by blast
  have "\<exists>xs. emitted (length (pr_streams (process_start sv demo_gauge :: demo_process))) ls = map (map_item demo_uuid_ops) xs \<and>
      well_delivered (view_of (AllFrom 0) (process_log p)) (unat (from_of (AllFrom 0)))
        (length (view_of (AllFrom 0) (process_log (process_start sv demo_gauge :: demo_process)))) xs"
    by (rule wire_delivery [OF demo_bc _ run_Nil p(1) _ p(2)])
      (simp_all add: sv demo_writer_log sub_arguments_def p(3) demo_served_simps from_of_def)
  then obtain xs where "emitted 0 ls = map (map_item demo_uuid_ops) xs" "well_delivered (el_events (process_log p)) 0 0 xs"
    by (auto simp: process_start_def from_of_def writer_system_start_def sv demo_writer_log empty_log_def)
  with p show ?thesis by (intro exI [of _ sv] exI [of _ p1] exI [of _ ls] exI [of _ p] exI [of _ xs]) (simp add: demo_served_simps)
qed

theorem wire_delivery_complete_witness:
  "\<exists>(sv :: (string, string, lru_list, bc_list) server) p1 ls p ls' p' n.
     demo_step (process_start sv demo_gauge) (SubscribeCall (CallAll 0)) p1 \<and> run demo_step p1 ls p \<and>
     length (el_events (process_log p)) = 2 \<and> run demo_step p ls' p' \<and> n \<le> 2 \<and>
     emitted 0 (ls @ ls') = map (map_item demo_uuid_ops) (messages (window (el_events (process_log p)) 0 n) @
       Inr CaughtUp # messages (window (el_events (process_log p)) n 2))"
proof -
  obtain sv :: "(string, string, lru_list, bc_list) server" where sv: "sv_writer sv = demo_writer"
    using demo_server by blast
  let ?a = "process_start sv demo_gauge :: demo_process"
  from demo_subscriber [OF sv] obtain p1 ls p where p: "demo_step ?a (SubscribeCall (CallAll 0)) p1"
    "run demo_step p1 ls p" "wy_state (pr_writer p) = demo_served" "pr_streams p ! 0 = (AllFrom 0, NotStarted)" by blast
  have "\<exists>ls' p' n. run demo_step p ls' p' \<and> set ls' \<subseteq> range (Polled (length (pr_streams ?a))) \<and>
      process_log p' = process_log p \<and> unat (from_of (AllFrom 0)) \<le> n \<and> n \<le> length (view_of (AllFrom 0) (process_log p)) \<and>
      emitted (length (pr_streams ?a)) (ls @ ls') = map (map_item demo_uuid_ops)
        (messages (window (view_of (AllFrom 0) (process_log p)) (unat (from_of (AllFrom 0))) n) @ Inr CaughtUp #
         messages (window (view_of (AllFrom 0) (process_log p)) n (length (view_of (AllFrom 0) (process_log p)))))"
    by (rule wire_delivery_complete [OF demo_bc _ run_Nil p(1) _ p(2)])
      (use p(4) in \<open>simp_all add: sv demo_writer_log sub_arguments_def p(3) demo_served_simps from_of_def process_start_def\<close>)
  then obtain ls' p' n where "run demo_step p ls' p'" "n \<le> 2"
    "emitted 0 (ls @ ls') = map (map_item demo_uuid_ops) (messages (window (el_events (process_log p)) 0 n) @
       Inr CaughtUp # messages (window (el_events (process_log p)) n 2))"
    by (auto simp: process_start_def from_of_def p(3) demo_served_simps numeral_2_eq_2)
  with p(1-3) show ?thesis
    by (intro exI [of _ sv] exI [of _ p1] exI [of _ ls] exI [of _ p] exI [of _ ls'] exI [of _ p'] exI [of _ n])
      (simp add: demo_served_simps)
qed

theorem acknowledged_append_delivered_witness:
  "\<exists>(sv :: (string, string, lru_list, bc_list) server) p1 ls p resp ls' p' e.
     demo_step (process_start sv demo_gauge) (SubscribeCall (CallAll 0)) p1 \<and> run demo_step p1 ls p \<and>
     AppendReply 7 (Some (Inr resp)) \<in> set ls \<and> px_last_global_position resp = 1 \<and> run demo_step p ls' p' \<and>
     Inr (ContentEvent e) \<in> set (emitted 0 (ls @ ls')) \<and> unat (pr_global_position e) = 1"
proof -
  obtain files lock sv where sv: "server_main demo_env ideal_jwt demo_parse_addr demo_metrics (demo_vars ''16'')
      demo_startup_io (\<lambda>_. None) None = (files, lock, Started sv)" "sv_writer sv = demo_writer"
    using demo_server_starts by blast
  have "parse_usize ''16'' = Inr 16" by (simp add: parse_usize_def)
  note cfg = demo_config [OF this]
  let ?a = "process_start sv demo_gauge :: demo_process"
  from demo_subscriber [OF sv(2)] obtain p1 ls p resp where p: "demo_step ?a (SubscribeCall (CallAll 0)) p1"
    "run demo_step p1 ls p" "wy_state (pr_writer p) = demo_served" "pr_streams p ! 0 = (AllFrom 0, NotStarted)"
    "AppendReply 7 (Some (Inr resp)) \<in> set ls" "px_last_global_position resp = 1" by blast
  have lru: "lru_cache (we_lru demo_env) ll_entries ll_cap" using ll.lru_cache_axioms by simp
  have wf: "log_wf (st_log (ws_store (sv_writer sv)))" by (simp add: sv(2) demo_writer_log)
  from acknowledged_append_delivered [OF lru demo_bc sv(1) cfg wf run_Nil p(1,2), of 7 resp] p(3-6)
  obtain ls' p' where "run demo_step p ls' p'" and
    each: "\<forall>q. unat (0 :: u64) \<le> q \<and> q \<le> unat (px_last_global_position resp) \<longrightarrow>
       (\<exists>e. Inr (ContentEvent e) \<in> set (emitted 0 (ls @ ls')) \<and> unat (pr_global_position e) = q)"
    by (auto simp: sv(2) demo_writer_log demo_served_simps process_start_def writer_system_start_def empty_log_def)
  moreover from spec [OF each, of 1] p(6) obtain e where
    "Inr (ContentEvent e) \<in> set (emitted 0 (ls @ ls'))" "unat (pr_global_position e) = 1" by auto
  ultimately show ?thesis using p(1,2,5,6) by blast
qed

end
