(* ===== verification/Console_App.thy ===== *)
theory Console_App
  imports Rust_Std
begin

text \<open>
  The state of the terminal console (\<open>eventfold-console/src/app.rs\<close>): tabs, the data each tab shows,
  cursors and loading flags, the actions on them and the key bindings. A \<open>VecDeque\<close> is a list with
  its front first. The keys are those of the crossterm crate that the code matches on; every other
  key code is \<open>OtherKey\<close>.
\<close>

subsection \<open>Tabs\<close>

datatype tab = Streams | StreamDetail | GlobalLog | LiveTail

definition TAB_ORDER :: "tab list" where
  "TAB_ORDER = [Streams, StreamDetail, GlobalLog, LiveTail]"

text \<open>\<open>iter().position\<close>: the first index of an element.\<close>

fun position :: "('a \<Rightarrow> bool) \<Rightarrow> 'a list \<Rightarrow> nat option" where
  "position P [] = None"
| "position P (x # xs) = (if P x then Some 0 else map_option Suc (position P xs))"

text \<open>\<open>None\<close> is the panic of \<open>expect\<close> or of the array access.\<close>

definition tab_next :: "tab \<Rightarrow> tab option" where
  "tab_next t = (case position (\<lambda>x. x = t) TAB_ORDER of
     None \<Rightarrow> None
   | Some idx \<Rightarrow> index TAB_ORDER ((idx + 1) mod length TAB_ORDER))"

definition tab_prev :: "tab \<Rightarrow> tab option" where
  "tab_prev t = (case position (\<lambda>x. x = t) TAB_ORDER of
     None \<Rightarrow> None
   | Some idx \<Rightarrow> index TAB_ORDER ((idx + length TAB_ORDER - 1) mod length TAB_ORDER))"

fun label :: "tab \<Rightarrow> string" where
  "label Streams = ''Streams''"
| "label StreamDetail = ''Stream Events''"
| "label GlobalLog = ''Global Log''"
| "label LiveTail = ''Live Tail''"

subsection \<open>State\<close>

definition LIVE_TAIL_CAPACITY :: nat where "LIVE_TAIL_CAPACITY = 10000"

record console_stream =
  cs_stream_id :: string
  cs_event_count :: u64
  cs_latest_version :: u64

record event_record =
  ev_event_id :: string
  ev_stream_id :: string
  ev_stream_version :: u64
  ev_global_position :: u64
  ev_recorded_at :: u64
  ev_event_type :: rstring
  ev_metadata :: bytes
  ev_payload :: bytes

datatype action =
    Quit | SwitchTab tab | CursorUp | CursorDown | Select | Refresh | ToggleFormat | TogglePause

record app_state =
  active_tab :: tab
  should_quit :: bool
  server_addr :: string
  format_json :: bool
  streams :: "console_stream list"
  streams_cursor :: nat
  streams_loading :: bool
  detail_stream_id :: "string option"
  detail_events :: "event_record list"
  detail_cursor :: nat
  detail_loading :: bool
  global_events :: "event_record list"
  global_cursor :: nat
  global_loading :: bool
  live_events :: "event_record list"
  live_caught_up :: bool
  live_paused :: bool
  live_cursor :: nat

definition app_new :: "string \<Rightarrow> app_state" where
  "app_new addr =
     \<lparr>active_tab = Streams, should_quit = False, server_addr = addr, format_json = True,
      streams = [], streams_cursor = 0, streams_loading = False,
      detail_stream_id = None, detail_events = [], detail_cursor = 0, detail_loading = False,
      global_events = [], global_cursor = 0, global_loading = False,
      live_events = [], live_caught_up = False, live_paused = False, live_cursor = 0\<rparr>"

definition push_live_event :: "event_record \<Rightarrow> app_state \<Rightarrow> app_state" where
  "push_live_event e st =
     (let kept = (if length (live_events st) \<ge> LIVE_TAIL_CAPACITY then tl (live_events st)
                  else live_events st)
      in st\<lparr>live_events := kept @ [e]\<rparr>)"

definition current_list_len :: "app_state \<Rightarrow> nat" where
  "current_list_len st =
     (case active_tab st of
        Streams \<Rightarrow> length (streams st)
      | StreamDetail \<Rightarrow> length (detail_events st)
      | GlobalLog \<Rightarrow> length (global_events st)
      | LiveTail \<Rightarrow> length (live_events st))"

text \<open>The mutable reference \<open>current_cursor_mut\<close> is an update of the current tab's cursor.\<close>

definition current_cursor_mut :: "(nat \<Rightarrow> nat) \<Rightarrow> app_state \<Rightarrow> app_state" where
  "current_cursor_mut f st =
     (case active_tab st of
        Streams \<Rightarrow> st\<lparr>streams_cursor := f (streams_cursor st)\<rparr>
      | StreamDetail \<Rightarrow> st\<lparr>detail_cursor := f (detail_cursor st)\<rparr>
      | GlobalLog \<Rightarrow> st\<lparr>global_cursor := f (global_cursor st)\<rparr>
      | LiveTail \<Rightarrow> st\<lparr>live_cursor := f (live_cursor st)\<rparr>)"

definition apply_action :: "action \<Rightarrow> app_state \<Rightarrow> app_state" where
  "apply_action action st =
     (case action of
        Quit \<Rightarrow> st\<lparr>should_quit := True\<rparr>
      | SwitchTab tab \<Rightarrow>
          (let st = st\<lparr>active_tab := tab\<rparr> in
           if tab = Streams \<and> streams st = [] \<and> \<not> streams_loading st
           then st\<lparr>streams_loading := True\<rparr>
           else if tab = GlobalLog \<and> global_events st = [] \<and> \<not> global_loading st
           then st\<lparr>global_loading := True\<rparr>
           else st)
      | CursorUp \<Rightarrow> current_cursor_mut (\<lambda>c. c - 1) st
      | CursorDown \<Rightarrow>
          (let len = current_list_len st in
           if len > 0 then current_cursor_mut (\<lambda>c. min (c + 1) (len - 1)) st else st)
      | Select \<Rightarrow>
          (if active_tab st = Streams
           then (case index (streams st) (streams_cursor st) of
                   None \<Rightarrow> st
                 | Some s \<Rightarrow> st\<lparr>detail_stream_id := Some (cs_stream_id s), detail_events := [],
                               detail_cursor := 0, detail_loading := True,
                               active_tab := StreamDetail\<rparr>)
           else st)
      | Refresh \<Rightarrow>
          (case active_tab st of
             Streams \<Rightarrow> st\<lparr>streams_loading := True\<rparr>
           | StreamDetail \<Rightarrow> st\<lparr>detail_loading := True\<rparr>
           | GlobalLog \<Rightarrow> st\<lparr>global_loading := True\<rparr>
           | LiveTail \<Rightarrow> st)
      | ToggleFormat \<Rightarrow> st\<lparr>format_json := \<not> format_json st\<rparr>
      | TogglePause \<Rightarrow>
          (if active_tab st = LiveTail then st\<lparr>live_paused := \<not> live_paused st\<rparr> else st))"

subsection \<open>Key bindings\<close>

datatype key_code =
    Char char | Esc | TabKey | BackTab | Down | Up | Enter | OtherKey

record key_event =
  ke_code :: key_code
  ke_control :: bool

text \<open>The outer \<open>None\<close> is a panic in the tab cycle, the inner one is a key without an action.\<close>

definition handle_key_event :: "key_event \<Rightarrow> tab \<Rightarrow> action option option" where
  "handle_key_event key current_tab =
     (case ke_code key of
        Esc \<Rightarrow> Some (Some Quit)
      | TabKey \<Rightarrow> map_option (Some \<circ> SwitchTab) (tab_next current_tab)
      | BackTab \<Rightarrow> map_option (Some \<circ> SwitchTab) (tab_prev current_tab)
      | Down \<Rightarrow> Some (Some CursorDown)
      | Up \<Rightarrow> Some (Some CursorUp)
      | Enter \<Rightarrow> Some (Some Select)
      | OtherKey \<Rightarrow> Some None
      | Char c \<Rightarrow>
          Some (if c = CHR ''q'' then Some Quit
                else if c = CHR ''1'' then Some (SwitchTab Streams)
                else if c = CHR ''2'' then Some (SwitchTab StreamDetail)
                else if c = CHR ''3'' then Some (SwitchTab GlobalLog)
                else if c = CHR ''4'' then Some (SwitchTab LiveTail)
                else if c = CHR ''j'' then Some CursorDown
                else if c = CHR ''k'' then Some CursorUp
                else if c = CHR ''r'' then Some Refresh
                else if c = CHR ''f'' then Some ToggleFormat
                else if c = CHR ''p'' then Some TogglePause
                else if c = CHR ''c'' \<and> ke_control key then Some Quit
                else None))"

subsection \<open>Lemmas\<close>

lemma tab_next_simps [simp]:
  "tab_next Streams = Some StreamDetail" "tab_next StreamDetail = Some GlobalLog"
  "tab_next GlobalLog = Some LiveTail" "tab_next LiveTail = Some Streams"
  by (simp_all add: tab_next_def TAB_ORDER_def index_def)

lemma tab_prev_simps [simp]:
  "tab_prev Streams = Some LiveTail" "tab_prev StreamDetail = Some Streams"
  "tab_prev GlobalLog = Some StreamDetail" "tab_prev LiveTail = Some GlobalLog"
  by (simp_all add: tab_prev_def TAB_ORDER_def index_def)

lemma tab_cycle: "Option.bind (tab_next t) tab_prev = Some t" "Option.bind (tab_prev t) tab_next = Some t"
  by (cases t; simp)+

lemma key_never_panics: "handle_key_event key t \<noteq> None"
  by (cases t; cases "ke_code key") (auto simp: handle_key_event_def)

text \<open>The live buffer always holds the newest events: pushing appends and drops at the front.\<close>

definition newest :: "nat \<Rightarrow> 'a list \<Rightarrow> 'a list" where
  "newest n xs = drop (length xs - n) xs"

lemma length_newest [simp]: "length (newest n xs) = min n (length xs)"
  by (simp add: newest_def)

lemma newest_id: "length xs \<le> n \<Longrightarrow> newest n xs = xs"
  by (simp add: newest_def)

lemma newest_snoc: "0 < n \<Longrightarrow>
    newest n (xs @ [x]) = (if n \<le> length (newest n xs) then tl (newest n xs) else newest n xs) @ [x]"
  by (cases "n \<le> length xs") (auto simp: newest_def tl_drop drop_Suc Suc_diff_le)

lemma live_events_push:
  assumes "live_events st = newest LIVE_TAIL_CAPACITY xs"
  shows "live_events (push_live_event e st) = newest LIVE_TAIL_CAPACITY (xs @ [e])"
  using assms by (simp add: push_live_event_def newest_snoc LIVE_TAIL_CAPACITY_def)

text \<open>
  The invariant of the four lists and cursors: the live buffer is bounded, and the live cursor is in
  range as soon as there is anything to point at (the other cursors are read with a checked \<open>get\<close>).
\<close>

definition app_inv :: "app_state \<Rightarrow> bool" where
  "app_inv st \<longleftrightarrow> length (live_events st) \<le> LIVE_TAIL_CAPACITY \<and>
     (live_cursor st = 0 \<or> live_cursor st < length (live_events st))"

lemma app_inv_new: "app_inv (app_new addr)"
  by (simp add: app_inv_def app_new_def)

lemma app_inv_push [inv_intros]: "app_inv st \<Longrightarrow> app_inv (push_live_event e st)"
  by (auto simp: app_inv_def push_live_event_def Let_def LIVE_TAIL_CAPACITY_def)

lemma app_inv_action [inv_intros]: "app_inv st \<Longrightarrow> app_inv (apply_action a st)"
  by (cases a; cases "active_tab st")
    (auto simp: app_inv_def apply_action_def current_cursor_mut_def current_list_len_def Let_def
      split: option.splits)

lemma apply_action_live [simp]: "live_events (apply_action a st) = live_events st"
  by (cases a; cases "active_tab st")
    (auto simp: apply_action_def current_cursor_mut_def Let_def split: option.splits)

end
