(* ===== verification/Console_Client.thy ===== *)
theory Console_Client
  imports Service Console_App
begin

text \<open>
  The console's gRPC client (\<open>eventfold-console/src/client.rs\<close>, \<open>error.rs\<close>): connecting, the unary
  calls with their conversions, and the task that relays a subscription into a channel. The
  generated tonic client is the record \<open>rpc_ops\<close> of the calls' results; the tokio channel is the
  record \<open>mpsc_ops\<close>, whose contract is the locale \<open>mpsc_channel\<close>. The locale \<open>event_store_rpc\<close> is
  what the console relies on from the server; the service model provides it.
\<close>

datatype console_error = Grpc status | ConsoleIo io_error | ConnectionFailed string

text \<open>\<open>Display\<close>; the text of a tonic status is the library's.\<close>

fun console_error_display :: "(status \<Rightarrow> string) \<Rightarrow> console_error \<Rightarrow> string" where
  "console_error_display D (Grpc s) = ''gRPC error: '' @ D s"
| "console_error_display D (ConsoleIo e) = ''I/O error: '' @ e"
| "console_error_display D (ConnectionFailed m) = ''connection failed: '' @ m"

subsection \<open>Connecting\<close>

record tls_options =
  to_enabled :: bool
  to_ca_pem :: "bytes option"
  to_identity :: "(bytes \<times> bytes) option"

definition tls_options_default :: tls_options where
  "tls_options_default = \<lparr>to_enabled = False, to_ca_pem = None, to_identity = None\<rparr>"

record client_tls_config =
  ct_ca_certificate :: "bytes option"
  ct_identity :: "(bytes \<times> bytes) option"

record ('ep, 'chan) transport_ops =
  tp_from_shared :: "string \<Rightarrow> string + 'ep"
  tp_tls_config :: "'ep \<Rightarrow> client_tls_config \<Rightarrow> string + 'ep"
  tp_connect :: "'ep \<Rightarrow> string + 'chan"

definition map_err :: "('e \<Rightarrow> 'f) \<Rightarrow> 'e + 'a \<Rightarrow> 'f + 'a" where
  "map_err f r = (case r of Inl e \<Rightarrow> Inl (f e) | Inr a \<Rightarrow> Inr a)"

definition client_connect ::
  "('ep, 'chan) transport_ops \<Rightarrow> string \<Rightarrow> tls_options \<Rightarrow> console_error + 'chan" where
  "client_connect T addr tls =
     (if to_enabled tls then
        (let cfg0 = \<lparr>ct_ca_certificate = None, ct_identity = None\<rparr>;
             cfg1 = (case to_ca_pem tls of
                       Some ca_pem \<Rightarrow> cfg0\<lparr>ct_ca_certificate := Some ca_pem\<rparr> | None \<Rightarrow> cfg0);
             cfg2 = (case to_identity tls of
                       Some pair \<Rightarrow> cfg1\<lparr>ct_identity := Some pair\<rparr> | None \<Rightarrow> cfg1)
         in and_then (map_err ConnectionFailed (tp_from_shared T addr)) (\<lambda>ep.
            and_then (map_err ConnectionFailed (tp_tls_config T ep cfg2)) (\<lambda>ep'.
            map_err ConnectionFailed (tp_connect T ep'))))
      else
        and_then (map_err ConnectionFailed (tp_from_shared T addr)) (\<lambda>ep.
        map_err ConnectionFailed (tp_connect T ep)))"

subsection \<open>Unary calls\<close>

record rpc_ops =
  rpc_list_streams :: "status + proto_stream_info list"
  rpc_read_stream :: "string \<Rightarrow> u64 \<Rightarrow> u64 \<Rightarrow> status + proto_recorded_event list"
  rpc_read_all :: "u64 \<Rightarrow> u64 \<Rightarrow> status + proto_recorded_event list"

definition proto_to_event_record :: "proto_recorded_event \<Rightarrow> event_record" where
  "proto_to_event_record p =
     \<lparr>ev_event_id = pr_event_id p, ev_stream_id = pr_stream_id p,
      ev_stream_version = pr_stream_version p, ev_global_position = pr_global_position p,
      ev_recorded_at = pr_recorded_at p, ev_event_type = pr_event_type p,
      ev_metadata = pr_metadata p, ev_payload = pr_payload p\<rparr>"

definition client_read_all :: "rpc_ops \<Rightarrow> u64 \<Rightarrow> u64 \<Rightarrow> console_error + event_record list" where
  "client_read_all R from_position max_count =
     and_then (map_err Grpc (rpc_read_all R from_position max_count))
       (\<lambda>events. Inr (map proto_to_event_record events))"

definition client_read_stream ::
  "rpc_ops \<Rightarrow> string \<Rightarrow> u64 \<Rightarrow> u64 \<Rightarrow> console_error + event_record list" where
  "client_read_stream R stream_id from_version max_count =
     and_then (map_err Grpc (rpc_read_stream R stream_id from_version max_count))
       (\<lambda>events. Inr (map proto_to_event_record events))"

definition client_list_streams :: "rpc_ops \<Rightarrow> console_error + console_stream list" where
  "client_list_streams R =
     and_then (map_err Grpc (rpc_list_streams R)) (\<lambda>streams.
       Inr (map (\<lambda>s. \<lparr>cs_stream_id = ps_stream_id s, cs_event_count = ps_event_count s,
                      cs_latest_version = ps_latest_version s\<rparr>) streams))"

subsection \<open>The subscription task\<close>

datatype subscription_msg = SubEvent event_record | SubCaughtUp | SubError string

text \<open>
  \<open>tx_send\<close> is \<open>None\<close> when the receiver is gone; \<open>tx_blocking_send\<close> is \<open>None\<close> when the call panics;
  \<open>rx_drain\<close> calls \<open>try_recv\<close> until there is no message left.
\<close>

record 'tx mpsc_ops =
  ch_new :: "nat \<Rightarrow> 'tx"
  rx_drain :: "'tx \<Rightarrow> subscription_msg list \<times> 'tx"
  tx_send :: "'tx \<Rightarrow> subscription_msg \<Rightarrow> 'tx option"
  tx_blocking_send :: "'tx \<Rightarrow> subscription_msg \<Rightarrow> 'tx option"

text \<open>What \<open>stream.message().await\<close> yields: an error, the end, or a response with its content.\<close>

type_synonym stream_message = "status + sub_content option option"

definition client_subscribe_all ::
  "(u64 \<Rightarrow> status + stream_message list) \<Rightarrow> u64 \<Rightarrow> console_error + stream_message list" where
  "client_subscribe_all rpc_subscribe_all from_position = map_err Grpc (rpc_subscribe_all from_position)"

text \<open>How the task stands after a list of messages: still waiting, returned, or panicked.\<close>

datatype 'tx task =
    TaskWaiting (task_tx: 'tx) | TaskReturned (task_tx: 'tx) | task_panicked: TaskPanicked (task_tx: 'tx)

fun subscription_loop ::
  "'tx mpsc_ops \<Rightarrow> (status \<Rightarrow> string) \<Rightarrow> 'tx \<Rightarrow> stream_message list \<Rightarrow> 'tx task" where
  "subscription_loop M D tx [] = TaskWaiting tx"
| "subscription_loop M D tx (r # rs) =
     (case r of
        Inl e \<Rightarrow>
          (case tx_blocking_send M tx (SubError (D e)) of
             None \<Rightarrow> TaskPanicked tx
           | Some tx' \<Rightarrow> TaskReturned tx')
      | Inr None \<Rightarrow> TaskReturned tx
      | Inr (Some (Some (ContentEvent p))) \<Rightarrow>
          (case tx_send M tx (SubEvent (proto_to_event_record p)) of
             None \<Rightarrow> TaskReturned tx
           | Some tx' \<Rightarrow> subscription_loop M D tx' rs)
      | Inr (Some (Some ContentCaughtUp)) \<Rightarrow>
          (case tx_send M tx SubCaughtUp of
             None \<Rightarrow> TaskReturned tx
           | Some tx' \<Rightarrow> subscription_loop M D tx' rs)
      | Inr (Some None) \<Rightarrow> subscription_loop M D tx rs)"

definition spawn_subscription ::
  "'tx mpsc_ops \<Rightarrow> (status \<Rightarrow> string) \<Rightarrow> (u64 \<Rightarrow> status + stream_message list) \<Rightarrow> u64 \<Rightarrow> 'tx
     \<Rightarrow> 'tx task" where
  "spawn_subscription M D rpc_subscribe_all from_position tx =
     (case client_subscribe_all rpc_subscribe_all from_position of
        Inl e \<Rightarrow>
          (case tx_send M tx (SubError (console_error_display D e)) of
             None \<Rightarrow> TaskReturned tx | Some tx' \<Rightarrow> TaskReturned tx')
      | Inr stream \<Rightarrow> subscription_loop M D tx stream)"

subsection \<open>What the console relies on from the server\<close>

text \<open>The server's handlers as the client's calls; \<open>crash\<close> is what a client sees of a panic.\<close>

definition server_rpcs :: "uuid_ops \<Rightarrow> status \<Rightarrow> service_metrics \<Rightarrow> read_index \<Rightarrow> rpc_ops" where
  "server_rpcs U crash m r =
     (let orelse = (\<lambda>x. case x of None \<Rightarrow> Inl crash | Some y \<Rightarrow> y) in
      \<lparr>rpc_list_streams = Inr (service_list_streams U r),
       rpc_read_stream = (\<lambda>sid v n. orelse (fst (service_read_stream U r sid v n m))),
       rpc_read_all = (\<lambda>p n. orelse (map_option Inr (fst (service_read_all U r p n m))))\<rparr>)"

locale event_store_rpc =
  fixes rpcs :: "'i \<Rightarrow> rpc_ops"
    and contents :: "'i \<Rightarrow> recorded_event list"
    and usable :: "'i \<Rightarrow> bool"
    and U :: uuid_ops
  assumes rpc_read_all: "usable i \<Longrightarrow> rpc_read_all (rpcs i) p n =
      Inr (map (recorded_to_proto U) (take (unat n) (drop (unat p) (contents i))))"
    and rpc_read_stream: "usable i \<Longrightarrow> uu_parse U s = Inr sid \<Longrightarrow>
      stream_events (contents i) sid \<noteq> [] \<Longrightarrow> rpc_read_stream (rpcs i) s v n =
      Inr (map (recorded_to_proto U) (take (unat n) (drop (unat v) (stream_events (contents i) sid))))"
begin

lemma client_read_all_page: "usable i \<Longrightarrow> client_read_all (rpcs i) p n =
    Inr (map (proto_to_event_record \<circ> recorded_to_proto U) (take (unat n) (drop (unat p) (contents i))))"
  by (simp add: client_read_all_def map_err_def rpc_read_all)

lemma client_read_stream_page: "usable i \<Longrightarrow> uu_parse U s = Inr sid \<Longrightarrow>
    stream_events (contents i) sid \<noteq> [] \<Longrightarrow> client_read_stream (rpcs i) s v n =
    Inr (map (proto_to_event_record \<circ> recorded_to_proto U)
           (take (unat n) (drop (unat v) (stream_events (contents i) sid))))"
  by (simp add: client_read_stream_def map_err_def rpc_read_stream)

end

interpretation srv: event_store_rpc "server_rpcs U crash m" "\<lambda>r. el_events (ri_log r)"
  "\<lambda>r. log_wf (ri_log r)" U
  by unfold_locales
    (simp_all add: server_rpcs_def service_read_all_def service_read_stream_def parse_uuid_def
      ri_reader.read_all ri_reader.read_stream Let_def)

subsection \<open>The channel\<close>

text \<open>
  A tokio channel: while the receiver lives a send completes and appends to what the receiver will
  take, in order; afterwards it fails; \<open>blocking_send\<close> panics inside an asynchronous task. \<open>sent\<close> is
  everything that was ever sent and \<open>taken\<close> what the receiver has had of it.
\<close>

locale mpsc_channel =
  fixes M :: "'tx mpsc_ops"
    and sent :: "'tx \<Rightarrow> subscription_msg list"
    and taken :: "'tx \<Rightarrow> subscription_msg list"
    and receiving :: "'tx \<Rightarrow> bool"
  assumes new_channel: "0 < n \<Longrightarrow> sent (ch_new M n) = [] \<and> taken (ch_new M n) = [] \<and> receiving (ch_new M n)"
    and send_open: "receiving tx \<Longrightarrow> \<exists>tx'. tx_send M tx m = Some tx' \<and> receiving tx'"
    and send_closed: "\<not> receiving tx \<Longrightarrow> tx_send M tx m = None"
    and send_sent: "tx_send M tx m = Some tx' \<Longrightarrow> sent tx' = sent tx @ [m] \<and> taken tx' = taken tx"
    and drain: "rx_drain M tx = (ms, tx') \<Longrightarrow> sent tx = taken tx @ ms \<and> sent tx' = sent tx \<and>
          taken tx' = sent tx \<and> receiving tx' = receiving tx"
    and blocking_panics: "tx_blocking_send M tx m = None"

text \<open>
  The messages the task relays of a stream (everything before its end or its first error), and how the
  stream ended, if it did: with its end, or with an error.
\<close>

fun relayed :: "stream_message list \<Rightarrow> subscription_msg list" where
  "relayed (Inr (Some (Some (ContentEvent p))) # rs) = SubEvent (proto_to_event_record p) # relayed rs"
| "relayed (Inr (Some (Some ContentCaughtUp)) # rs) = SubCaughtUp # relayed rs"
| "relayed (Inr (Some None) # rs) = relayed rs"
| "relayed _ = []"

fun stream_end :: "stream_message list \<Rightarrow> status option option" where
  "stream_end [] = None"
| "stream_end (Inl e # rs) = Some (Some e)"
| "stream_end (Inr None # rs) = Some None"
| "stream_end (Inr (Some c) # rs) = stream_end rs"

lemma stream_end_append:
  "stream_end (xs @ ys) = (case stream_end xs of None \<Rightarrow> stream_end ys | Some r \<Rightarrow> Some r)"
  by (induction xs rule: stream_end.induct) simp_all

lemma relayed_append: "relayed (xs @ ys) = relayed xs @ (if stream_end xs = None then relayed ys else [])"
  by (induction xs rule: relayed.induct) simp_all

lemma relayed_no_error: "SubError s \<notin> set (relayed rs)"
  by (induction rs rule: relayed.induct) simp_all

text \<open>The state of a relay task that has handled the responses \<open>rs\<close> with a receiver at the other end.\<close>

definition relay_state :: "('tx \<Rightarrow> subscription_msg list) \<Rightarrow> ('tx \<Rightarrow> bool) \<Rightarrow> stream_message list \<Rightarrow> 'tx task \<Rightarrow> bool" where
  "relay_state sent receiving rs relay \<longleftrightarrow>
     receiving (task_tx relay) \<and> sent (task_tx relay) = relayed rs \<and>
     (case relay of
        TaskWaiting _ \<Rightarrow> stream_end rs = None
      | TaskReturned _ \<Rightarrow> stream_end rs = Some None
      | TaskPanicked _ \<Rightarrow> \<exists>e. stream_end rs = Some (Some e))"

context mpsc_channel
begin

abbreviation task_sent :: "'tx task \<Rightarrow> subscription_msg list" where
  "task_sent t \<equiv> sent (task_tx t)"

text \<open>While the receiver is alive every send completes, and the task ends with its stream.\<close>

lemma loop_outcome:
  "receiving tx \<Longrightarrow> \<exists>tx'. receiving tx' \<and> sent tx' = sent tx @ relayed rs \<and> taken tx' = taken tx \<and>
     subscription_loop M D tx rs =
       (case stream_end rs of None \<Rightarrow> TaskWaiting | Some None \<Rightarrow> TaskReturned | Some (Some e) \<Rightarrow> TaskPanicked) tx'"
proof (induction rs arbitrary: tx rule: relayed.induct)
  case (1 p rs)
  from send_open [OF 1(2), of "SubEvent (proto_to_event_record p)"] obtain tx'
    where t: "tx_send M tx (SubEvent (proto_to_event_record p)) = Some tx'" "receiving tx'" by blast
  from 1(1) [OF t(2)] t(1) send_sent [OF t(1)] show ?case by auto
next
  case (2 rs)
  from send_open [OF 2(2), of SubCaughtUp] obtain tx'
    where t: "tx_send M tx SubCaughtUp = Some tx'" "receiving tx'" by blast
  from 2(1) [OF t(2)] t(1) send_sent [OF t(1)] show ?case by auto
qed (auto simp: blocking_panics)

lemma loop_relays_all:
  "receiving tx \<Longrightarrow> task_sent (subscription_loop M D tx rs) = sent tx @ relayed rs"
  using loop_outcome [of tx rs D] by (auto split: option.splits)

lemma relay_state_step:
  assumes "relay_state sent receiving xs (TaskWaiting tx)"
  shows "relay_state sent receiving (xs @ ys) (subscription_loop M D tx ys)"
proof -
  from assms have open_tx: "receiving tx" "sent tx = relayed xs" "stream_end xs = None"
    by (auto simp: relay_state_def split: option.splits)
  from loop_outcome [OF open_tx(1), of ys D] open_tx(2,3) show ?thesis
    by (auto simp: relay_state_def stream_end_append relayed_append split: option.splits)
qed

lemma relay_state_drain:
  "relay_state sent receiving rs relay \<Longrightarrow> rx_drain M (task_tx relay) = (ms, tx) \<Longrightarrow>
     relay_state sent receiving rs (map_task (\<lambda>_. tx) relay)"
  using drain [of "task_tx relay" ms tx] by (cases relay) (auto simp: relay_state_def split: option.splits)

end

text \<open>A queue of what was sent, split at what was taken, with a flag that the receiver still exists, is such a channel.\<close>

record mpsc_queue =
  mq_taken :: "subscription_msg list"
  mq_pending :: "subscription_msg list"
  mq_open :: bool

definition mpsc_queue_ops :: "mpsc_queue mpsc_ops" where
  "mpsc_queue_ops =
     \<lparr>ch_new = (\<lambda>n. \<lparr>mq_taken = [], mq_pending = [], mq_open = True\<rparr>),
      rx_drain = (\<lambda>q. (mq_pending q, q\<lparr>mq_taken := mq_taken q @ mq_pending q, mq_pending := []\<rparr>)),
      tx_send = (\<lambda>q m. if mq_open q then Some (q\<lparr>mq_pending := mq_pending q @ [m]\<rparr>) else None),
      tx_blocking_send = (\<lambda>q m. None)\<rparr>"

abbreviation mq_sent :: "mpsc_queue \<Rightarrow> subscription_msg list" where
  "mq_sent q \<equiv> mq_taken q @ mq_pending q"

interpretation mq: mpsc_channel mpsc_queue_ops mq_sent mq_taken mq_open
  by unfold_locales (auto simp: mpsc_queue_ops_def split: if_splits)

end
