(* ===== verification/Console_Views.thy ===== *)
theory Console_Views
  imports Console_App
begin

text \<open>
  What the console draws (\<open>eventfold-console/src/views/*.rs\<close> and the render functions of
  \<open>tui.rs\<close>). A view is the content handed to the ratatui widgets: titles, header cells, rows with
  the flag of the highlighted row, the text of the detail panel, and the area the layout gives the
  table; colours and column widths are left out. Text is UTF-8 bytes. The JSON library and what ratatui
  does with an area (splitting it, fitting the rows of a table into it) are arguments, with the
  locale \<open>ratatui\<close> as contract. \<open>None\<close> is a panic.
\<close>

subsection \<open>Formatting helpers\<close>

record 'j json_ops =
  jo_from_slice :: "bytes \<Rightarrow> 'j option"
  jo_to_string_pretty :: "'j \<Rightarrow> rstring option"

text \<open>\<open>Vec<String>::join\<close>.\<close>

fun join :: "'a list \<Rightarrow> 'a list list \<Rightarrow> 'a list" where
  "join sep [] = []"
| "join sep [x] = x"
| "join sep (x # y # xs) = x @ sep @ join sep (y # xs)"

definition HEX_LIMIT :: nat where "HEX_LIMIT = 128"

definition hex_dump :: "bytes \<Rightarrow> rstring" where
  "hex_dump bytes =
     (let hex = ascii (join '' '' (map hex_02x (take HEX_LIMIT bytes))) in
      if length bytes > HEX_LIMIT then hex @ ascii '' ...'' else hex)"

definition format_bytes :: "('j, 'a) json_ops_scheme \<Rightarrow> bytes \<Rightarrow> bool \<Rightarrow> rstring option" where
  "format_bytes J bytes pretty_json =
     (case (if pretty_json then jo_from_slice J bytes else None) of
        Some v \<Rightarrow> jo_to_string_pretty J v
      | None \<Rightarrow>
          (case from_utf8 bytes of
             Inr s \<Rightarrow> Some s
           | Inl _ \<Rightarrow> Some (hex_dump bytes)))"

text \<open>\<open>str::chars\<close>: the encoded characters of a string.\<close>

function utf8_chars :: "rstring \<Rightarrow> rstring list" where
  "utf8_chars [] = []"
| "utf8_chars (a # rest) =
     (case utf8_char a rest of
        Inl _ \<Rightarrow> [a] # utf8_chars rest
      | Inr n \<Rightarrow> (a # take (n - 1) rest) # utf8_chars (drop (n - 1) rest))"
  by pat_completeness auto
termination
  by (relation "measure length") (auto dest: utf8_char_pos)

definition truncate_str :: "rstring \<Rightarrow> nat \<Rightarrow> rstring" where
  "truncate_str s max_width =
     (if length (utf8_chars s) \<le> max_width then s
      else concat (take (max_width - 3) (utf8_chars s)) @ ascii ''...'')"

subsection \<open>Views\<close>

record table_view =
  tv_title :: rstring
  tv_header :: "string list"
  tv_rows :: "(rstring list \<times> bool) list"

text \<open>Areas of the terminal and how the layout divides them.\<close>

record rect =
  rc_x :: u16
  rc_y :: u16
  rc_width :: u16
  rc_height :: u16

datatype layout_constraint = Length u16 | Min u16 | Percentage u16

text \<open>
  \<open>ui_split\<close> is a vertical \<open>Layout\<close> with the given constraints; \<open>ui_table_rows\<close> the number of rows a table with a
  header and a border all around shows in an area. A table drawn without a table state starts with its
  first row.
\<close>

record 'j ui_ops = "'j json_ops" +
  ui_split :: "layout_constraint list \<Rightarrow> rect \<Rightarrow> rect list"
  ui_table_rows :: "rect \<Rightarrow> nat"

record screen =
  sc_tabs :: "(string \<times> bool) list"
  sc_selected :: nat
  sc_table :: table_view
  sc_table_area :: rect
  sc_detail :: "rstring option"
  sc_status :: rstring

definition drawn_rows :: "'j ui_ops \<Rightarrow> screen \<Rightarrow> (rstring list \<times> bool) list" where
  "drawn_rows J sc = take (ui_table_rows J (sc_table_area sc)) (tv_rows (sc_table sc))"

definition message_row :: "string \<Rightarrow> nat \<Rightarrow> (rstring list \<times> bool) list" where
  "message_row m blanks = [(ascii m # replicate blanks [], False)]"

text \<open>\<open>enumerate().map(..)\<close>: every row knows whether the cursor is on it.\<close>

definition cursor_rows :: "('a \<Rightarrow> rstring list option) \<Rightarrow> nat \<Rightarrow> nat \<Rightarrow> 'a list \<Rightarrow> (rstring list \<times> bool) list option" where
  "cursor_rows cells cursor start xs =
     those (map (\<lambda>(i, x). map_option (\<lambda>r. (r, i = cursor)) (cells x)) (enumerate start xs))"

definition streams_view :: "app_state \<Rightarrow> table_view option" where
  "streams_view st =
     map_option (\<lambda>rows. \<lparr>tv_title = ascii '' Streams '',
                         tv_header = [''Stream ID'', ''Events'', ''Latest Version''], tv_rows = rows\<rparr>)
       (if streams_loading st then Some (message_row ''Loading...'' 2)
        else if streams st = [] then Some (message_row ''No streams found'' 2)
        else cursor_rows
               (\<lambda>s. Some [ascii (cs_stream_id s), ascii (u64_to_string (cs_event_count s)),
                          ascii (u64_to_string (cs_latest_version s))])
               (streams_cursor st) 0 (streams st))"

definition stream_detail_cells :: "('j, 'a) json_ops_scheme \<Rightarrow> event_record \<Rightarrow> rstring list option" where
  "stream_detail_cells J e =
     map_option (\<lambda>s. [ascii (u64_to_string (ev_global_position e)),
                      ascii (u64_to_string (ev_stream_version e)), ev_event_type e, truncate_str s 40])
       (format_bytes J (ev_payload e) False)"

definition stream_detail_table :: "('j, 'a) json_ops_scheme \<Rightarrow> app_state \<Rightarrow> table_view option" where
  "stream_detail_table J st =
     map_option (\<lambda>rows.
         \<lparr>tv_title = (case detail_stream_id st of
              Some sid \<Rightarrow> ascii '' Stream: '' @ truncate_str (ascii sid) 36 @ ascii '' ''
            | None \<Rightarrow> ascii '' No stream selected ''),
          tv_header = [''Global Pos'', ''Version'', ''Type'', ''Payload Preview''], tv_rows = rows\<rparr>)
       (if detail_loading st then Some (message_row ''Loading...'' 3)
        else if detail_events st = [] then Some (message_row ''No events'' 3)
        else cursor_rows (stream_detail_cells J) (detail_cursor st) 0 (detail_events st))"

text \<open>The text of the detail panel, the same in the three views that have one.\<close>

definition newline :: string where "newline = [char_of (10 :: nat)]"

definition detail_text :: "('j, 'a) json_ops_scheme \<Rightarrow> bool \<Rightarrow> string \<Rightarrow> event_record option \<Rightarrow> rstring option" where
  "detail_text J pretty placeholder event =
     (case event of
        None \<Rightarrow> Some (ascii placeholder)
      | Some e \<Rightarrow>
          (case format_bytes J (ev_payload e) pretty of
             None \<Rightarrow> None
           | Some payload \<Rightarrow>
               (case format_bytes J (ev_metadata e) pretty of
                  None \<Rightarrow> None
                | Some metadata \<Rightarrow> Some (
                    ascii (''Event ID:  '' @ ev_event_id e @ newline
                         @ ''Stream:    '' @ ev_stream_id e @ newline
                         @ ''Version:   '' @ u64_to_string (ev_stream_version e) @ newline
                         @ ''Global:    '' @ u64_to_string (ev_global_position e) @ newline
                         @ ''Type:      '') @ ev_event_type e
                    @ ascii (newline @ newline @ ''--- Payload ---'' @ newline) @ payload
                    @ ascii (newline @ newline @ ''--- Metadata ---'' @ newline) @ metadata))))"

definition stream_detail_panel :: "('j, 'a) json_ops_scheme \<Rightarrow> app_state \<Rightarrow> rstring option" where
  "stream_detail_panel J st = detail_text J (format_json st) ''Select an event to view details''
     (index (detail_events st) (detail_cursor st))"

definition log_cells :: "('j, 'a) json_ops_scheme \<Rightarrow> event_record \<Rightarrow> rstring list option" where
  "log_cells J e =
     map_option (\<lambda>s. [ascii (u64_to_string (ev_global_position e)), truncate_str (ascii (ev_stream_id e)) 12,
                      ascii (u64_to_string (ev_stream_version e)), ev_event_type e, truncate_str s 30])
       (format_bytes J (ev_payload e) False)"

definition log_header :: "string list" where
  "log_header = [''Global Pos'', ''Stream ID'', ''Version'', ''Type'', ''Preview'']"

definition global_log_table :: "('j, 'a) json_ops_scheme \<Rightarrow> app_state \<Rightarrow> table_view option" where
  "global_log_table J st =
     map_option (\<lambda>rows. \<lparr>tv_title = ascii '' Global Log '', tv_header = log_header, tv_rows = rows\<rparr>)
       (if global_loading st then Some (message_row ''Loading...'' 4)
        else if global_events st = [] then Some (message_row ''No events'' 4)
        else cursor_rows (log_cells J) (global_cursor st) 0 (global_events st))"

definition global_log_panel :: "('j, 'a) json_ops_scheme \<Rightarrow> app_state \<Rightarrow> rstring option" where
  "global_log_panel J st = detail_text J (format_json st) ''Select an event to view details''
     (index (global_events st) (global_cursor st))"

definition live_display_cursor :: "app_state \<Rightarrow> nat" where
  "live_display_cursor st = (if live_paused st then live_cursor st else length (live_events st) - 1)"

text \<open>The window of a table of height \<open>height\<close>: a bad range panics the slice.\<close>

definition live_window :: "u16 \<Rightarrow> app_state \<Rightarrow> (nat \<times> event_record list) option" where
  "live_window height st =
     (let events = live_events st;
          visible_height = unat height - 4;
          start = live_display_cursor st - (visible_height - 1);
          stop = min (length events) (start + visible_height)
      in map_option (Pair start) (slice events start stop))"

definition live_tail_table :: "('j, 'a) json_ops_scheme \<Rightarrow> u16 \<Rightarrow> app_state \<Rightarrow> table_view option" where
  "live_tail_table J height st =
     map_option (\<lambda>rows.
         \<lparr>tv_title = ascii ('' Live Tail [''
              @ (if live_paused st then ''Paused'' else if live_caught_up st then ''Live''
                 else ''Catching up...'')
              @ ''] ('' @ dec_str (length (live_events st)) @ '' events) ''),
          tv_header = log_header, tv_rows = rows\<rparr>)
       (if live_events st = [] then Some (message_row ''Waiting for events...'' 4)
        else (case live_window height st of
                None \<Rightarrow> None
              | Some (start, window) \<Rightarrow>
                  cursor_rows (log_cells J) (live_display_cursor st) start window))"

definition live_tail_panel :: "('j, 'a) json_ops_scheme \<Rightarrow> app_state \<Rightarrow> rstring option" where
  "live_tail_panel J st = detail_text J (format_json st) ''Waiting for events...''
     (index (live_events st) (live_display_cursor st))"

subsection \<open>The whole screen\<close>

definition render_tabs :: "app_state \<Rightarrow> (string \<times> bool) list \<times> nat" where
  "render_tabs st =
     (map (\<lambda>t. (label t, t = active_tab st)) TAB_ORDER,
      case position (\<lambda>t. t = active_tab st) TAB_ORDER of None \<Rightarrow> 0 | Some i \<Rightarrow> i)"

type_synonym content = "table_view \<times> rect \<times> rstring option"

text \<open>The views with a detail panel: the area is divided, the table drawn above, the panel below.\<close>

definition split_view ::
  "'j ui_ops \<Rightarrow> layout_constraint list \<Rightarrow> rect \<Rightarrow> (rect \<Rightarrow> table_view option) \<Rightarrow> rstring option \<Rightarrow> content option" where
  "split_view J constraints area table panel =
     (let chunks = ui_split J constraints area in
      case (index chunks 0, index chunks 1) of
        (Some upper, Some lower) \<Rightarrow>
          (case (table upper, panel) of (Some t, Some p) \<Rightarrow> Some (t, upper, Some p) | _ \<Rightarrow> None)
      | _ \<Rightarrow> None)"

definition stream_detail_render :: "'j ui_ops \<Rightarrow> rect \<Rightarrow> app_state \<Rightarrow> content option" where
  "stream_detail_render J area st =
     split_view J [Percentage 50, Percentage 50] area (\<lambda>_. stream_detail_table J st) (stream_detail_panel J st)"

definition global_log_render :: "'j ui_ops \<Rightarrow> rect \<Rightarrow> app_state \<Rightarrow> content option" where
  "global_log_render J area st =
     split_view J [Percentage 50, Percentage 50] area (\<lambda>_. global_log_table J st) (global_log_panel J st)"

definition live_tail_render :: "'j ui_ops \<Rightarrow> rect \<Rightarrow> app_state \<Rightarrow> content option" where
  "live_tail_render J area st =
     split_view J [Percentage 60, Percentage 40] area (\<lambda>upper. live_tail_table J (rc_height upper) st) (live_tail_panel J st)"

definition render_content :: "'j ui_ops \<Rightarrow> rect \<Rightarrow> app_state \<Rightarrow> content option" where
  "render_content J area st =
     (case active_tab st of
        Streams \<Rightarrow> map_option (\<lambda>t. (t, area, None)) (streams_view st)
      | StreamDetail \<Rightarrow> stream_detail_render J area st
      | GlobalLog \<Rightarrow> global_log_render J area st
      | LiveTail \<Rightarrow> live_tail_render J area st)"

definition render_status_bar :: "app_state \<Rightarrow> rstring" where
  "render_status_bar st =
     ascii ('' Connected: '' @ server_addr st @ '' | '' @ dec_str (length (streams st)) @ '' streams | ''
       @ (if format_json st then ''JSON:on'' else ''JSON:off'')
       @ '' | 1-4:tab  j/k:scroll  Enter:select  r:refresh  f:format  p:pause  q:quit'')"

definition render :: "'j ui_ops \<Rightarrow> rect \<Rightarrow> app_state \<Rightarrow> screen option" where
  "render J frame st =
     (let chunks = ui_split J [Length 3, Min 1, Length 1] frame in
      case (index chunks 0, index chunks 1, index chunks 2) of
        (Some upper, Some middle, Some lower) \<Rightarrow>
          (case render_tabs st of (tabs, selected) \<Rightarrow>
           map_option (\<lambda>(table, area, detail).
               \<lparr>sc_tabs = tabs, sc_selected = selected, sc_table = table, sc_table_area = area, sc_detail = detail,
                sc_status = render_status_bar st\<rparr>)
             (render_content J middle st))
      | _ \<Rightarrow> None)"

text \<open>
  What the views rely on: \<open>serde_json\<close> prints every value it parsed; a layout has one area for each constraint; a
  bordered table with a header has three lines less for its rows than its area is high.
\<close>

locale ratatui =
  fixes J :: "'j ui_ops"
  assumes pretty: "jo_from_slice J b = Some v \<Longrightarrow> jo_to_string_pretty J v \<noteq> None"
    and split_length: "length (ui_split J constraints area) = length constraints"
    and table_rows: "ui_table_rows J area = unat (rc_height area) - 3"

subsection \<open>Characters and truncation\<close>

lemma concat_utf8_chars: "concat (utf8_chars s) = s"
  by (induction s rule: utf8_chars.induct) (auto split: sum.splits)

text \<open>A character is recognised from its own bytes, whatever follows it.\<close>

lemma utf8_char_local:
  "utf8_char a rest = Inr n \<Longrightarrow> utf8_char a (take (n - 1) rest @ ys) = Inr n"
  by (auto simp: utf8_char.simps split: if_splits list.splits)

lemma utf8_chars_take_append:
  assumes "utf8_valid s"
  shows "utf8_chars (concat (take k (utf8_chars s)) @ t) = take k (utf8_chars s) @ utf8_chars t"
proof -
  have "utf8_scan off s = None \<Longrightarrow> ?thesis" for off
  proof (induction s arbitrary: off k rule: utf8_chars.induct)
    case (2 a rest)
    then obtain n where n: "utf8_char a rest = Inr n" by (auto split: sum.splits)
    have rec: "utf8_scan (off + n) (drop (n - 1) rest) = None" using 2(3) n by simp
    note IH = 2(2) [OF n rec]
    show ?case
    proof (cases k)
      case (Suc k')
      have len: "length (take (n - 1) rest) = n - 1" using utf8_char_pos [OF n] by auto
      let ?tail = "concat (take k' (utf8_chars (drop (n - 1) rest))) @ t"
      have "utf8_char a (take (n - 1) rest @ ?tail) = Inr n" by (rule utf8_char_local [OF n])
      then show ?thesis using Suc n len IH [of k'] by simp
    qed simp
  qed simp
  with assms show ?thesis by (simp add: utf8_valid_def)
qed

lemma utf8_chars_ascii: "\<forall>b \<in> set s. unat b < 128 \<Longrightarrow> utf8_chars s = map (\<lambda>b. [b]) s"
  by (induction s) (simp_all add: utf8_char.simps)

lemma length_utf8_chars_truncate:
  assumes "utf8_valid s"
  shows "length (utf8_chars (truncate_str s w)) =
           (if length (utf8_chars s) \<le> w then length (utf8_chars s) else max w 3)"
proof -
  have dots: "utf8_chars (ascii ''...'') = map (\<lambda>b. [b]) (ascii ''...'')"
    by (rule utf8_chars_ascii) (simp add: ascii_def)
  then have "length (utf8_chars (ascii ''...'')) = 3" by (simp add: ascii_def)
  then show ?thesis
    by (auto simp: truncate_str_def utf8_chars_take_append [OF assms] max_def)
qed

subsection \<open>Rendering does not panic\<close>

lemma those_map_Some: "(\<And>x. x \<in> set xs \<Longrightarrow> f x \<noteq> None) \<Longrightarrow> those (map f xs) \<noteq> None"
  by (induction xs) (auto split: option.splits)

lemma cursor_rows_defined: "(\<And>x. x \<in> set xs \<Longrightarrow> cells x \<noteq> None) \<Longrightarrow> cursor_rows cells c start xs \<noteq> None"
  unfolding cursor_rows_def
  by (rule those_map_Some) (auto simp: in_set_enumerate_eq split: prod.splits)

lemma format_raw_defined [simp]: "\<exists>s. format_bytes J b False = Some s"
  by (simp add: format_bytes_def split: sum.split)

lemma log_cells_defined [simp]: "log_cells J e \<noteq> None" "stream_detail_cells J e \<noteq> None"
  using format_raw_defined [of J "ev_payload e"] by (auto simp: log_cells_def stream_detail_cells_def)

lemma live_cursor_in_range:
  "app_inv st \<Longrightarrow> live_events st \<noteq> [] \<Longrightarrow> live_display_cursor st < length (live_events st)"
  by (auto simp: app_inv_def live_display_cursor_def)

text \<open>The window starts at most at the cursor, so the slice is in range whatever the height.\<close>

lemma live_window_defined:
  assumes "app_inv st" "live_events st \<noteq> []"
  shows "\<exists>start w. live_window height st = Some (start, w) \<and>
           start \<le> live_display_cursor st \<and>
           w = take (unat height - 4) (drop start (live_events st))"
proof -
  let ?n = "length (live_events st)" let ?h = "unat height - 4"
  let ?start = "live_display_cursor st - (?h - 1)"
  have "?start \<le> ?n" using live_cursor_in_range [OF assms] by simp
  then have "live_window height st =
      Some (?start, take (min ?n (?start + ?h) - ?start) (drop ?start (live_events st)))"
    by (simp add: live_window_def slice_def Let_def)
  moreover have "take (min ?n (?start + ?h) - ?start) (drop ?start (live_events st))
      = take ?h (drop ?start (live_events st))"
    by (rule take_equalityI') (use \<open>?start \<le> ?n\<close> in \<open>simp add: min_def; linarith\<close>)
  ultimately show ?thesis by simp
qed

definition json_total :: "('j, 'a) json_ops_scheme \<Rightarrow> bool" where
  "json_total J \<longleftrightarrow> (\<forall>b v. jo_from_slice J b = Some v \<longrightarrow> jo_to_string_pretty J v \<noteq> None)"

lemma format_bytes_defined: "json_total J \<Longrightarrow> \<exists>s. format_bytes J b pretty = Some s"
  by (auto simp: format_bytes_def json_total_def split: option.splits sum.splits)

lemma detail_text_defined: "json_total J \<Longrightarrow> \<exists>s. detail_text J pretty p e = Some s"
  using format_bytes_defined [of J] by (cases e) (auto simp: detail_text_def split: option.splits, metis option.distinct(1))

lemma live_tail_table_defined:
  assumes "app_inv st"
  shows "live_tail_table J height st \<noteq> None"
proof (cases "live_events st = []")
  case False
  from live_window_defined [OF assms False, of height] obtain start w
    where w: "live_window height st = Some (start, w)" by blast
  have "cursor_rows (log_cells J) (live_display_cursor st) start w \<noteq> None"
    by (rule cursor_rows_defined) simp
  with False w show ?thesis by (simp add: live_tail_table_def)
qed (simp add: live_tail_table_def)

lemma tables_defined:
  "streams_view st \<noteq> None" "stream_detail_table J st \<noteq> None" "global_log_table J st \<noteq> None"
proof -
  have rows: "cursor_rows (log_cells J) c 0 es \<noteq> None"
    "cursor_rows (stream_detail_cells J) c 0 es \<noteq> None" for c es
    by (rule cursor_rows_defined; simp)+
  have "cursor_rows (\<lambda>s. Some (f s)) c 0 xs \<noteq> None" for f c and xs :: "console_stream list"
    by (rule cursor_rows_defined) simp
  then show "streams_view st \<noteq> None" by (simp add: streams_view_def del: not_None_eq)
  show "stream_detail_table J st \<noteq> None" "global_log_table J st \<noteq> None"
    using rows by (simp_all add: stream_detail_table_def global_log_table_def del: not_None_eq)
qed

lemma panels_defined:
  assumes "json_total J"
  shows "stream_detail_panel J st \<noteq> None" "global_log_panel J st \<noteq> None" "live_tail_panel J st \<noteq> None"
  using detail_text_defined [OF assms]
  unfolding stream_detail_panel_def global_log_panel_def live_tail_panel_def by fastforce+

lemma split_view_defined:
  assumes "length (ui_split J constraints area) = 2" and "\<And>r. table r \<noteq> None" and "panel \<noteq> None"
  shows "split_view J constraints area table panel \<noteq> None"
  using assms by (auto simp: split_view_def index_def Let_def split: option.splits)

context ratatui
begin

lemma json_total: "json_total J"
  using pretty by (simp add: json_total_def)

lemma render_content_defined:
  assumes "app_inv st"
  shows "render_content J area st \<noteq> None"
proof -
  have two: "length (ui_split J [a, b] area) = 2" for a b using split_length by simp
  have "stream_detail_render J area st \<noteq> None" "global_log_render J area st \<noteq> None" "live_tail_render J area st \<noteq> None"
    unfolding stream_detail_render_def global_log_render_def live_tail_render_def
    by (intro split_view_defined two tables_defined panels_defined [OF json_total] live_tail_table_defined [OF assms])+
  then show ?thesis
    using tables_defined(1) [of st] by (cases "active_tab st") (simp_all add: render_content_def del: not_None_eq)
qed

lemma render_defined:
  assumes "app_inv st"
  shows "render J frame st \<noteq> None"
proof -
  have "length (ui_split J [Length 3, Min 1, Length 1] frame) = 3" using split_length by simp
  then obtain a b c where "ui_split J [Length 3, Min 1, Length 1] frame = [a, b, c]"
    by (auto simp: length_Suc_conv numeral_3_eq_3)
  with render_content_defined [OF assms, of b] show ?thesis
    by (auto simp: render_def index_def split: prod.splits)
qed

end

subsection \<open>Which row is highlighted on the screen\<close>

lemma those_map_nth:
  "those (map f xs) = Some ys \<Longrightarrow> length ys = length xs \<and> (\<forall>i < length xs. f (xs ! i) = Some (ys ! i))"
proof (induction xs arbitrary: ys)
  case (Cons x xs)
  then obtain y zs where "f x = Some y" "those (map f xs) = Some zs" "ys = y # zs" by (auto split: option.splits)
  with Cons.IH show ?case by (auto simp: less_Suc_eq_0_disj)
qed simp

lemma cursor_rows_flags:
  assumes "cursor_rows cells cursor start xs = Some rows"
  shows "length rows = length xs" and "i < length xs \<Longrightarrow> snd (rows ! i) \<longleftrightarrow> start + i = cursor"
proof -
  note nth = those_map_nth [OF assms [unfolded cursor_rows_def]]
  then show "length rows = length xs" by simp
  assume "i < length xs"
  with nth have "map_option (\<lambda>r. (r, start + i = cursor)) (cells (xs ! i)) = Some (rows ! i)"
    by (simp add: nth_enumerate_eq)
  then show "snd (rows ! i) \<longleftrightarrow> start + i = cursor" by (cases "rows ! i") auto
qed

lemma cursor_rows_drawn:
  assumes "cursor_rows cells cursor start xs = Some rows"
  shows "(\<exists>row. (row, True) \<in> set (take k rows)) \<longleftrightarrow> start \<le> cursor \<and> cursor - start < min k (length xs)"
proof -
  note flags = cursor_rows_flags [OF assms]
  have "(\<exists>row. (row, True) \<in> set (take k rows)) \<longleftrightarrow> (\<exists>r \<in> set (take k rows). snd r)" by force
  also have "\<dots> \<longleftrightarrow> (\<exists>i < min k (length xs). snd (rows ! i))"
    using flags(1) unfolding list_ex_iff [symmetric] list_ex_length by auto
  also have "\<dots> \<longleftrightarrow> (\<exists>i < min k (length xs). start + i = cursor)" using flags(2) by auto
  also have "\<dots> \<longleftrightarrow> start \<le> cursor \<and> cursor - start < min k (length xs)"
    by (metis add_diff_cancel_left' le_add1 le_add_diff_inverse)
  finally show ?thesis .
qed

definition shown_cursor :: "app_state \<Rightarrow> nat" where
  "shown_cursor st =
     (case active_tab st of
        Streams \<Rightarrow> streams_cursor st | StreamDetail \<Rightarrow> detail_cursor st
      | GlobalLog \<Rightarrow> global_cursor st | LiveTail \<Rightarrow> live_display_cursor st)"

definition tab_loading :: "app_state \<Rightarrow> bool" where
  "tab_loading st =
     (case active_tab st of
        Streams \<Rightarrow> streams_loading st | StreamDetail \<Rightarrow> detail_loading st
      | GlobalLog \<Rightarrow> global_loading st | LiveTail \<Rightarrow> False)"

lemma render_content_of:
  "render J frame st = Some sc \<Longrightarrow> \<exists>middle detail. render_content J middle st = Some (sc_table sc, sc_table_area sc, detail)"
  by (auto simp: render_def Let_def split: option.splits prod.splits) blast

lemma split_view_of:
  "split_view J constraints area table panel = Some (t, a, detail) \<Longrightarrow> table a = Some t"
  by (auto simp: split_view_def Let_def split: option.splits)

text \<open>The rows of the tables that hold their whole list.\<close>

lemma all_rows_drawn:
  assumes "cursor_rows cells cursor 0 xs = Some rows" and "cursor < length xs"
  shows "(\<exists>row. (row, True) \<in> set (take k rows)) \<longleftrightarrow> cursor < k"
  using cursor_rows_drawn [OF assms(1), of k] assms(2) by simp

lemma whole_list_rows:
  assumes "render_content J middle st = Some (t, a, detail)" and "active_tab st \<noteq> LiveTail"
    and "\<not> tab_loading st" and "shown_cursor st < current_list_len st"
  shows "(\<exists>row. (row, True) \<in> set (take k (tv_rows t))) \<longleftrightarrow> shown_cursor st < k"
proof -
  show ?thesis
  proof (cases "active_tab st")
    case Streams
    with assms have "streams st \<noteq> []" "\<not> streams_loading st" by (auto simp: tab_loading_def shown_cursor_def current_list_len_def)
    with assms(1) Streams have "\<exists>cells. cursor_rows cells (streams_cursor st) 0 (streams st) = Some (tv_rows t)"
      by (auto simp: render_content_def streams_view_def)
    then obtain cells where "cursor_rows cells (streams_cursor st) 0 (streams st) = Some (tv_rows t)" ..
    from all_rows_drawn [OF this, of k] Streams assms(4) show ?thesis by (simp add: shown_cursor_def current_list_len_def)
  next
    case StreamDetail
    with assms have "detail_events st \<noteq> []" "\<not> detail_loading st"
      by (auto simp: tab_loading_def shown_cursor_def current_list_len_def)
    with assms(1) StreamDetail have "\<exists>cells. cursor_rows cells (detail_cursor st) 0 (detail_events st) = Some (tv_rows t)"
      by (auto simp: render_content_def stream_detail_render_def stream_detail_table_def dest!: split_view_of)
    then obtain cells where "cursor_rows cells (detail_cursor st) 0 (detail_events st) = Some (tv_rows t)" ..
    from all_rows_drawn [OF this, of k] StreamDetail assms(4) show ?thesis by (simp add: shown_cursor_def current_list_len_def)
  next
    case GlobalLog
    with assms have "global_events st \<noteq> []" "\<not> global_loading st"
      by (auto simp: tab_loading_def shown_cursor_def current_list_len_def)
    with assms(1) GlobalLog have "\<exists>cells. cursor_rows cells (global_cursor st) 0 (global_events st) = Some (tv_rows t)"
      by (auto simp: render_content_def global_log_render_def global_log_table_def dest!: split_view_of)
    then obtain cells where "cursor_rows cells (global_cursor st) 0 (global_events st) = Some (tv_rows t)" ..
    from all_rows_drawn [OF this, of k] GlobalLog assms(4) show ?thesis by (simp add: shown_cursor_def current_list_len_def)
  qed (use assms(2) in simp)
qed

text \<open>The live tail draws the window around its cursor.\<close>

lemma live_tail_rows:
  assumes "render_content J middle st = Some (t, a, detail)" and "active_tab st = LiveTail"
    and "app_inv st" and "live_events st \<noteq> []"
  shows "(\<exists>row. (row, True) \<in> set (take (unat (rc_height a) - 3) (tv_rows t))) \<longleftrightarrow> 5 \<le> unat (rc_height a)"
proof -
  let ?h = "unat (rc_height a)" and ?c = "live_display_cursor st"
  let ?start = "?c - (?h - 4 - 1)"
  from assms(1,2) have t: "live_tail_table J (rc_height a) st = Some t"
    by (auto simp: render_content_def live_tail_render_def dest: split_view_of)
  have c: "?c < length (live_events st)" by (rule live_cursor_in_range [OF assms(3,4)])
  from live_window_defined [OF assms(3,4), of "rc_height a"] obtain w where
    w: "live_window (rc_height a) st = Some (?start, w)" "w = take (?h - 4) (drop ?start (live_events st))"
    by (auto simp: live_window_def Let_def)
  from t assms(4) w(1) have rows: "cursor_rows (log_cells J) ?c ?start w = Some (tv_rows t)"
    by (auto simp: live_tail_table_def)
  have "length w = min (length (live_events st) - ?start) (?h - 4)" using w(2) by simp
  moreover have "c - (c - (h - 4 - 1)) < h - 4 \<longleftrightarrow> 5 \<le> h" for c h :: nat by (cases "h \<le> 4") simp_all
  moreover have "?c - ?start < length (live_events st) - ?start" using c by (simp add: diff_less_mono)
  moreover have "5 \<le> h \<Longrightarrow> c - (c - (h - 4 - 1)) < h - 3" for c h :: nat by simp
  ultimately show ?thesis
    unfolding cursor_rows_drawn [OF rows, of "?h - 3"] by (simp only: min_less_iff_conj diff_le_self simp_thms) blast
qed

text \<open>A concrete layout: each constraint alone decides the height of its area.\<close>

fun demo_chunk :: "rect \<Rightarrow> layout_constraint \<Rightarrow> rect" where
  "demo_chunk area (Length n) = area\<lparr>rc_height := min n (rc_height area)\<rparr>"
| "demo_chunk area (Min n) = area"
| "demo_chunk area (Percentage n) = area\<lparr>rc_height := rc_height area * n div 100\<rparr>"

definition demo_ui :: "unit ui_ops" where
  "demo_ui = \<lparr>jo_from_slice = (\<lambda>b. if b = ascii ''1'' then Some () else None),
              jo_to_string_pretty = (\<lambda>_. Some (ascii ''1'')),
              ui_split = (\<lambda>constraints area. map (demo_chunk area) constraints),
              ui_table_rows = (\<lambda>area. unat (rc_height area) - 3)\<rparr>"

interpretation du: ratatui demo_ui
  by unfold_locales (simp_all add: demo_ui_def)

definition demo_frame :: rect where
  "demo_frame = \<lparr>rc_x = 0, rc_y = 0, rc_width = 80, rc_height = 10\<rparr>"

text \<open>
  C39: which cursor positions are on the screen. In the live tail the highlighted event is drawn whenever
  the table's area is at least five lines high. In the other three tabs the table always starts with its
  first row, so the highlighted row is drawn only while the cursor is within the first rows that fit
  (three less than the height): moving further down moves the selection off the screen.
\<close>

theorem selected_row_drawn_iff:
  assumes "ratatui J" and "app_inv st" and "render J frame st = Some sc"
    and "\<not> tab_loading st" and "shown_cursor st < current_list_len st"
  shows "(\<exists>row. (row, True) \<in> set (drawn_rows J sc)) \<longleftrightarrow>
    (if active_tab st = LiveTail then 5 \<le> unat (rc_height (sc_table_area sc))
     else shown_cursor st < unat (rc_height (sc_table_area sc)) - 3)"
proof -
  from render_content_of [OF assms(3)] obtain middle detail where
    c: "render_content J middle st = Some (sc_table sc, sc_table_area sc, detail)" by blast
  note rows = ratatui.table_rows [OF assms(1)]
  show ?thesis
  proof (cases "active_tab st = LiveTail")
    case True
    then have "live_events st \<noteq> []" using assms(5) by (auto simp: current_list_len_def)
    with live_tail_rows [OF c True assms(2)] True show ?thesis by (simp add: drawn_rows_def rows)
  next
    case False
    with whole_list_rows [OF c False assms(4,5)] show ?thesis by (simp add: drawn_rows_def rows)
  qed
qed

theorem selected_row_drawn_iff_witness:
  "\<exists>st sc. active_tab st = Streams \<and> streams_cursor st = 9 \<and> length (streams st) = 20 \<and>
     render demo_ui demo_frame st = Some sc \<and> (\<nexists>row. (row, True) \<in> set (drawn_rows demo_ui sc))"
proof -
  let ?s = "\<lparr>cs_stream_id = ''s'', cs_event_count = 1, cs_latest_version = 0\<rparr>"
  let ?st = "(app_new [])\<lparr>streams := replicate 20 ?s, streams_cursor := 9\<rparr>"
  have st: "app_inv ?st" "active_tab ?st = Streams" "\<not> tab_loading ?st" "shown_cursor ?st < current_list_len ?st"
    by (simp_all add: app_inv_def app_new_def tab_loading_def shown_cursor_def current_list_len_def)
  obtain sc where sc: "render demo_ui demo_frame ?st = Some sc"
    using du.render_defined [OF st(1)] by blast
  have "rc_height (sc_table_area sc) = 10"
    using sc by (auto simp: render_def render_content_def render_tabs_def st(2) demo_ui_def demo_frame_def index_def Let_def)
  with selected_row_drawn_iff [OF du.ratatui_axioms st(1) sc st(3,4)] st(2)
  have "\<nexists>row. (row, True) \<in> set (drawn_rows demo_ui sc)" by (simp add: shown_cursor_def)
  with sc st(2) show ?thesis by (intro exI [of _ ?st]) auto
qed

end
