(* ===== verification/Console_Main.thy ===== *)
theory Console_Main
  imports Console_Client Console_Views Subscription_Delivery "HOL-Library.Sublist"
begin

text \<open>
  The console binary (\<open>eventfold-console/src/main.rs\<close>, with the terminal set-up of \<open>tui.rs\<close>): the
  TLS flags, the event loop and the program from start to exit. The event loop runs over a list of
  turns; a turn says what the environment gives one iteration: the size of the terminal, the outcome of
  drawing, the server's answers, the messages taken from the channel and the key that was read. The whole
  program runs over a list of ticks, which also say which responses the relay task handles meanwhile; what
  the loop takes from the channel is then what that task has put there.
\<close>

subsection \<open>Flags\<close>

record cli =
  cl_addr :: string
  cl_tls :: bool
  cl_tls_ca :: "string option"
  cl_tls_client_cert :: "string option"
  cl_tls_client_key :: "string option"

text \<open>\<open>Some\<close> is the message printed before exiting with status 1.\<close>

definition validate_tls_flags :: "cli \<Rightarrow> string option" where
  "validate_tls_flags cli =
     (let has_cert = cl_tls_client_cert cli \<noteq> None;
          has_key = cl_tls_client_key cli \<noteq> None
      in if has_cert \<noteq> has_key
         then Some (''error: --tls-client-cert and --tls-client-key must be provided together; missing ''
                    @ (if has_cert then ''--tls-client-key'' else ''--tls-client-cert''))
         else None)"

text \<open>An outer \<open>None\<close> is the panic of the \<open>expect\<close>.\<close>

definition build_tls_options ::
  "(string \<Rightarrow> io_error + bytes) \<Rightarrow> cli \<Rightarrow> (string + tls_options) option" where
  "build_tls_options read_file cli =
     (if \<not> cl_tls cli \<and> cl_tls_ca cli = None \<and> cl_tls_client_cert cli = None
      then Some (Inr tls_options_default)
      else
        let opts = tls_options_default\<lparr>to_enabled := True\<rparr>;
            with_ca = (case cl_tls_ca cli of
                None \<Rightarrow> Inr opts
              | Some ca_path \<Rightarrow>
                  (case read_file ca_path of
                     Inl e \<Rightarrow> Inl (''failed to read CA certificate: '' @ ca_path)
                   | Inr ca_pem \<Rightarrow> Inr (opts\<lparr>to_ca_pem := Some ca_pem\<rparr>)))
        in case with_ca of
             Inl e \<Rightarrow> Some (Inl e)
           | Inr opts \<Rightarrow>
               (case cl_tls_client_cert cli of
                  None \<Rightarrow> Some (Inr opts)
                | Some cert_path \<Rightarrow>
                    (case read_file cert_path of
                       Inl e \<Rightarrow> Some (Inl (''failed to read client certificate: '' @ cert_path))
                     | Inr cert_pem \<Rightarrow>
                         (case cl_tls_client_key cli of
                            None \<Rightarrow> None
                          | Some key_path \<Rightarrow>
                              (case read_file key_path of
                                 Inl e \<Rightarrow> Some (Inl (''failed to read client key: '' @ key_path))
                               | Inr key_pem \<Rightarrow>
                                   Some (Inr (opts\<lparr>to_identity := Some (cert_pem, key_pem)\<rparr>)))))))"

subsection \<open>The terminal\<close>

record terminal =
  tm_raw_mode :: bool
  tm_alternate_screen :: bool

record terminal_io =
  tio_enable_raw_mode :: "io_error option"
  tio_enter_alternate :: "io_error option"
  tio_terminal_new :: "io_error option"
  tio_disable_raw_mode :: "io_error option"
  tio_leave_alternate :: "io_error option"

definition init_terminal :: "terminal_io \<Rightarrow> terminal \<Rightarrow> io_error option \<times> terminal" where
  "init_terminal io t =
     (case tio_enable_raw_mode io of
        Some e \<Rightarrow> (Some e, t)
      | None \<Rightarrow>
          (let t = t\<lparr>tm_raw_mode := True\<rparr> in
           case tio_enter_alternate io of
             Some e \<Rightarrow> (Some e, t)
           | None \<Rightarrow>
               (let t = t\<lparr>tm_alternate_screen := True\<rparr> in
                case tio_terminal_new io of Some e \<Rightarrow> (Some e, t) | None \<Rightarrow> (None, t))))"

definition restore_terminal :: "terminal_io \<Rightarrow> terminal \<Rightarrow> io_error option \<times> terminal" where
  "restore_terminal io t =
     (case tio_disable_raw_mode io of
        Some e \<Rightarrow> (Some e, t)
      | None \<Rightarrow>
          (let t = t\<lparr>tm_raw_mode := False\<rparr> in
           case tio_leave_alternate io of
             Some e \<Rightarrow> (Some e, t)
           | None \<Rightarrow> (None, t\<lparr>tm_alternate_screen := False\<rparr>)))"

subsection \<open>The event loop\<close>

definition READ_PAGE_SIZE :: u64 where "READ_PAGE_SIZE = 1000"

definition handle_data_fetches :: "rpc_ops \<Rightarrow> app_state \<Rightarrow> app_state" where
  "handle_data_fetches R st0 =
     (let st1 = (if streams_loading st0
                 then (case client_list_streams R of Inr ss \<Rightarrow> st0\<lparr>streams := ss\<rparr> | Inl e \<Rightarrow> st0)
                        \<lparr>streams_loading := False\<rparr>
                 else st0);
          st2 = (if detail_loading st1
                 then (case detail_stream_id st1 of
                         None \<Rightarrow> st1
                       | Some sid \<Rightarrow>
                           (case client_read_stream R sid 0 READ_PAGE_SIZE of
                              Inr es \<Rightarrow> st1\<lparr>detail_events := es\<rparr> | Inl e \<Rightarrow> st1))
                        \<lparr>detail_loading := False\<rparr>
                 else st1)
      in if global_loading st2
         then (case client_read_all R 0 READ_PAGE_SIZE of
                 Inr es \<Rightarrow> st2\<lparr>global_events := es\<rparr> | Inl e \<Rightarrow> st2)\<lparr>global_loading := False\<rparr>
         else st2)"

fun handle_message :: "subscription_msg \<Rightarrow> app_state \<Rightarrow> app_state" where
  "handle_message (SubEvent event) st = push_live_event event st"
| "handle_message SubCaughtUp st = st\<lparr>live_caught_up := True\<rparr>"
| "handle_message (SubError e) st = st"

record turn_env =
  tu_size :: rect
  tu_draw :: "io_error option"
  tu_rpcs :: rpc_ops
  tu_input :: "io_error + key_event option"

record turn = turn_env +
  tu_messages :: "subscription_msg list"

datatype loop_end =
    Looping (loop_state: app_state) | LoopQuit (loop_state: app_state)
  | LoopFailed io_error (loop_state: app_state) | LoopPanicked (loop_state: app_state)

definition event_loop_turn :: "'j ui_ops \<Rightarrow> turn \<Rightarrow> app_state \<Rightarrow> loop_end" where
  "event_loop_turn J tu st =
     (case render J (tu_size tu) st of
        None \<Rightarrow> LoopPanicked st
      | Some screen \<Rightarrow>
          (case tu_draw tu of
             Some e \<Rightarrow> LoopFailed e st
           | None \<Rightarrow>
               (let st = fold handle_message (tu_messages tu) (handle_data_fetches (tu_rpcs tu) st) in
                case tu_input tu of
                  Inl e \<Rightarrow> LoopFailed e st
                | Inr key \<Rightarrow>
                    (let acted = (case key of
                           None \<Rightarrow> Some st
                         | Some k \<Rightarrow>
                             (case handle_key_event k (active_tab st) of
                                None \<Rightarrow> None
                              | Some None \<Rightarrow> Some st
                              | Some (Some action) \<Rightarrow> Some (apply_action action st)))
                     in case acted of
                          None \<Rightarrow> LoopPanicked st
                        | Some st \<Rightarrow> if should_quit st then LoopQuit st else Looping st))))"

fun run_event_loop :: "'j ui_ops \<Rightarrow> turn list \<Rightarrow> app_state \<Rightarrow> loop_end" where
  "run_event_loop J [] st = Looping st"
| "run_event_loop J (tu # tus) st =
     (case event_loop_turn J tu st of Looping st' \<Rightarrow> run_event_loop J tus st' | r \<Rightarrow> r)"

subsection \<open>The program\<close>

datatype console_exit = ConsoleRunning | ConsoleExit nat string | ConsoleOk | ConsoleErr string | ConsolePanic

text \<open>The panic hook restores the terminal, ignoring errors, whichever task panics.\<close>

definition panic_hook :: "terminal_io \<Rightarrow> terminal \<Rightarrow> terminal" where
  "panic_hook io t = snd (restore_terminal io t)"

definition initial_state :: "string \<Rightarrow> app_state" where
  "initial_state addr = (app_new addr)\<lparr>streams_loading := True\<rparr>"

text \<open>
  The relay task runs beside the loop. A tick says which responses it handles before the channel has been
  drained in this turn and which afterwards. When it panics, the hook restores the terminal and the loop
  goes on.
\<close>

record tick = turn_env +
  tk_before :: "stream_message list"
  tk_after :: "stream_message list"

record 'tx console =
  co_state :: app_state
  co_terminal :: terminal
  co_relay :: "'tx task"

definition relay_step ::
  "'tx mpsc_ops \<Rightarrow> (status \<Rightarrow> string) \<Rightarrow> terminal_io \<Rightarrow> stream_message list \<Rightarrow> 'tx console \<Rightarrow> 'tx console" where
  "relay_step M D io rs co =
     (case co_relay co of
        TaskWaiting tx \<Rightarrow>
          (case subscription_loop M D tx rs of
             TaskPanicked tx' \<Rightarrow> co\<lparr>co_relay := TaskPanicked tx', co_terminal := panic_hook io (co_terminal co)\<rparr>
           | relay \<Rightarrow> co\<lparr>co_relay := relay\<rparr>)
      | _ \<Rightarrow> co)"

definition drain_step :: "'tx mpsc_ops \<Rightarrow> 'tx console \<Rightarrow> subscription_msg list \<times> 'tx console" where
  "drain_step M co =
     (case rx_drain M (task_tx (co_relay co)) of
        (taken_msgs, tx) \<Rightarrow> (taken_msgs, co\<lparr>co_relay := map_task (\<lambda>_. tx) (co_relay co)\<rparr>))"

definition turn_of :: "tick \<Rightarrow> subscription_msg list \<Rightarrow> turn" where
  "turn_of tick taken_msgs =
     \<lparr>tu_size = tu_size tick, tu_draw = tu_draw tick, tu_rpcs = tu_rpcs tick, tu_input = tu_input tick,
      tu_messages = taken_msgs\<rparr>"

definition console_turn ::
  "'tx mpsc_ops \<Rightarrow> (status \<Rightarrow> string) \<Rightarrow> terminal_io \<Rightarrow> 'j ui_ops \<Rightarrow> tick \<Rightarrow> 'tx console \<Rightarrow> loop_end \<times> 'tx console" where
  "console_turn M D io J tick co =
     (case drain_step M (relay_step M D io (tk_before tick) co) of
        (taken_msgs, co) \<Rightarrow>
          (let outcome = event_loop_turn J (turn_of tick taken_msgs) (co_state co)
           in (outcome, relay_step M D io (tk_after tick) (co\<lparr>co_state := loop_state outcome\<rparr>))))"

fun run_console ::
  "'tx mpsc_ops \<Rightarrow> (status \<Rightarrow> string) \<Rightarrow> terminal_io \<Rightarrow> 'j ui_ops \<Rightarrow> tick list \<Rightarrow> 'tx console
     \<Rightarrow> loop_end \<times> 'tx console" where
  "run_console M D io J [] co = (Looping (co_state co), co)"
| "run_console M D io J (tick # ticks) co =
     (case console_turn M D io J tick co of
        (Looping _, co') \<Rightarrow> run_console M D io J ticks co'
      | r \<Rightarrow> r)"

text \<open>
  \<open>subscribe\<close> is the outcome of the relay task's call, \<open>Some\<close> for an error status. The result is how the main
  task stands, the terminal, and the relay task if it was spawned.
\<close>

definition console_main ::
  "'tx mpsc_ops \<Rightarrow> (status \<Rightarrow> string) \<Rightarrow> 'j ui_ops \<Rightarrow> (string \<Rightarrow> io_error + bytes) \<Rightarrow> ('ep, 'chan) transport_ops
     \<Rightarrow> terminal_io \<Rightarrow> cli \<Rightarrow> status option \<Rightarrow> tick list \<Rightarrow> terminal \<Rightarrow> console_exit \<times> terminal \<times> 'tx task option" where
  "console_main M D J read_file T io cli subscribe ticks t =
     (case validate_tls_flags cli of
        Some message \<Rightarrow> (ConsoleExit 1 message, t, None)
      | None \<Rightarrow>
          (case build_tls_options read_file cli of
             None \<Rightarrow> (ConsolePanic, t, None)
           | Some (Inl e) \<Rightarrow> (ConsoleErr ''Failed to build TLS options'', t, None)
           | Some (Inr tls_options) \<Rightarrow>
               (case client_connect T (cl_addr cli) tls_options of
                  Inl e \<Rightarrow> (ConsoleErr ''Failed to connect to EventfoldDB server'', t, None)
                | Inr client \<Rightarrow>
                    (case init_terminal io t of
                       (Some e, t) \<Rightarrow> (ConsoleErr ''Failed to initialize terminal'', t, None)
                     | (None, t) \<Rightarrow>
                         (let rpc = (\<lambda>from_position. case subscribe of Some e \<Rightarrow> Inl e | None \<Rightarrow> Inr []);
                              relay = spawn_subscription M D rpc 0 (ch_new M 1024);
                              (result, co) = run_console M D io J ticks
                                \<lparr>co_state = initial_state (cl_addr cli), co_terminal = t, co_relay = relay\<rparr>;
                              finish = (\<lambda>result. case restore_terminal io (co_terminal co) of
                                (Some e, t) \<Rightarrow> (ConsoleErr ''Failed to restore terminal'', t, Some (co_relay co))
                              | (None, t) \<Rightarrow> (result, t, Some (co_relay co)))
                          in case result of
                               Looping st \<Rightarrow> (ConsoleRunning, co_terminal co, Some (co_relay co))
                             | LoopQuit st \<Rightarrow> finish ConsoleOk
                             | LoopFailed e st \<Rightarrow> finish (ConsoleErr e)
                             | LoopPanicked st \<Rightarrow> (ConsolePanic, panic_hook io (co_terminal co), Some (co_relay co)))))))"

subsection \<open>What a turn leaves alone\<close>

lemma fetches_live [simp]:
  "live_events (handle_data_fetches R st) = live_events st"
  "live_cursor (handle_data_fetches R st) = live_cursor st"
  "live_caught_up (handle_data_fetches R st) = live_caught_up st"
  by (simp_all add: handle_data_fetches_def Let_def split: sum.split option.split)

lemma message_global [simp]:
  "global_events (fold handle_message ms st) = global_events st"
proof (induction ms arbitrary: st)
  case (Cons m ms)
  then show ?case by (cases m) (simp_all add: push_live_event_def Let_def)
qed simp

lemma action_global [simp]: "global_events (apply_action a st) = global_events st"
  by (cases a; cases "active_tab st")
    (auto simp: apply_action_def current_cursor_mut_def Let_def split: option.splits)

lemma action_caught_up [simp]: "live_caught_up (apply_action a st) = live_caught_up st"
  by (cases a; cases "active_tab st")
    (auto simp: apply_action_def current_cursor_mut_def Let_def split: option.splits)

lemma app_inv_fetches [inv_intros]: "app_inv st \<Longrightarrow> app_inv (handle_data_fetches R st)"
  by (simp add: app_inv_def)

lemma app_inv_caught_up [simp]: "app_inv (st\<lparr>live_caught_up := b\<rparr>) = app_inv st"
  by (simp add: app_inv_def)

lemma app_inv_message [inv_intros]: "app_inv st \<Longrightarrow> app_inv (handle_message m st)"
  by (cases m) (simp_all add: app_inv_push)

lemma app_inv_messages [inv_intros]: "app_inv st \<Longrightarrow> app_inv (fold handle_message ms st)"
  by (induction ms arbitrary: st) (auto intro: inv_intros)

lemma app_inv_initial: "app_inv (initial_state addr)"
  by (simp add: app_inv_def initial_state_def app_new_def)

lemma message_quit [simp]: "should_quit (fold handle_message ms st) = should_quit st"
proof (induction ms arbitrary: st)
  case (Cons m ms)
  then show ?case by (cases m) (simp_all add: push_live_event_def Let_def)
qed simp

lemma fetch_quit [simp]: "should_quit (handle_data_fetches R st) = should_quit st"
  by (simp add: handle_data_fetches_def Let_def split: sum.split option.split)

text \<open>One turn that goes on: the data fetches, the messages, and at most one action.\<close>

lemma turn_Looping:
  assumes "event_loop_turn J tu st = Looping st'"
  obtains "st' = fold handle_message (tu_messages tu) (handle_data_fetches (tu_rpcs tu) st)"
  | a where "st' = apply_action a
                (fold handle_message (tu_messages tu) (handle_data_fetches (tu_rpcs tu) st))"
  using assms
  by (auto simp: event_loop_turn_def Let_def split: option.splits sum.splits if_splits)

lemma turn_inv: "event_loop_turn J tu st = Looping st' \<Longrightarrow> app_inv st \<Longrightarrow> app_inv st'"
  by (erule turn_Looping) (auto intro!: inv_intros)

lemma turn_no_panic: "app_inv st \<Longrightarrow> ratatui J \<Longrightarrow> event_loop_turn J tu st \<noteq> LoopPanicked s"
  using ratatui.render_defined [of J st "tu_size tu"]
  by (auto simp: event_loop_turn_def Let_def key_never_panics split: option.splits sum.splits if_splits)

subsection \<open>The relay task beside the loop\<close>

text \<open>The hook runs once, when the task panics.\<close>

definition hooked :: "terminal_io \<Rightarrow> 'tx console \<Rightarrow> 'tx console \<Rightarrow> bool" where
  "hooked io co co' \<longleftrightarrow>
     (task_panicked (co_relay co) \<longrightarrow> task_panicked (co_relay co')) \<and>
     co_terminal co' = (if task_panicked (co_relay co') \<and> \<not> task_panicked (co_relay co)
                        then panic_hook io (co_terminal co) else co_terminal co)"

lemma hooked_refl [simp]: "hooked io co co"
  by (simp add: hooked_def)

lemma hooked_trans: "hooked io a b \<Longrightarrow> hooked io b c \<Longrightarrow> hooked io a c"
  by (cases "task_panicked (co_relay a)"; cases "task_panicked (co_relay b)"; cases "task_panicked (co_relay c)")
    (simp_all add: hooked_def)

lemma relay_step_hooked: "hooked io co (relay_step M D io rs co)"
proof (cases "co_relay co")
  case (TaskWaiting tx)
  then show ?thesis by (cases "subscription_loop M D tx rs") (simp_all add: hooked_def relay_step_def)
qed (simp_all add: relay_step_def)

lemma relay_step_state [simp]: "co_state (relay_step M D io rs co) = co_state co"
  by (simp add: relay_step_def split: task.splits)

lemma drain_step_state [simp]: "co_state (snd (drain_step M co)) = co_state co"
  by (simp add: drain_step_def split: prod.splits)

lemma drain_step_hooked: "hooked io co (snd (drain_step M co))"
  by (simp add: hooked_def drain_step_def task.map_disc_iff split: prod.splits)

lemma console_turn_split:
  assumes "console_turn M D io J tick co = (r, co')"
  obtains taken_msgs co1 where "drain_step M (relay_step M D io (tk_before tick) co) = (taken_msgs, co1)"
    "r = event_loop_turn J (turn_of tick taken_msgs) (co_state co)"
    "co' = relay_step M D io (tk_after tick) (co1\<lparr>co_state := loop_state r\<rparr>)"
proof -
  obtain taken_msgs co1 where d: "drain_step M (relay_step M D io (tk_before tick) co) = (taken_msgs, co1)" by fastforce
  then have "co_state co1 = co_state co"
    using drain_step_state [of M "relay_step M D io (tk_before tick) co"] by simp
  with assms d that show ?thesis by (auto simp: console_turn_def Let_def)
qed

lemma hooked_state [simp]: "hooked io (co\<lparr>co_state := st\<rparr>) co' = hooked io co co'"
  by (simp add: hooked_def)

lemma console_turn_hooked:
  assumes "console_turn M D io J tick co = (r, co')"
  shows "hooked io co co'"
proof -
  from assms obtain taken_msgs co1 where d: "drain_step M (relay_step M D io (tk_before tick) co) = (taken_msgs, co1)"
    and co': "co' = relay_step M D io (tk_after tick) (co1\<lparr>co_state := loop_state r\<rparr>)"
    by (rule console_turn_split)
  have "hooked io co co1"
    using hooked_trans [OF relay_step_hooked [of io co M D "tk_before tick"] drain_step_hooked [of io _ M]] d by simp
  moreover have "hooked io co1 co'"
    using relay_step_hooked [of io "co1\<lparr>co_state := loop_state r\<rparr>" M D "tk_after tick"] by (simp add: co')
  ultimately show ?thesis by (rule hooked_trans)
qed

lemma run_console_hooked: "run_console M D io J ticks co = (r, co') \<Longrightarrow> hooked io co co'"
proof (induction ticks arbitrary: co)
  case (Cons tick ticks)
  obtain r1 co1 where t: "console_turn M D io J tick co = (r1, co1)" by fastforce
  from console_turn_hooked [OF t] Cons t show ?case
    by (cases r1) (auto intro: hooked_trans)
qed simp

text \<open>The loop of the program is the event loop on the messages the task has sent.\<close>

lemma run_console_event_loop:
  "run_console M D io J ticks co = (r, co') \<Longrightarrow> \<exists>turns. run_event_loop J turns (co_state co) = r"
proof (induction ticks arbitrary: co)
  case Nil
  then show ?case by (auto intro: exI [of _ "[]"])
next
  case (Cons tick ticks)
  obtain r1 co1 where t: "console_turn M D io J tick co = (r1, co1)" by fastforce
  from t obtain taken_msgs where
    r1: "r1 = event_loop_turn J (turn_of tick taken_msgs) (co_state co)" "co_state co1 = loop_state r1"
    by (rule console_turn_split) auto
  show ?case
  proof (cases r1)
    case (Looping st)
    with Cons.prems t have "run_console M D io J ticks co1 = (r, co')" by simp
    moreover have "co_state co1 = st" using r1(2) Looping by simp
    ultimately obtain turns where "run_event_loop J turns st = r" using Cons.IH by blast
    moreover have "event_loop_turn J (turn_of tick taken_msgs) (co_state co) = Looping st" using r1(1) Looping by simp
    ultimately show ?thesis by (intro exI [of _ "turn_of tick taken_msgs # turns"]) simp
  qed (use Cons.prems t r1(1) in \<open>auto intro!: exI [of _ "[turn_of tick taken_msgs]"] split: loop_end.split\<close>)
qed

lemma loop_no_panic:
  "app_inv st \<Longrightarrow> ratatui J \<Longrightarrow> run_event_loop J tus st \<noteq> LoopPanicked s"
proof (induction tus arbitrary: st)
  case (Cons tu tus)
  then show ?case
    using turn_no_panic [of st J tu] turn_inv [of J tu st]
    by (cases "event_loop_turn J tu st") auto
qed simp

definition responses :: "tick list \<Rightarrow> stream_message list" where
  "responses ticks = concat (map (\<lambda>tick. tk_before tick @ tk_after tick) ticks)"

context mpsc_channel
begin

lemma relay_state_relay_step:
  assumes "relay_state sent receiving rs (co_relay co)"
  shows "relay_state sent receiving (rs @ xs) (co_relay (relay_step M D io xs co))"
proof (cases "co_relay co")
  case (TaskWaiting tx)
  with relay_state_step [of rs tx xs D] assms show ?thesis
    by (auto simp: relay_step_def split: task.splits)
qed (use assms in \<open>auto simp: relay_step_def relay_state_def stream_end_append relayed_append\<close>)

lemma console_turn_relay:
  assumes "console_turn M D io J tick co = (r, co')" and "relay_state sent receiving rs (co_relay co)"
  shows "relay_state sent receiving (rs @ tk_before tick @ tk_after tick) (co_relay co')"
proof -
  from assms(1) obtain taken_msgs co1 where d: "drain_step M (relay_step M D io (tk_before tick) co) = (taken_msgs, co1)"
    and co': "co' = relay_step M D io (tk_after tick) (co1\<lparr>co_state := loop_state r\<rparr>)"
    by (rule console_turn_split)
  note before = relay_state_relay_step [OF assms(2), of "tk_before tick" D io]
  from d relay_state_drain [OF before] have "relay_state sent receiving (rs @ tk_before tick) (co_relay co1)"
    by (auto simp: drain_step_def split: prod.splits)
  then have "relay_state sent receiving (rs @ tk_before tick) (co_relay (co1\<lparr>co_state := loop_state r\<rparr>))" by simp
  from relay_state_relay_step [OF this, of "tk_after tick" D io] show ?thesis by (simp add: co')
qed

lemma run_console_relay:
  "run_console M D io J ticks co = (r, co') \<Longrightarrow> relay_state sent receiving rs (co_relay co) \<Longrightarrow>
   \<exists>n \<le> length ticks. (\<forall>st. r = Looping st \<longrightarrow> n = length ticks) \<and>
     relay_state sent receiving (rs @ responses (take n ticks)) (co_relay co')"
proof (induction ticks arbitrary: co rs)
  case Nil
  then show ?case by (auto simp: responses_def)
next
  case (Cons tick ticks)
  obtain r1 co1 where t: "console_turn M D io J tick co = (r1, co1)" by fastforce
  note relay = console_turn_relay [OF t Cons.prems(2)]
  show ?case
  proof (cases r1)
    case (Looping st)
    with Cons.prems(1) t have "run_console M D io J ticks co1 = (r, co')" by simp
    from Cons.IH [OF this relay] obtain n where "n \<le> length ticks" "\<forall>st. r = Looping st \<longrightarrow> n = length ticks"
      "relay_state sent receiving ((rs @ tk_before tick @ tk_after tick) @ responses (take n ticks)) (co_relay co')"
      by blast
    then show ?thesis by (intro exI [of _ "Suc n"]) (simp add: responses_def)
  qed (use Cons.prems(1) t relay in \<open>auto intro!: exI [of _ 1] simp: responses_def\<close>)
qed

end

text \<open>A task whose call failed has returned for good.\<close>

lemma run_console_returned:
  "run_console M D io J ticks co = (r, co') \<Longrightarrow> co_relay co = TaskReturned tx \<Longrightarrow> \<exists>tx'. co_relay co' = TaskReturned tx'"
proof (induction ticks arbitrary: co tx)
  case (Cons tick ticks)
  obtain r1 co1 where t: "console_turn M D io J tick co = (r1, co1)" by fastforce
  then have "\<exists>tx'. co_relay co1 = TaskReturned tx'"
    by (rule console_turn_split) (use Cons.prems(2) in \<open>auto simp: relay_step_def drain_step_def split: prod.splits\<close>)
  with Cons t show ?case by (cases r1) auto
qed auto

lemma flags_no_panic: "validate_tls_flags cli = None \<Longrightarrow> build_tls_options rf cli \<noteq> None"
  by (auto simp: validate_tls_flags_def build_tls_options_def Let_def
      split: option.splits sum.splits if_splits)

subsection \<open>The live buffer\<close>

fun message_event :: "subscription_msg \<Rightarrow> event_record option" where
  "message_event (SubEvent e) = Some e"
| "message_event _ = None"

lemma map_filter_append: "List.map_filter f (xs @ ys) = List.map_filter f xs @ List.map_filter f ys"
  by (simp add: List.map_filter_def)

lemma messages_live:
  "live_events st = newest LIVE_TAIL_CAPACITY xs \<Longrightarrow>
   live_events (fold handle_message ms st) = newest LIVE_TAIL_CAPACITY (xs @ List.map_filter message_event ms)"
proof (induction ms arbitrary: st xs)
  case (Cons m ms)
  show ?case
  proof (cases m)
    case (SubEvent e)
    with Cons.IH [OF live_events_push [OF Cons.prems]] show ?thesis by simp
  qed (use Cons in simp_all)
qed simp

lemma messages_caught_up:
  "live_caught_up (fold handle_message ms st) \<longleftrightarrow> live_caught_up st \<or> SubCaughtUp \<in> set ms"
proof (induction ms arbitrary: st)
  case (Cons m ms)
  then show ?case by (cases m) (auto simp: push_live_event_def Let_def)
qed simp

lemma loop_live:
  "run_event_loop J tus st = Looping st' \<Longrightarrow> live_events st = newest LIVE_TAIL_CAPACITY xs \<Longrightarrow>
   live_events st' =
     newest LIVE_TAIL_CAPACITY (xs @ List.map_filter message_event (concat (map tu_messages tus))) \<and>
   (live_caught_up st' \<longleftrightarrow> live_caught_up st \<or> SubCaughtUp \<in> set (concat (map tu_messages tus)))"
proof (induction tus arbitrary: st xs)
  case (Cons tu tus)
  then obtain st1 where st1: "event_loop_turn J tu st = Looping st1"
    and run: "run_event_loop J tus st1 = Looping st'" by (auto split: loop_end.splits)
  have "live_events st1 = newest LIVE_TAIL_CAPACITY (xs @ List.map_filter message_event (tu_messages tu))"
    and "live_caught_up st1 \<longleftrightarrow> live_caught_up st \<or> SubCaughtUp \<in> set (tu_messages tu)"
    using st1 Cons.prems(2)
    by (auto elim!: turn_Looping simp: messages_caught_up intro!: messages_live)
  with Cons.IH [OF run, of "xs @ List.map_filter message_event (tu_messages tu)"] show ?case
    by (auto simp: map_filter_append)
qed (simp add: newest_def)

subsection \<open>The pages the views load\<close>

lemma take_numbered_positions:
  assumes "numbered es" "length es < 2 ^ 64" "e \<in> set (take n es)"
  shows "unat (re_global_position e) < n"
proof -
  from assms(3) obtain i where i: "i < length (take n es)" "take n es ! i = e"
    by (auto simp: in_set_conv_nth)
  then have "re_global_position e = of_nat i" using assms(1) by (auto simp: numbered_def)
  moreover have "unat (of_nat i :: u64) = i" using i assms(2) by (intro unat_of_nat_less) simp
  ultimately show ?thesis using i by simp
qed

lemma unat_page_size: "unat READ_PAGE_SIZE = 1000"
  by (simp add: READ_PAGE_SIZE_def)

lemma fetch_global:
  assumes "log_wf (ri_log r)" "global_loading st"
  shows "global_events (handle_data_fetches (server_rpcs U crash m r) st) =
    map (proto_to_event_record \<circ> recorded_to_proto U) (take 1000 (el_events (ri_log r)))"
  using assms srv.client_read_all_page [OF assms(1), of U crash m 0 READ_PAGE_SIZE]
  by (simp add: handle_data_fetches_def Let_def unat_page_size split: sum.split option.split)

lemma fetch_global_off:
  "\<not> global_loading st \<Longrightarrow> global_events (handle_data_fetches R st) = global_events st"
  by (simp add: handle_data_fetches_def Let_def split: sum.split option.split)

definition first_page_only :: "app_state \<Rightarrow> bool" where
  "first_page_only st \<longleftrightarrow> (\<forall>e \<in> set (global_events st). unat (ev_global_position e) < 1000)"

lemma fetch_first_page:
  assumes "log_wf (ri_log r)" "first_page_only st"
  shows "first_page_only (handle_data_fetches (server_rpcs U crash m r) st)"
proof (cases "global_loading st")
  case True
  have "unat (re_global_position e) < 1000" if "e \<in> set (take 1000 (el_events (ri_log r)))" for e
    using take_numbered_positions [OF _ _ that] assms(1) by (simp add: log_wf_def)
  with True show ?thesis
    by (auto simp: first_page_only_def fetch_global [OF assms(1)] proto_to_event_record_def
        recorded_to_proto_def)
qed (use assms in \<open>simp add: first_page_only_def fetch_global_off\<close>)

lemma loop_first_page:
  assumes "\<forall>tu \<in> set tus. \<exists>m r. tu_rpcs tu = server_rpcs U crash m r \<and> log_wf (ri_log r)"
    and "run_event_loop J tus st = Looping st'" and "first_page_only st"
  shows "first_page_only st'"
  using assms
proof (induction tus arbitrary: st)
  case (Cons tu tus)
  then obtain st1 where st1: "event_loop_turn J tu st = Looping st1"
    and run: "run_event_loop J tus st1 = Looping st'" by (auto split: loop_end.splits)
  from Cons.prems(1) obtain m r where r: "tu_rpcs tu = server_rpcs U crash m r" "log_wf (ri_log r)"
    by auto
  have "first_page_only st1"
    using st1 fetch_first_page [OF r(2) Cons.prems(3), of U crash m] r(1)
    by (auto elim!: turn_Looping simp: first_page_only_def)
  with Cons.IH [OF _ run] Cons.prems(1) show ?case by simp
qed simp

subsection \<open>Properties\<close>

lemma restore_terminal_ok:
  "tio_disable_raw_mode io = None \<Longrightarrow> tio_leave_alternate io = None \<Longrightarrow>
   restore_terminal io t = (None, \<lparr>tm_raw_mode = False, tm_alternate_screen = False\<rparr>)"
  by (cases t) (simp add: restore_terminal_def)

definition demo_transport :: "(unit, unit) transport_ops" where
  "demo_transport = \<lparr>tp_from_shared = (\<lambda>_. Inr ()), tp_tls_config = (\<lambda>_ _. Inr ()),
                     tp_connect = (\<lambda>_. Inr ())\<rparr>"

definition demo_terminal_io :: terminal_io where
  "demo_terminal_io = \<lparr>tio_enable_raw_mode = None, tio_enter_alternate = None, tio_terminal_new = None,
                       tio_disable_raw_mode = None, tio_leave_alternate = None\<rparr>"

definition demo_cli :: cli where
  "demo_cli = \<lparr>cl_addr = ''http://[::1]:2113'', cl_tls = False, cl_tls_ca = None,
               cl_tls_client_cert = None, cl_tls_client_key = None\<rparr>"

definition demo_rpcs :: rpc_ops where
  "demo_rpcs = server_rpcs demo_uuid_ops (Status Unknown []) \<lparr>sm_reads_stream = 0, sm_reads_all = 0,
                 sm_subscriptions_active = 0\<rparr> (read_index_new demo_log)"

definition demo_received :: "proto_recorded_event" where
  "demo_received = \<lparr>pr_event_id = [], pr_stream_id = [], pr_stream_version = 0, pr_global_position = 0,
                 pr_event_type = ascii ''T'', pr_metadata = [], pr_payload = [], pr_recorded_at = 0\<rparr>"

text \<open>A key press turn: nothing fails, the given messages arrive.\<close>

definition demo_turn :: "subscription_msg list \<Rightarrow> key_code option \<Rightarrow> turn" where
  "demo_turn ms k = \<lparr>tu_size = demo_frame, tu_draw = None, tu_rpcs = demo_rpcs,
     tu_input = Inr (map_option (\<lambda>c. \<lparr>ke_code = c, ke_control = False\<rparr>) k), tu_messages = ms\<rparr>"

definition demo_tick :: "stream_message list \<Rightarrow> key_code option \<Rightarrow> tick" where
  "demo_tick rs k = \<lparr>tu_size = demo_frame, tu_draw = None, tu_rpcs = demo_rpcs,
     tu_input = Inr (map_option (\<lambda>c. \<lparr>ke_code = c, ke_control = False\<rparr>) k), tk_before = rs, tk_after = []\<rparr>"

lemma demo_turn_of: "turn_of (demo_tick rs k) ms = demo_turn ms k"
  by (simp add: turn_of_def demo_tick_def demo_turn_def)

lemma demo_turn_idle:
  assumes "app_inv st" "\<not> should_quit st"
  shows "event_loop_turn demo_ui (demo_turn ms None) st =
     Looping (fold handle_message ms (handle_data_fetches demo_rpcs st))"
proof -
  obtain y where "render demo_ui demo_frame st = Some y"
    using du.render_defined [OF assms(1)] by blast
  with assms(2) show ?thesis by (simp add: event_loop_turn_def demo_turn_def)
qed

lemma switch_quit [simp]: "should_quit (apply_action (SwitchTab tab) st) = should_quit st"
  by (simp add: apply_action_def Let_def)

lemma key_3: "ke_code k = Char CHR ''3'' \<Longrightarrow> handle_key_event k tab = Some (Some (SwitchTab GlobalLog))"
  by (simp add: handle_key_event_def)

lemma demo_turn_3:
  assumes "app_inv st" "\<not> should_quit st"
  shows "event_loop_turn demo_ui (demo_turn [] (Some (Char CHR ''3''))) st =
     Looping (apply_action (SwitchTab GlobalLog) (handle_data_fetches demo_rpcs st))"
proof -
  obtain y where "render demo_ui demo_frame st = Some y"
    using du.render_defined [OF assms(1)] by blast
  with assms(2) show ?thesis by (simp add: event_loop_turn_def demo_turn_def key_3)
qed

text \<open>The state in which \<open>main\<close> enters the loop, and what comes out of it.\<close>

definition console_start :: "'tx mpsc_ops \<Rightarrow> (status \<Rightarrow> string) \<Rightarrow> cli \<Rightarrow> status option \<Rightarrow> terminal \<Rightarrow> 'tx console" where
  "console_start M D cli subscribe t =
     \<lparr>co_state = initial_state (cl_addr cli), co_terminal = t,
      co_relay = spawn_subscription M D (\<lambda>from_position. case subscribe of Some e \<Rightarrow> Inl e | None \<Rightarrow> Inr []) 0 (ch_new M 1024)\<rparr>"

lemma console_main_cases:
  assumes "console_main M D J read_file T io cli subscribe ticks t = (exit, t', relay)"
  obtains (early) "relay = None" "exit \<noteq> ConsoleRunning" "exit \<noteq> ConsolePanic" "t' = t"
  | (terminal) e where "relay = None" "exit \<noteq> ConsoleRunning" "exit \<noteq> ConsolePanic" "init_terminal io t = (Some e, t')"
  | (entered) t1 result co where "init_terminal io t = (None, t1)" "relay = Some (co_relay co)"
      "run_console M D io J ticks (console_start M D cli subscribe t1) = (result, co)"
      "(\<exists>st. result = Looping st) \<and> exit = ConsoleRunning \<and> t' = co_terminal co \<or>
       (\<exists>st. result = LoopPanicked st) \<and> exit = ConsolePanic \<and> t' = panic_hook io (co_terminal co) \<or>
       exit \<noteq> ConsoleRunning \<and> exit \<noteq> ConsolePanic \<and> t' = snd (restore_terminal io (co_terminal co))"
proof (cases "validate_tls_flags cli")
  case None
  obtain options where options: "build_tls_options read_file cli = Some options"
    using flags_no_panic [OF None, of read_file] by blast
  obtain e t1 where init: "init_terminal io t = (e, t1)" by fastforce
  let ?start = "\<lparr>co_state = initial_state (cl_addr cli), co_terminal = t1, co_relay = spawn_subscription M D
    (\<lambda>from_position. case subscribe of Some e \<Rightarrow> Inl e | None \<Rightarrow> Inr []) 0 (ch_new M 1024)\<rparr>"
  obtain result co where run: "run_console M D io J ticks ?start = (result, co)" by fastforce
  obtain f t2 where restore: "restore_terminal io (co_terminal co) = (f, t2)" by fastforce
  consider (no_tls) e where "options = Inl e" | (no_client) tls e where "options = Inr tls" "client_connect T (cl_addr cli) tls = Inl e"
    | (client) tls c where "options = Inr tls" "client_connect T (cl_addr cli) tls = Inr c"
    by (metis old.sum.exhaust)
  then show ?thesis
  proof cases
    case client
    note main = assms [unfolded console_main_def None option.case options client sum.case init prod.case Let_def run restore]
    show ?thesis
    proof (cases e)
      case None
      show ?thesis
      proof (rule entered)
        show "init_terminal io t = (None, t1)" using init None by simp
        show "run_console M D io J ticks (console_start M D cli subscribe t1) = (result, co)"
          using run by (simp add: console_start_def)
        show "relay = Some (co_relay co)" using main None by (cases result; cases f) simp_all
        show "(\<exists>st. result = Looping st) \<and> exit = ConsoleRunning \<and> t' = co_terminal co \<or>
            (\<exists>st. result = LoopPanicked st) \<and> exit = ConsolePanic \<and> t' = panic_hook io (co_terminal co) \<or>
            exit \<noteq> ConsoleRunning \<and> exit \<noteq> ConsolePanic \<and> t' = snd (restore_terminal io (co_terminal co))"
          using main None restore by (cases result; cases f) auto
      qed
    qed (use main init in \<open>auto intro: terminal\<close>)
  qed (use assms None options in \<open>auto simp: console_main_def intro: early\<close>)
qed (use assms early in \<open>auto simp: console_main_def\<close>)

lemma console_start_relay:
  assumes "mpsc_channel M sent taken receiving" and "subscribe = None"
  shows "relay_state sent receiving [] (co_relay (console_start M D cli subscribe t))"
  using mpsc_channel.new_channel [OF assms(1), of 1024] assms(2)
  by (simp add: console_start_def spawn_subscription_def client_subscribe_all_def map_err_def relay_state_def)

lemma console_start_failed:
  "subscribe = Some e \<Longrightarrow> \<exists>tx. co_relay (console_start M D cli subscribe t) = TaskReturned tx"
  by (simp add: console_start_def spawn_subscription_def client_subscribe_all_def map_err_def split: option.split)

lemma console_start_terminal:
  assumes "mpsc_channel M sent taken receiving"
  shows "co_terminal (console_start M D cli subscribe t) = t" "\<not> task_panicked (co_relay (console_start M D cli subscribe t))"
proof -
  show "co_terminal (console_start M D cli subscribe t) = t" by (simp add: console_start_def)
  show "\<not> task_panicked (co_relay (console_start M D cli subscribe t))"
  proof (cases subscribe)
    case None
    from console_start_relay [OF assms None, of D cli t] show ?thesis
      by (cases "co_relay (console_start M D cli subscribe t)") (simp_all add: relay_state_def)
  next
    case (Some e)
    then show ?thesis using console_start_failed [OF Some, of M D cli t] by auto
  qed
qed

text \<open>What the relay task has come to when the loop has run.\<close>

lemma console_relay_outcome:
  assumes "mpsc_channel M sent taken receiving"
    and "run_console M D io J ticks (console_start M D cli subscribe t) = (result, co)"
  shows "\<exists>n \<le> length ticks. (\<forall>st. result = Looping st \<longrightarrow> n = length ticks) \<and>
    (task_panicked (co_relay co) \<longleftrightarrow> subscribe = None \<and> (\<exists>e. stream_end (responses (take n ticks)) = Some (Some e))) \<and>
    (task_panicked (co_relay co) \<longrightarrow> (\<forall>m. SubError m \<notin> set (sent (task_tx (co_relay co)))))"
proof (cases subscribe)
  case None
  from mpsc_channel.run_console_relay [OF assms console_start_relay [OF assms(1) None]] obtain n where
    n: "n \<le> length ticks" "\<forall>st. result = Looping st \<longrightarrow> n = length ticks"
      "relay_state sent receiving (responses (take n ticks)) (co_relay co)" by auto
  then have "task_panicked (co_relay co) \<longleftrightarrow> (\<exists>e. stream_end (responses (take n ticks)) = Some (Some e))"
    "sent (task_tx (co_relay co)) = relayed (responses (take n ticks))"
    by (auto simp: relay_state_def split: task.splits)
  with n None show ?thesis by (auto simp: relayed_no_error)
next
  case (Some e)
  from console_start_failed [OF this] run_console_returned [OF assms(2)] have "\<not> task_panicked (co_relay co)" by fastforce
  with Some show ?thesis by auto
qed

text \<open>
  C31: the main task of the console never panics, and the relay task panics exactly when the server's stream
  fails. Assume that the JSON library can print every value it parsed and a layout has an area for every
  constraint. No sequence of keys, messages, server answers, resizes and failures then makes the flag handling,
  the tab cycle or the live tail's slice of the event buffer panic. The task that relays the live tail panics (in
  \<open>blocking_send\<close>) if and only if its subscription was accepted and among the responses it has handled an
  error comes before the end of the stream; in that case no error message reaches the event loop, and, if
  leaving raw mode and the alternate screen works, the still running loop draws on a terminal the panic hook
  has already restored.
\<close>

theorem console_only_relay_panics:
  assumes "ratatui J" and "mpsc_channel M sent taken receiving"
    and "console_main M D J read_file T io cli subscribe ticks t = (exit, t', relay)"
  shows "exit \<noteq> ConsolePanic \<and>
    (\<exists>n \<le> length ticks. (exit = ConsoleRunning \<longrightarrow> n = length ticks) \<and>
       ((\<exists>tx. relay = Some (TaskPanicked tx)) \<longleftrightarrow>
          relay \<noteq> None \<and> subscribe = None \<and> (\<exists>e. stream_end (responses (take n ticks)) = Some (Some e)))) \<and>
    (\<forall>tx m. relay = Some (TaskPanicked tx) \<longrightarrow> SubError m \<notin> set (sent tx)) \<and>
    (exit = ConsoleRunning \<and> tio_disable_raw_mode io = None \<and> tio_leave_alternate io = None \<longrightarrow>
       (\<exists>tx. relay = Some (TaskPanicked tx)) \<longrightarrow> t' = \<lparr>tm_raw_mode = False, tm_alternate_screen = False\<rparr>)"
  using assms(3)
proof (cases rule: console_main_cases)
  case (entered t1 result co)
  have no_panic: "result \<noteq> LoopPanicked st" for st
    using run_console_event_loop [OF entered(3)] loop_no_panic [OF app_inv_initial assms(1)]
    by (auto simp: console_start_def)
  have hook: "co_terminal co = (if task_panicked (co_relay co) then panic_hook io t1 else t1)"
    using run_console_hooked [OF entered(3)] console_start_terminal [OF assms(2)] by (simp add: hooked_def)
  have panicked: "(\<exists>tx. relay = Some (TaskPanicked tx)) \<longleftrightarrow> task_panicked (co_relay co)"
    unfolding entered(2) by (cases "co_relay co") auto
  obtain n where n: "n \<le> length ticks" "\<forall>st. result = Looping st \<longrightarrow> n = length ticks"
    "task_panicked (co_relay co) \<longleftrightarrow> subscribe = None \<and> (\<exists>e. stream_end (responses (take n ticks)) = Some (Some e))"
    "task_panicked (co_relay co) \<longrightarrow> (\<forall>m. SubError m \<notin> set (sent (task_tx (co_relay co))))"
    using console_relay_outcome [OF assms(2) entered(3)] by blast
  show ?thesis
  proof (intro conjI impI allI)
    show "exit \<noteq> ConsolePanic" using entered(4) no_panic by auto
    show "\<exists>n \<le> length ticks. (exit = ConsoleRunning \<longrightarrow> n = length ticks) \<and>
       ((\<exists>tx. relay = Some (TaskPanicked tx)) \<longleftrightarrow>
          relay \<noteq> None \<and> subscribe = None \<and> (\<exists>e. stream_end (responses (take n ticks)) = Some (Some e)))"
      using n(1-3) entered(4) unfolding panicked by (intro exI [of _ n]) (auto simp: entered(2))
    show "SubError m \<notin> set (sent tx)" if "relay = Some (TaskPanicked tx)" for tx m
      using n(4) that entered(2) by auto
    assume "exit = ConsoleRunning \<and> tio_disable_raw_mode io = None \<and> tio_leave_alternate io = None"
      and "\<exists>tx. relay = Some (TaskPanicked tx)"
    with entered(4) hook panicked restore_terminal_ok [of io t1]
    show "t' = \<lparr>tm_raw_mode = False, tm_alternate_screen = False\<rparr>" by (auto simp: panic_hook_def)
  qed
qed auto

lemma demo_entered:
  assumes "run_console mpsc_queue_ops D demo_terminal_io demo_ui ticks (console_start mpsc_queue_ops D demo_cli None
      \<lparr>tm_raw_mode = True, tm_alternate_screen = True\<rparr>) = (Looping st, co)"
  shows "console_main mpsc_queue_ops D demo_ui (\<lambda>_. Inr []) demo_transport demo_terminal_io demo_cli None ticks
      \<lparr>tm_raw_mode = False, tm_alternate_screen = False\<rparr> = (ConsoleRunning, co_terminal co, Some (co_relay co))"
  using assms
  by (simp add: console_main_def validate_tls_flags_def build_tls_options_def demo_cli_def client_connect_def
      demo_transport_def init_terminal_def demo_terminal_io_def tls_options_default_def map_err_def console_start_def)

text \<open>An event arrives, then the stream fails while the console is running.\<close>

theorem console_only_relay_panics_witness:
  "\<exists>t' tx. console_main mpsc_queue_ops (\<lambda>_. ''lagged'') demo_ui (\<lambda>_. Inr []) demo_transport demo_terminal_io demo_cli None
      [demo_tick [Inr (Some (Some (ContentEvent demo_received))), Inl (Status Internal ''lagged'')] None]
      \<lparr>tm_raw_mode = False, tm_alternate_screen = False\<rparr> = (ConsoleRunning, t', Some (TaskPanicked tx)) \<and>
    t' = \<lparr>tm_raw_mode = False, tm_alternate_screen = False\<rparr> \<and> (\<forall>m. SubError m \<notin> set (mq_sent tx))"
proof -
  let ?rs = "[Inr (Some (Some (ContentEvent demo_received))), Inl (Status Internal ''lagged'')]"
  let ?D = "\<lambda>_. ''lagged''" let ?t = "\<lparr>tm_raw_mode = False, tm_alternate_screen = False\<rparr>"
  let ?start = "console_start mpsc_queue_ops ?D demo_cli None \<lparr>tm_raw_mode = True, tm_alternate_screen = True\<rparr>"
  obtain r co where turn: "console_turn mpsc_queue_ops ?D demo_terminal_io demo_ui (demo_tick ?rs None) ?start = (r, co)" by fastforce
  then obtain ms where "r = event_loop_turn demo_ui (turn_of (demo_tick ?rs None) ms) (co_state ?start)"
    by (rule console_turn_split) auto
  then have "\<exists>st. r = Looping st"
    using demo_turn_idle [OF app_inv_initial, of "cl_addr demo_cli" ms]
    by (simp add: console_start_def demo_turn_of) (simp add: initial_state_def app_new_def)
  with turn have "\<exists>st. run_console mpsc_queue_ops ?D demo_terminal_io demo_ui [demo_tick ?rs None] ?start = (Looping st, co)"
    by auto
  then have main: "console_main mpsc_queue_ops ?D demo_ui (\<lambda>_. Inr []) demo_transport demo_terminal_io demo_cli None
      [demo_tick ?rs None] ?t = (ConsoleRunning, co_terminal co, Some (co_relay co))"
    using demo_entered by blast
  note only = console_only_relay_panics [OF du.ratatui_axioms mq.mpsc_channel_axioms main]
  have "responses (take 1 [demo_tick ?rs None]) = ?rs" by (simp add: responses_def demo_tick_def)
  with only obtain tx where tx: "co_relay co = TaskPanicked tx" by auto
  with only main show ?thesis by (auto simp: demo_terminal_io_def)
qed

text \<open>
  The global log tab never shows an event beyond the first page. Whatever keys are pressed and
  however the log grows, every event it lists has a position below 1000, since the loop always reads
  from position 0 with the fixed page size.
\<close>

lemma global_log_first_page_only:
  assumes "\<forall>tu \<in> set turns. \<exists>m r. tu_rpcs tu = server_rpcs U crash m r \<and> log_wf (ri_log r)"
    and "run_event_loop J turns (initial_state addr) = Looping st"
    and "e \<in> set (global_events st)"
  shows "unat (ev_global_position e) < 1000"
proof -
  have "first_page_only (initial_state addr)" by (simp add: first_page_only_def initial_state_def app_new_def)
  with loop_first_page [OF assms(1,2)] assms(3) show ?thesis by (simp add: first_page_only_def)
qed

lemma global_log_first_page_only_witness:
  "\<exists>st e. run_event_loop demo_ui [demo_turn [] (Some (Char CHR ''3'')), demo_turn [] None] (initial_state [])
      = Looping st \<and> e \<in> set (global_events st) \<and> unat (ev_global_position e) < 1000"
proof -
  let ?turns = "[demo_turn [] (Some (Char CHR ''3'')), demo_turn [] None]"
  let ?s = "apply_action (SwitchTab GlobalLog) (handle_data_fetches demo_rpcs (initial_state []))"
  let ?st = "handle_data_fetches demo_rpcs ?s"
  have inv: "app_inv ?s" by (intro inv_intros app_inv_initial)
  have loading: "global_loading ?s" "\<not> should_quit ?s"
    by (simp_all add: apply_action_def initial_state_def app_new_def handle_data_fetches_def Let_def
        split: sum.split)
  then have run: "run_event_loop demo_ui ?turns (initial_state []) = Looping ?st"
    using demo_turn_idle [OF inv, of "[]"] demo_turn_3 [OF app_inv_initial, of "[]"]
    by (simp add: initial_state_def app_new_def)
  have wf: "log_wf (ri_log (read_index_new demo_log))" by (simp add: read_index_new_def log_wf_demo_log)
  have rpcs: "\<forall>tu \<in> set ?turns. \<exists>m r. tu_rpcs tu =
      server_rpcs demo_uuid_ops (Status Unknown []) m r \<and> log_wf (ri_log r)"
    using wf by (auto simp: demo_turn_def demo_rpcs_def)
  have "length (global_events ?st) = 2"
    unfolding demo_rpcs_def using fetch_global [OF wf] loading(1) length_demo_log
    by (simp add: demo_rpcs_def read_index_new_def)
  then obtain e where "e \<in> set (global_events ?st)" by (cases "global_events ?st") auto
  with global_log_first_page_only [OF rpcs run this] run show ?thesis by blast
qed

text \<open>
  C33: once the terminal is set up, the program gives it back. If leaving raw mode and the alternate
  screen works, then however the loop ends (the quit key, a drawing or input error, a panic) the
  program leaves the terminal as it found it.
\<close>

theorem terminal_restored_on_exit:
  assumes "tio_disable_raw_mode io = None" and "tio_leave_alternate io = None"
    and "fst (init_terminal io t) = None \<or> tio_enable_raw_mode io \<noteq> None"
    and "t = \<lparr>tm_raw_mode = False, tm_alternate_screen = False\<rparr>"
    and "console_main M D J read_file T io cli subscribe ticks t = (exit, t', relay)" and "exit \<noteq> ConsoleRunning"
  shows "t' = t"
  using assms(5)
proof (cases rule: console_main_cases)
  case (terminal e)
  with assms(3) show ?thesis by (auto simp: init_terminal_def split: option.splits)
next
  case (entered t1 result co)
  with assms(4,6) restore_terminal_ok [OF assms(1,2), of "co_terminal co"] show ?thesis
    by (auto simp: panic_hook_def)
qed simp

theorem terminal_restored_on_exit_witness:
  "fst (snd (console_main mpsc_queue_ops (\<lambda>_. []) demo_ui (\<lambda>_. Inr []) demo_transport demo_terminal_io demo_cli None
     [(demo_tick [Inl (Status Internal ''lagged'')] None)\<lparr>tu_draw := Some ''broken pipe''\<rparr>]
     \<lparr>tm_raw_mode = False, tm_alternate_screen = False\<rparr>))
   = \<lparr>tm_raw_mode = False, tm_alternate_screen = False\<rparr>"
proof -
  let ?t = "\<lparr>tm_raw_mode = False, tm_alternate_screen = False\<rparr>"
  let ?tick = "(demo_tick [Inl (Status Internal ''lagged'')] None)\<lparr>tu_draw := Some ''broken pipe''\<rparr>"
  let ?start = "console_start mpsc_queue_ops (\<lambda>_. []) demo_cli None \<lparr>tm_raw_mode = True, tm_alternate_screen = True\<rparr>"
  obtain exit t' relay where main: "console_main mpsc_queue_ops (\<lambda>_. []) demo_ui (\<lambda>_. Inr []) demo_transport demo_terminal_io
      demo_cli None [?tick] ?t = (exit, t', relay)" by (metis prod_cases3)
  obtain r co where turn: "console_turn mpsc_queue_ops (\<lambda>_. []) demo_terminal_io demo_ui ?tick ?start = (r, co)" by fastforce
  then obtain ms where "r = event_loop_turn demo_ui (turn_of ?tick ms) (co_state ?start)"
    by (rule console_turn_split) auto
  moreover obtain y where "render demo_ui demo_frame (initial_state (cl_addr demo_cli)) = Some y"
    using du.render_defined [OF app_inv_initial] by blast
  ultimately have "r = LoopFailed ''broken pipe'' (initial_state (cl_addr demo_cli))"
    by (simp add: event_loop_turn_def turn_of_def demo_tick_def console_start_def)
  with turn have "exit \<noteq> ConsoleRunning"
    using main
    by (auto simp: console_main_def validate_tls_flags_def build_tls_options_def demo_cli_def client_connect_def
        demo_transport_def init_terminal_def demo_terminal_io_def tls_options_default_def map_err_def console_start_def
        restore_terminal_def)
  from terminal_restored_on_exit [OF _ _ _ refl main this] main show ?thesis
    by (simp add: demo_terminal_io_def init_terminal_def)
qed

end
