(* ===== verification/Spec2Isabelle.thy ===== *)
theory Spec2Isabelle
  imports Recovery_Faults Linearizability Shutdown Wire_Delivery Console_Main
begin

text \<open>
  EventfoldDB: a verification library of the event store and its console.

  \<^bold>\<open>The program.\<close> EventfoldDB keeps events in one append-only file. One writer task owns the file; it takes
  append requests from a channel, checks them, writes each request as one checksummed batch, updates a
  shared in-memory index, remembers the batch for deduplication and publishes it to subscribers. Readers
  and subscriptions look at the shared index; a gRPC service wraps all of this, optionally behind a JWT
  interceptor, and a metrics endpoint runs beside it. A terminal console is a client of the service.

  \<^bold>\<open>The theories\<close>, in the order they build on each other:
  \<^item> \<open>Efdb_Prelude\<close>: byte, word and result types, the lemma collections \<open>length_simps\<close>, \<open>decode_simps\<close> and
    \<open>inv_intros\<close>, little-endian integers with the locale \<open>fixed_width\<close>.
  \<^item> \<open>Rust_Std\<close>: what the sources use of the standard library (indexing and slicing that panic,
    saturating addition, formatting and parsing of integers, UTF-8 validation, the hash map entry call).
  \<^item> \<open>Domain_Types\<close> (\<open>types.rs\<close>, \<open>error.rs\<close>) and \<open>Uuid_Text\<close> (the text form of a UUID as an interface).
  \<^item> \<open>Codec\<close> (\<open>codec.rs\<close>): file header, record, batch header and footer, encoded and decoded. Lemmas:
    round trips, truncated input is incomplete, accepted input is checked.
  \<^item> \<open>Store\<close> (\<open>store.rs\<close>): the log with its index; \<open>store_open\<close> with the recovery loop, \<open>store_append\<close> with
    every I/O fault, the reads. The state is the bytes of the file and the in-memory \<open>EventLog\<close>. Lemmas:
    every branch of append, the index invariant \<open>log_wf\<close>, reads as windows of the log.
  \<^item> \<open>Recovery\<close>: what the recovery loop does to a file that is a sequence of batches (\<open>store_inv\<close>), to a
    torn batch and to any bytes behind the committed ones; the life of a store as the inductive
    relation \<open>store_reachable\<close>. \<open>Recovery_Faults\<close>: three faults recovery does not survive as intended.
  \<^item> \<open>Reader\<close> (\<open>reader.rs\<close>): the read-only handle and the locale \<open>log_reader\<close>, which store and handle provide.
  \<^item> \<open>Event_Store_Spec\<close>: the abstract event store and the proof that the store refines it, by the locale
    \<open>forward_simulation\<close>; the locale \<open>trace_simulation\<close> for systems with invisible steps.
  \<^item> \<open>Dedup\<close> (\<open>dedup.rs\<close>): the deduplication index over the locale \<open>lru_cache\<close>.
  \<^item> \<open>Broker\<close> (\<open>broker.rs\<close>): publication and the two subscription generators as step functions over the
    locale \<open>broadcast_channel\<close>. \<open>Subscription\<close>: a subscription beside a writer as the step relation
    \<open>sub_step\<close>, with appends, publications and polls interleaved freely, its invariants and its progress;
    \<open>Subscription_Delivery\<close>: what a client receives.
  \<^item> \<open>Writer\<close> (\<open>writer.rs\<close>): the request loop over rounds of drained requests; \<open>Writer_Channel\<close>: the same task
    behind its bounded channel, phase by phase (receive, drain, serve), beside concurrent clients.
  \<^item> \<open>Atomic_Store\<close>: the event store seen by its clients, a log on which calls take effect one at a time between
    invocation and return, and crashes drop the calls under way. \<open>Linearizability\<close>: the running node (clients, channel,
    writer task, index, file, crash, recovery) as the relation \<open>node_step\<close>; its histories are histories of
    the atomic store.
  \<^item> \<open>Service\<close> (\<open>service.rs\<close>): messages, conversions, handlers, the subscription gauge.
    \<open>Auth\<close> (\<open>auth.rs\<close>), \<open>Metrics\<close> (\<open>metrics.rs\<close>), \<open>Server\<close> (\<open>main.rs\<close> up to serving).
  \<^item> \<open>Server_Process\<close>: the running server as the relation \<open>process_step\<close>, labelled with what crosses the wire: RPC calls
    and their answers or refusals, abandoned calls, polls of response streams with their messages, clients going away,
    the signal, and silent steps of the writer task. It joins \<open>service.rs\<close>, \<open>writer.rs\<close>, \<open>broker.rs\<close>
    and the rest of \<open>main.rs\<close>. The writer serves a request in one step here, so nothing falls between an append and its
    publication; \<open>Subscription\<close> covers polls at that point.
    \<open>Shutdown\<close>: the signal, the drain, the join of the writer task; every accepted call is answered exactly once or abandoned by its client.
    \<open>Wire_Delivery\<close>: what each of many subscribers is sent while the writer serves, and that an acknowledged append
    reaches them.
  \<^item> \<open>Console_App\<close> (\<open>app.rs\<close>), \<open>Console_Views\<close> (\<open>views/\<close>, the drawing part of \<open>tui.rs\<close>: contents and areas, with
    the locale \<open>ratatui\<close> for what the widget library does with an area), \<open>Console_Client\<close> (\<open>client.rs\<close>, \<open>error.rs\<close>),
    \<open>Console_Main\<close> (\<open>main.rs\<close>, the event loop and the spawned relay task side by side, and the terminal part of
    \<open>tui.rs\<close>) of the crate \<open>eventfold-console\<close>.
  \<^item> this theory: acknowledged events across server start, writer, file, crash and recovery; the path of events from
    the calls of clients through writer, subscription, service and console client to the console's live tail.

  \<^bold>\<open>Conventions.\<close> A \<open>u64\<close> is a 64-bit word; \<open>usize\<close> values that count elements in memory are natural
  numbers. A fallible function returns \<open>Inl\<close> of its error; \<open>None\<close> around a result is a panic. Strings of
  users are UTF-8 bytes, texts the program builds are strings. Effects that can fail (file operations,
  binding, reading PEM files, drawing) are scripted by a record of their outcomes. A lock held for a whole
  operation makes it one atomic step. Third-party code is a parameter with its documented laws: CRC32
  (\<open>crc_streaming\<close>: the incremental checksum agrees with the one-shot one), the LRU cache, the broadcast
  and mpsc channels, UUID text, JWT decoding, JSON, terminal layout, the gRPC transport. Each contract is a locale or a named
  predicate, interpreted on a concrete instance, and no theorem needs a checksum to be free of
  collisions.

  \<^bold>\<open>Bounds and loops.\<close> The recovery loop is a terminating function: every batch it accepts advances the
  offset. The catch-up loop of a subscription is a step function; the liveness property gives a finite
  number of polls. After the signal the process has a bounded number of steps left, provided no
  subscription is open. The event loop of the console and the rounds of the writer run over lists of inputs of any
  length. Theorems on whole logs assume fewer than \<open>2 ^ 64\<close> events, and batches fewer than \<open>2 ^ 32\<close>, the
  widths of the format.

  \<^bold>\<open>Not modelled.\<close> Module declarations and re-exports (\<open>lib.rs\<close>), the build script and the generated
  protobuf code, tracing, the signal handlers of \<open>shutdown_signal\<close> (the signal is a step that may happen at any
  time), command-line parsing, colours and column widths of the console's widgets, and test code. Time is an argument. Memory
  does not run out, and metric values are unbounded numbers. A poisoned lock cannot arise, since no modelled operation panics while it holds the write lock.
\<close>

section \<open>The writer and the file\<close>

text \<open>All requests of a run, in the order they are served.\<close>

definition served :: "writer_round list \<Rightarrow> (append_request \<times> writer_io) list" where
  "served rounds = concat (map snd rounds)"

lemma run_writer_served_induct:
  assumes "P st"
    and "\<And>ts req io st. (req, io) \<in> set (served rounds) \<Longrightarrow> P st \<Longrightarrow> P (process_request W ts (req, io) st)"
  shows "P (run_writer W rounds st)"
proof -
  have batch: "P (fold (process_request W ts) batch st)"
    if "set batch \<subseteq> set (served rounds)" "P st" for ts batch st
    using that assms(2) by (induction batch arbitrary: st) auto
  have "P (run_writer W rds st)" if "set (served rds) \<subseteq> set (served rounds)" "P st" for rds st
    using that
  proof (induction rds arbitrary: st)
    case (Cons r rds)
    then show ?case using batch [of "snd r" st "of_nat (fst r)"]
      by (cases r) (simp add: run_writer_def served_def Let_def)
  qed (simp add: run_writer_def)
  then show ?thesis using assms(1) by simp
qed

lemma append_refused_same:
  "store_append C append_io_ok s sid ev ts ps = (s', Inl e) \<Longrightarrow> s' = s"
  by (auto simp: store_append_def append_io_ok_def Let_def split: sum.splits prod.splits)

text \<open>Serving an RPC-shaped request on a working disk keeps file and index in agreement.\<close>

definition disk_request :: "append_request \<times> writer_io \<Rightarrow> bool" where
  "disk_request = (\<lambda>(req, io). wi_append io = append_io_ok \<and> ar_events req \<noteq> [] \<and>
     utf8_events (ar_events req) \<and> length (ar_events req) < 2 ^ 32)"

lemma store_inv_request [inv_intros]:
  assumes "disk_request (req, io)" and "store_inv (we_crc W) (ws_store st)"
  shows "store_inv (we_crc W) (ws_store (process_request W ts (req, io) st))"
proof (cases rule: process_request_cases [of req W ts io st])
  case (refused dedup s e)
  with assms have "s = ws_store st" by (auto simp: disk_request_def dest: append_refused_same)
  with refused assms show ?thesis by (simp add: send_response_def)
next
  case (appended dedup s recorded)
  then show ?thesis
    using store_inv_append [OF assms(2)] assms(1) by (simp add: disk_request_def send_response_def)
qed (use assms in \<open>simp_all add: send_response_def\<close>)

lemma store_inv_run:
  assumes "\<forall>r \<in> set (served rounds). disk_request r" and "store_inv (we_crc W) (ws_store st)"
  shows "store_inv (we_crc W) (ws_store (run_writer W rounds st))"
  using assms by (intro run_writer_served_induct [where P = "\<lambda>st. store_inv (we_crc W) (ws_store st)"])
    (auto intro: inv_intros)

text \<open>
  The writer part: after any run on a working disk and a crash in the middle of a further batch, the
  file opens to a consistent store that holds every acknowledged event.
\<close>

lemma acknowledged_recovered:
  assumes "crc_streaming (we_crc W)" and "lru_cache (we_lru W) entries cap"
    and "store_inv (we_crc W) s" and "\<forall>r \<in> set (served rounds). disk_request r"
    and "run_writer W rounds (fst (spawn_writer W s b n m)) = w" and "(t, Inr rs) \<in> set (ws_responses w)"
    and "ps \<noteq> []" and "\<forall>p \<in> set ps. event_valid p" and "utf8_events ps" and "length ps < 2 ^ 32"
    and "prefix torn (batch_bytes (we_crc W) (store_global_position (ws_store w)) (appended (ws_store w) sid ts ps))"
  shows "\<exists>file s'. store_open (we_crc W) open_io_ok (Some (st_file (ws_store w) @ torn)) = (file, Inr s') \<and>
           store_inv (we_crc W) s' \<and> sublist rs (el_events (st_log s'))"
proof -
  have "store_inv (we_crc W) (ws_store (fst (spawn_writer W s b n m)))"
    using assms(3) by (simp add: spawn_writer_def Let_def)
  from store_inv_run [OF assms(4) this] assms(5) have inv: "store_inv (we_crc W) (ws_store w)" by simp
  note reopen = reopen_crashed [OF assms(1) inv assms(7-11)]
  note inv' = store_inv_append [OF inv append_ok_any [OF assms(8)] assms(7,9,10)]
  have "sublist rs (el_events (st_log (ws_store w)))"
    using acknowledged_events_logged [OF assms(2), of t rs rounds s b n m] assms(5,6)
    by (simp add: log_events_def)
  with reopen inv inv' show ?thesis by (auto simp: update_index_def split: if_splits intro: sublist_prefix)
qed

text \<open>
  C7: an acknowledged event survives a crash of the server. A server has started on a consistent log and
  its writer has served any requests on a working disk; then the process dies while a further batch is
  being written, with any prefix of that batch in the data file. Started again with the same
  environment, the server comes up, its log is consistent again (so the argument can be repeated for
  the next crash), and it holds every answer the first process ever sent as one block, also answers to
  retries from the deduplication index.
\<close>

theorem acknowledged_survives_restart:
  assumes "crc_streaming (we_crc W)" and "lru_cache (we_lru W) entries cap"
    and "server_main W J P m0 var io files lock = (files', lock', Started sv)" and "su_open io = open_io_ok"
    and "store_inv (we_crc W) (ws_store (sv_writer sv))" and "\<forall>r \<in> set (served rounds). disk_request r"
    and "run_writer W rounds (sv_writer sv) = w" and "(t, Inr rs) \<in> set (ws_responses w)"
    and "ps \<noteq> []" and "\<forall>p \<in> set ps. event_valid p" and "utf8_events ps" and "length ps < 2 ^ 32"
    and "prefix torn (batch_bytes (we_crc W) (store_global_position (ws_store w)) (appended (ws_store w) sid ts ps))"
    and "config_from_env P var = Inr cfg"
    and "crashed (cf_data_path cfg) = Some (st_file (ws_store w) @ torn)"
  shows "\<exists>files2 lock2 sv2. server_main W J P m0 var io crashed None = (files2, lock2, Started sv2) \<and>
           store_inv (we_crc W) (ws_store (sv_writer sv2)) \<and> sublist rs (log_events (sv_writer sv2))"
proof -
  from server_main_Started [OF assms(3)] assms(14) obtain s where
    sv: "sv_writer sv = fst (spawn_writer W s (broker_new (we_bc W) (cf_broker_capacity cfg))
      (cf_dedup_capacity cfg) m0)" by auto
  then have "store_inv (we_crc W) s" using assms(5) by (simp add: spawn_writer_def Let_def)
  from acknowledged_recovered [OF assms(1,2) this assms(6) assms(7) [unfolded sv] assms(8-13)]
  obtain f s' where s': "store_open (we_crc W) (su_open io) (crashed (cf_data_path cfg)) = (f, Inr s')"
    "store_inv (we_crc W) s'" "sublist rs (el_events (st_log s'))"
    unfolding assms(4,15) by blast
  from server_main_again [where ?files2.0 = crashed, OF assms(3,14) s'(1)] s'(2,3) show ?thesis
    by (auto simp: spawn_writer_def log_events_def Let_def)
qed

theorem acknowledged_survives_restart_witness:
  "\<exists>crashed files2 lock2 sv2. server_main demo_env ideal_jwt demo_parse_addr demo_metrics (demo_vars ''16'')
       demo_startup_io crashed None = (files2, lock2, Started sv2) \<and>
     sublist (appended demo_store 1 9 [demo_proposed 4, demo_proposed 5]) (log_events (sv_writer sv2))"
proof -
  let ?rounds = "[(9, [(demo_request, writer_io_ok)])]"
  let ?w = "run_writer demo_env ?rounds demo_writer"
  let ?crashed = "\<lambda>_ :: string. Some (st_file (ws_store ?w) @ [])"
  obtain files lock sv where sv: "server_main demo_env ideal_jwt demo_parse_addr demo_metrics
      (demo_vars ''16'') demo_startup_io (\<lambda>_. None) None = (files, lock, Started sv)" "sv_writer sv = demo_writer"
    using demo_server_starts by blast
  have 1: "su_open demo_startup_io = open_io_ok" by (simp add: demo_startup_io_def)
  have 2: "store_inv (we_crc demo_env) (ws_store (sv_writer sv))"
    by (simp add: sv(2) demo_writer_def spawn_writer_def Let_def store_inv_demo)
  have 3: "\<forall>r \<in> set (served ?rounds). disk_request r"
    using utf8_events_demo by (simp add: served_def disk_request_def writer_io_ok_def demo_request_def)
  have 4: "run_writer demo_env ?rounds (sv_writer sv) = ?w" by (simp add: sv(2))
  have 5: "(7, Inr (appended demo_store 1 9 [demo_proposed 4, demo_proposed 5])) \<in> set (ws_responses ?w)"
    using demo_process by (simp add: run_writer_def)
  have 6: "crc_streaming (we_crc demo_env)" "lru_cache (we_lru demo_env) ll_entries ll_cap"
    using crc_streaming_demo ll.lru_cache_axioms by simp_all
  obtain cfg where 7: "config_from_env demo_parse_addr (demo_vars ''16'') = Inr cfg"
    using server_main_Started [OF sv(1)] by blast
  from acknowledged_survives_restart [OF 6 sv(1) 1 2 3 4 5, of "[demo_proposed 4]" "[]" 1 9, OF _ _ _ _ _ 7, of ?crashed]
    utf8_events_demo(2) show ?thesis by auto
qed

section \<open>From an append to the live tail\<close>

text \<open>What the console's client reads from a response stream for a message of the service.\<close>

definition on_wire :: "status + sub_content \<Rightarrow> stream_message" where
  "on_wire = map_sum id (Some \<circ> Some)"

definition shown :: "uuid_ops \<Rightarrow> recorded_event \<Rightarrow> event_record" where
  "shown U e = proto_to_event_record (recorded_to_proto U e)"

abbreviation wire :: "uuid_ops \<Rightarrow> item \<Rightarrow> stream_message" where
  "wire U i \<equiv> on_wire (map_item U i)"

lemma wire_simps [simp]:
  "wire U (Inr (EventMsg e)) = Inr (Some (Some (ContentEvent (recorded_to_proto U e))))"
  "wire U (Inr CaughtUp) = Inr (Some (Some ContentCaughtUp))"
  "wire U (Inl x) = Inl (error_to_status U x)"
  by (simp_all add: on_wire_def map_item_def)

lemma relayed_messages:
  "relayed (map (wire U) (messages es) @ rs) = map (SubEvent \<circ> shown U) es @ relayed rs"
  by (induction es) (simp_all add: messages_def shown_def)

lemma relayed_delivery:
  assumes "delivery V 0 b n k lag xs"
  shows "\<exists>marked. (marked \<longrightarrow> b \<le> n) \<and> relayed (map (wire U) xs) = map (SubEvent \<circ> shown U) (take n V) @
    (if marked then SubCaughtUp # map (SubEvent \<circ> shown U) (window V n k) else [])"
proof -
  from assms have lag: "lag = [] \<or> lag = [Inl lag_error]" by (simp add: delivery_def)
  from assms consider "xs = messages (take n V)"
    | "b \<le> n" "xs = messages (take n V) @ Inr CaughtUp # messages (window V n k) @ lag"
    by (auto simp: delivery_def window_def)
  then show ?thesis
  proof cases
    case 1
    then show ?thesis using relayed_messages [of U "take n V" "[]"] by (intro exI [of _ False]) simp
  next
    case 2
    then show ?thesis using lag relayed_messages [of U "window V n k" "[]"]
      by (intro exI [of _ True]) (auto simp: relayed_messages)
  qed
qed

lemma event_messages: "List.map_filter message_event (map (SubEvent \<circ> f) es) = map f es"
  by (induction es) simp_all

text \<open>A run of events with the marker somewhere in it, cut off anywhere.\<close>

lemma cut_transcript:
  assumes "prefix d (map (SubEvent \<circ> f) (take n V) @
      (if live then SubCaughtUp # map (SubEvent \<circ> f) (window V n m) else []))"
    and "n \<le> m" and "m \<le> length V"
  shows "\<exists>k \<le> length V. List.map_filter message_event d = map f (take k V) \<and>
           (SubCaughtUp \<in> set d \<longrightarrow> live \<and> n \<le> k)"
proof -
  let ?A = "map (SubEvent \<circ> f) (take n V)"
  from assms(1) consider (early) "prefix d ?A"
    | (late) d' where "live" "d = ?A @ SubCaughtUp # d'" "prefix d' (map (SubEvent \<circ> f) (window V n m))"
    by (auto simp: prefix_append prefix_Cons split: if_splits)
  then show ?thesis
  proof cases
    case early
    then obtain k where k: "d = map (SubEvent \<circ> f) (take k (take n V))"
      by (metis prefix_def append_eq_conv_conj take_map)
    show ?thesis
      by (intro exI [of _ "min k n"]) (use k assms in \<open>auto simp: event_messages min.commute\<close>)
  next
    case late
    then obtain j where "d' = map (SubEvent \<circ> f) (take j (window V n m))"
      by (metis prefix_def append_eq_conv_conj take_map)
    moreover have "take n V @ take j (window V n m) = take (min (n + j) m) V"
      using assms(2) by (simp add: window_def min_def) (metis take_add le_add_diff_inverse)
    ultimately have "List.map_filter message_event d = map f (take (min (n + j) m) V)"
      using late(2) by (simp add: map_filter_append event_messages flip: map_append)
    then show ?thesis using assms late(1) by (intro exI [of _ "min (n + j) m"]) auto
  qed
qed

text \<open>
  C32: the console's live tail is a window of the server's log. Many clients call a running server, its writer
  serves them, and the console's global subscription from position 0 is polled among all that; its
  messages go over the wire to the console's relay task, through the channel, into the event loop. At any
  moment, whatever was interleaved and however much is still pending, also after a lag error, the live
  buffer holds the newest 10000 events of some prefix of the log, in log order, and once the console says
  it caught up that prefix includes everything that was in the log when it subscribed.
\<close>

theorem live_tail_matches_log:
  assumes "broadcast_channel (we_bc W) queue live cap" and "log_wf (st_log (ws_store (sv_writer sv)))"
    and "run (process_step U W capacity) (process_start sv m) ls0 p0"
    and "process_step U W capacity p0 (SubscribeCall (CallAll 0)) p1"
    and "run (process_step U W capacity) p1 ls p" and "length (el_events (process_log p)) < 2 ^ 64"
    and "mpsc_channel M sent taken receiving" and "0 < buffer"
    and "rpc 0 = Inr (map on_wire (emitted (length (pr_streams p0)) ls))"
    and "sent (task_tx (spawn_subscription M D rpc 0 (ch_new M buffer))) = concat (map tu_messages turns) @ pending"
    and "run_event_loop J turns (initial_state addr) = Looping st"
  shows "\<exists>k \<le> length (el_events (process_log p)).
    live_events st = map (shown U) (drop (k - 10000) (take k (el_events (process_log p)))) \<and>
    (live_caught_up st \<longrightarrow> length (el_events (process_log p0)) \<le> k)"
proof -
  let ?V = "el_events (process_log p)" and ?b = "length (el_events (process_log p0))"
  let ?d = "concat (map tu_messages turns)"
  have "sub_arguments U (CallAll 0) = Inr (AllFrom 0)" by (simp add: sub_arguments_def)
  from opened_stream_inv [OF assms(1-4) this assms(5,6)] obtain s xs where
    xs: "emitted (length (pr_streams p0)) ls = map (map_item U) xs"
      "stream_inv queue live (AllFrom 0) (process_log p0) (process_log p) (process_broker p) s xs"
    by (auto simp: from_of_def)
  from stream_inv_delivered [OF assms(1) xs(2)] obtain n m lag where del: "delivery ?V 0 ?b n m lag xs"
    by (auto simp: well_delivered_def from_of_def)
  then obtain marked where marked: "marked \<longrightarrow> ?b \<le> n" "relayed (map (wire U) xs) = map (SubEvent \<circ> shown U) (take n ?V) @
      (if marked then SubCaughtUp # map (SubEvent \<circ> shown U) (window ?V n m) else [])"
    using relayed_delivery by blast
  have "relayed (map (wire U) xs) = ?d @ pending"
    using assms(9,10) mpsc_channel.loop_relays_all [OF assms(7), of "ch_new M buffer" D "map (wire U) xs"]
      xs(1) mpsc_channel.new_channel [OF assms(7,8)]
    by (simp add: spawn_subscription_def client_subscribe_all_def map_err_def comp_def)
  then have cut: "prefix ?d (map (SubEvent \<circ> shown U) (take n ?V) @
      (if marked then SubCaughtUp # map (SubEvent \<circ> shown U) (window ?V n m) else []))"
    unfolding marked(2) by (metis prefixI)
  from cut_transcript [OF cut] del obtain k where k: "k \<le> length ?V"
    "List.map_filter message_event ?d = map (shown U) (take k ?V)" "SubCaughtUp \<in> set ?d \<longrightarrow> marked \<and> n \<le> k"
    by (auto simp: delivery_def)
  then have "SubCaughtUp \<in> set ?d \<longrightarrow> ?b \<le> k" using marked(1) le_trans by blast
  with k loop_live [OF assms(11), of "[]"] show ?thesis
    by (intro exI [of _ k]) (auto simp: newest_def LIVE_TAIL_CAPACITY_def initial_state_def app_new_def drop_map)
qed

theorem live_tail_matches_log_witness:
  "\<exists>(sv :: (string, string, lru_list, bc_list) server) p1 ls p turns st.
     demo_step (process_start sv demo_gauge) (SubscribeCall (CallAll 0)) p1 \<and> run demo_step p1 ls p \<and>
     run_event_loop demo_ui turns (initial_state []) = Looping st \<and>
     (\<exists>k \<le> 2. live_events st = map (shown demo_uuid_ops) (take k (el_events (process_log p)))) \<and> live_caught_up st"
proof -
  obtain sv :: "(string, string, lru_list, bc_list) server" where sv: "sv_writer sv = demo_writer"
    using demo_server by blast
  let ?a = "process_start sv demo_gauge :: demo_process"
  from demo_subscriber [OF sv] obtain p1 ls p where p: "demo_step ?a (SubscribeCall (CallAll 0)) p1"
    "run demo_step p1 ls p" "wy_state (pr_writer p) = demo_served" "pr_streams p ! 0 = (AllFrom 0, NotStarted)" by blast
  have start: "log_wf (st_log (ws_store (sv_writer sv)))" "length (pr_streams ?a) = 0"
    by (simp_all add: sv demo_writer_log process_start_def)
  have len: "length (el_events (process_log p)) = 2" by (simp add: p(3) demo_served_simps)
  from demo_subscriber_complete [OF sv p] obtain ls' p' n where
    run: "run demo_step p1 (ls @ ls') p'" and p': "process_log p' = process_log p"
      "emitted 0 (ls @ ls') = map (map_item demo_uuid_ops) (messages (window (el_events (process_log p)) 0 n) @
         Inr CaughtUp # messages (window (el_events (process_log p)) n 2))" by blast
  let ?rs = "map on_wire (emitted 0 (ls @ ls'))"
  let ?turns = "[demo_turn (relayed ?rs) None]"
  obtain st where st: "run_event_loop demo_ui ?turns (initial_state []) = Looping st"
    using demo_turn_idle [OF app_inv_initial] by (simp add: initial_state_def app_new_def)
  have rpc: "(\<lambda>_. Inr ?rs) 0 = Inr (map on_wire (emitted (length (pr_streams ?a)) (ls @ ls')))" by (simp only: start(2))
  have sent: "mq_sent (task_tx (spawn_subscription mpsc_queue_ops (\<lambda>_. []) (\<lambda>_. Inr ?rs) 0 (ch_new mpsc_queue_ops 1024)))
      = concat (map tu_messages ?turns) @ []"
    using mq.loop_relays_all [of "ch_new mpsc_queue_ops 1024" "\<lambda>_. []"] mq.new_channel [of 1024]
    by (simp add: spawn_subscription_def client_subscribe_all_def map_err_def demo_turn_def)
  have "\<exists>k \<le> length (el_events (process_log p')).
      live_events st = map (shown demo_uuid_ops) (drop (k - 10000) (take k (el_events (process_log p')))) \<and>
      (live_caught_up st \<longrightarrow> length (el_events (process_log ?a)) \<le> k)"
    by (rule live_tail_matches_log [OF demo_bc start(1) run_Nil p(1) run _ mq.mpsc_channel_axioms _ rpc sent st]) (simp_all add: p'(1) len)
  moreover have "SubCaughtUp \<in> set (relayed ?rs)"
    unfolding p'(2) by (simp add: comp_def relayed_messages)
  then have "live_caught_up st"
    using loop_live [OF st, of "[]"] by (simp add: demo_turn_def newest_def initial_state_def app_new_def)
  ultimately show ?thesis using p(1) run st len
    by (intro exI [of _ sv] exI [of _ p1] exI [of _ "ls @ ls'"] exI [of _ p'] exI [of _ ?turns] exI [of _ st])
      (auto simp: p'(1))
qed

end
